(* ===== verification/Avl_Tree.thy ===== *)
theory Avl_Tree
  imports Main
begin

text \<open>
  The AVL tree of \<open>avl_tree.h\<close>: insertion with in-place update, removal through the
  in-order successor, lookup, and the iterator with its explicit stack.

  A \<open>Node*\<close> is a tree, \<open>nullptr\<close> the empty one, and an operation that relinks nodes
  returns the new subtree, as the source's recursive functions do. The \<open>Compare\<close>
  object is \<open>std::less\<close>, the order of the key type. The rotations dereference a child
  that must not be null; the model leaves such a node as it is, and
  \<open>Balance_rotates\<close> shows that \<open>Balance\<close> never asks for it.

  \<open>sorted_map\<close> is the contract the memtable relies on.
\<close>

section \<open>Definitions\<close>

datatype ('k, 'v) tree =
    Nullptr
  | Node "('k, 'v) tree" 'k 'v "('k, 'v) tree" int

fun Height :: "('k, 'v) tree \<Rightarrow> int" where
  "Height Nullptr = 0"
| "Height (Node l k v r h) = h"

fun BalanceFactor :: "('k, 'v) tree \<Rightarrow> int" where
  "BalanceFactor Nullptr = 0"
| "BalanceFactor (Node l k v r h) = Height l - Height r"

fun UpdateHeight :: "('k, 'v) tree \<Rightarrow> ('k, 'v) tree" where
  "UpdateHeight Nullptr = Nullptr"
| "UpdateHeight (Node l k v r h) =
     (let lh = Height l; rh = Height r in Node l k v r (1 + (if lh > rh then lh else rh)))"

fun RotateRight :: "('k, 'v) tree \<Rightarrow> ('k, 'v) tree" where
  "RotateRight (Node (Node A kx vx B hx) ky vy C hy) =
     UpdateHeight (Node A kx vx (UpdateHeight (Node B ky vy C hy)) hx)"
| "RotateRight t = t"

fun RotateLeft :: "('k, 'v) tree \<Rightarrow> ('k, 'v) tree" where
  "RotateLeft (Node A kx vx (Node B ky vy C hy) hx) =
     UpdateHeight (Node (UpdateHeight (Node A kx vx B hx)) ky vy C hy)"
| "RotateLeft t = t"

text \<open>The assignments \<open>node->left = RotateLeft(node->left)\<close> and its mirror image.\<close>

fun rotate_left_child :: "('k, 'v) tree \<Rightarrow> ('k, 'v) tree" where
  "rotate_left_child (Node l k v r h) =
     (if BalanceFactor l < 0 then Node (RotateLeft l) k v r h else Node l k v r h)"
| "rotate_left_child Nullptr = Nullptr"

fun rotate_right_child :: "('k, 'v) tree \<Rightarrow> ('k, 'v) tree" where
  "rotate_right_child (Node l k v r h) =
     (if BalanceFactor r > 0 then Node l k v (RotateRight r) h else Node l k v r h)"
| "rotate_right_child Nullptr = Nullptr"

definition Balance :: "('k, 'v) tree \<Rightarrow> ('k, 'v) tree" where
  "Balance node =
     (let node = UpdateHeight node; bf = BalanceFactor node
      in if bf > 1 then RotateRight (rotate_left_child node)
         else if bf < -1 then RotateLeft (rotate_right_child node)
         else node)"

fun Insert_node :: "('k::linorder, 'v) tree \<Rightarrow> 'k \<Rightarrow> 'v \<Rightarrow> bool \<Rightarrow> ('k, 'v) tree \<times> bool" where
  "Insert_node Nullptr key val inserted = (Node Nullptr key val Nullptr 1, True)"
| "Insert_node (Node l k v r h) key val inserted =
     (if key < k
      then (let (l', ins) = Insert_node l key val inserted in (Balance (Node l' k v r h), ins))
      else if k < key
      then (let (r', ins) = Insert_node r key val inserted in (Balance (Node l k v r' h), ins))
      else (Node l k val r h, inserted))"

fun FindMin :: "('k, 'v) tree \<Rightarrow> ('k, 'v) tree" where
  "FindMin Nullptr = Nullptr"
| "FindMin (Node l k v r h) = (if l \<noteq> Nullptr then FindMin l else Node l k v r h)"

fun Remove_node :: "('k::linorder, 'v) tree \<Rightarrow> 'k \<Rightarrow> bool \<Rightarrow> ('k, 'v) tree \<times> bool" where
  "Remove_node Nullptr key found = (Nullptr, found)"
| "Remove_node (Node l k v r h) key found =
     (if key < k
      then (let (l', f) = Remove_node l key found in (Balance (Node l' k v r h), f))
      else if k < key
      then (let (r', f) = Remove_node r key found in (Balance (Node l k v r' h), f))
      else if l = Nullptr \<or> r = Nullptr then (if l \<noteq> Nullptr then l else r, True)
      else (case FindMin r of
              Nullptr \<Rightarrow> (Node l k v r h, True)
            | Node _ sk sv _ _ \<Rightarrow>
                (let (r', f) = Remove_node r sk True in (Balance (Node l sk sv r' h), f))))"

fun Find_node :: "('k::linorder, 'v) tree \<Rightarrow> 'k \<Rightarrow> 'v option" where
  "Find_node Nullptr key = None"
| "Find_node (Node l k v r h) key =
     (if key < k then Find_node l key else if k < key then Find_node r key else Some v)"

text \<open>The class: the root and the element count.\<close>

record ('k, 'v) AVLTree =
  tree_root :: "('k, 'v) tree"
  tree_size :: nat

definition AVLTree_new :: "('k, 'v) AVLTree" where
  "AVLTree_new = \<lparr>tree_root = Nullptr, tree_size = 0\<rparr>"

definition Insert :: "'k::linorder \<Rightarrow> 'v \<Rightarrow> ('k, 'v) AVLTree \<Rightarrow> ('k, 'v) AVLTree" where
  "Insert key val t =
     (let (root, inserted) = Insert_node (tree_root t) key val False
      in \<lparr>tree_root = root, tree_size = (if inserted then tree_size t + 1 else tree_size t)\<rparr>)"

definition Find :: "('k::linorder, 'v) AVLTree \<Rightarrow> 'k \<Rightarrow> 'v option" where
  "Find t key = Find_node (tree_root t) key"

definition Remove :: "'k::linorder \<Rightarrow> ('k, 'v) AVLTree \<Rightarrow> bool \<times> ('k, 'v) AVLTree" where
  "Remove key t =
     (let (root, found) = Remove_node (tree_root t) key False
      in (found, \<lparr>tree_root = root, tree_size = (if found then tree_size t - 1 else tree_size t)\<rparr>))"

definition Size :: "('k, 'v) AVLTree \<Rightarrow> nat" where
  "Size t = tree_size t"

definition Empty :: "('k, 'v) AVLTree \<Rightarrow> bool" where
  "Empty t \<longleftrightarrow> tree_size t = 0"

definition Clear :: "('k, 'v) AVLTree \<Rightarrow> ('k, 'v) AVLTree" where
  "Clear t = \<lparr>tree_root = Nullptr, tree_size = 0\<rparr>"

text \<open>
  Moving hands the nodes over; \<open>DestroyTree\<close> gives the keys of the nodes in the order of their
  deletion. \<open>same\<close> says that both sides of an assignment are one object.
\<close>

fun DestroyTree :: "('k, 'v) tree \<Rightarrow> 'k list" where
  "DestroyTree Nullptr = []"
| "DestroyTree (Node l k v r h) = DestroyTree l @ DestroyTree r @ [k]"

definition AVLTree_move :: "('k, 'v) AVLTree \<Rightarrow> ('k, 'v) AVLTree \<times> ('k, 'v) AVLTree" where
  "AVLTree_move other = (other, \<lparr>tree_root = Nullptr, tree_size = 0\<rparr>)"

definition AVLTree_assign ::
  "bool \<Rightarrow> ('k, 'v) AVLTree \<Rightarrow> ('k, 'v) AVLTree \<Rightarrow> 'k list \<times> ('k, 'v) AVLTree \<times> ('k, 'v) AVLTree" where
  "AVLTree_assign same this other =
     (if same then ([], this, other)
      else (DestroyTree (tree_root this), other, \<lparr>tree_root = Nullptr, tree_size = 0\<rparr>))"

text \<open>The iterator is its stack of nodes, the top first; the end iterator is the empty stack.\<close>

type_synonym ('k, 'v) Iterator = "('k, 'v) tree list"

fun PushLeft :: "('k, 'v) tree \<Rightarrow> ('k, 'v) Iterator \<Rightarrow> ('k, 'v) Iterator" where
  "PushLeft Nullptr stack = stack"
| "PushLeft (Node l k v r h) stack = PushLeft l (Node l k v r h # stack)"

fun right_child :: "('k, 'v) tree \<Rightarrow> ('k, 'v) tree" where
  "right_child Nullptr = Nullptr"
| "right_child (Node l k v r h) = r"

definition iter_next :: "('k, 'v) Iterator \<Rightarrow> ('k, 'v) Iterator" where
  "iter_next stack = (case stack of [] \<Rightarrow> [] | node # rest \<Rightarrow> PushLeft (right_child node) rest)"

fun iter_deref :: "('k, 'v) Iterator \<Rightarrow> ('k \<times> 'v) option" where
  "iter_deref (Node l k v r h # stack) = Some (k, v)"
| "iter_deref _ = None"

text \<open>
  Iterators are compared by the node on top. The nodes of a search tree have different keys, so
  that two iterators over one tree are on the same node exactly when the subtrees are equal.
\<close>

definition iter_neq :: "('k, 'v) Iterator \<Rightarrow> ('k, 'v) Iterator \<Rightarrow> bool" where
  "iter_neq it other \<longleftrightarrow>
     (if it = [] \<and> other = [] then False
      else if (it = []) \<noteq> (other = []) then True
      else hd it \<noteq> hd other)"

definition iter_eq :: "('k, 'v) Iterator \<Rightarrow> ('k, 'v) Iterator \<Rightarrow> bool" where
  "iter_eq it other \<longleftrightarrow> \<not> iter_neq it other"

definition iter_post :: "('k, 'v) Iterator \<Rightarrow> ('k, 'v) Iterator \<times> ('k, 'v) Iterator" where
  "iter_post it = (it, iter_next it)"

definition iter_end :: "('k, 'v) Iterator" where
  "iter_end = []"

definition iter_begin :: "('k, 'v) AVLTree \<Rightarrow> ('k, 'v) Iterator" where
  "iter_begin t = PushLeft (tree_root t) []"

section \<open>The contract\<close>

locale sorted_map =
  fixes empty :: 't
    and insert :: "'k::linorder \<Rightarrow> 'v \<Rightarrow> 't \<Rightarrow> 't"
    and remove :: "'k \<Rightarrow> 't \<Rightarrow> 't"
    and find :: "'t \<Rightarrow> 'k \<Rightarrow> 'v option"
    and entries :: "'t \<Rightarrow> ('k \<times> 'v) list"
    and invar :: "'t \<Rightarrow> bool"
  assumes invar_empty: "invar empty"
    and entries_empty: "entries empty = []"
    and invar_insert: "invar t \<Longrightarrow> invar (insert k v t)"
    and invar_remove: "invar t \<Longrightarrow> invar (remove k t)"
    and entries_sorted: "invar t \<Longrightarrow> sorted_wrt (<) (map fst (entries t))"
    and find_entries: "invar t \<Longrightarrow> find t k = map_of (entries t) k"
    and entries_insert: "invar t \<Longrightarrow> map_of (entries (insert k v t)) = (map_of (entries t))(k \<mapsto> v)"
    and entries_remove: "invar t \<Longrightarrow> map_of (entries (remove k t)) = (map_of (entries t))(k := None)"
begin

lemma find_empty: "find empty k = None"
  by (simp add: find_entries invar_empty entries_empty)

lemma find_insert: "invar t \<Longrightarrow> find (insert k v t) k' = (if k' = k then Some v else find t k')"
  by (simp add: find_entries invar_insert entries_insert)

lemma find_remove: "invar t \<Longrightarrow> find (remove k t) k' = (if k' = k then None else find t k')"
  by (simp add: find_entries invar_remove entries_remove)

lemma distinct_entries: "invar t \<Longrightarrow> distinct (map fst (entries t))"
  using entries_sorted strict_sorted_iff by blast

text \<open>Replaying a list of bindings: the last binding of a key wins.\<close>

lemma invar_replay: "invar t \<Longrightarrow> invar (fold (\<lambda>(k, v). insert k v) es t)"
  by (induction es arbitrary: t) (auto simp: invar_insert)

lemma find_replay:
  "invar t \<Longrightarrow> find (fold (\<lambda>(k, v). insert k v) es t) k = (find t ++ map_of (rev es)) k"
proof (induction es arbitrary: t)
  case (Cons e es)
  obtain k' v' where e: "e = (k', v')" by (cases e)
  with Cons show ?case
    by (auto simp: invar_insert find_insert map_add_def split: option.splits)
qed (simp add: map_add_def)

end

section \<open>Order\<close>

fun inorder :: "('k, 'v) tree \<Rightarrow> ('k \<times> 'v) list" where
  "inorder Nullptr = []"
| "inorder (Node l k v r h) = inorder l @ (k, v) # inorder r"

abbreviation keys_of :: "('k, 'v) tree \<Rightarrow> 'k set" where
  "keys_of t \<equiv> fst ` set (inorder t)"

fun bst :: "('k::linorder, 'v) tree \<Rightarrow> bool" where
  "bst Nullptr = True"
| "bst (Node l k v r h) =
     (bst l \<and> bst r \<and> (\<forall>x \<in> keys_of l. x < k) \<and> (\<forall>x \<in> keys_of r. k < x))"

lemma bst_sorted: "bst t \<longleftrightarrow> sorted_wrt (<) (map fst (inorder t))"
proof (induction t)
  case (Node l k v r h)
  have "\<forall>p \<in> set (inorder l). \<forall>q \<in> set (inorder r). fst p < fst q"
    if "\<forall>p \<in> set (inorder l). fst p < k" "\<forall>q \<in> set (inorder r). k < fst q"
    using that by (meson less_trans)
  with Node show ?case by (simp add: sorted_wrt_append) blast
qed simp

lemma inorder_UpdateHeight [simp]: "inorder (UpdateHeight t) = inorder t"
  by (cases t) (simp_all add: Let_def)

lemma inorder_RotateRight [simp]: "inorder (RotateRight t) = inorder t"
  by (cases t rule: RotateRight.cases) (simp_all add: Let_def)

lemma inorder_RotateLeft [simp]: "inorder (RotateLeft t) = inorder t"
  by (cases t rule: RotateLeft.cases) (simp_all add: Let_def)

lemma inorder_rotate_child [simp]:
  "inorder (rotate_left_child t) = inorder t" "inorder (rotate_right_child t) = inorder t"
  by (cases t; simp)+

lemma inorder_Balance [simp]: "inorder (Balance t) = inorder t"
  by (simp add: Balance_def Let_def)

lemma bst_Balance [simp]: "bst (Balance t) = bst t"
  by (simp add: bst_sorted)

text \<open>Insertion replaces the binding of the key in the sorted list of bindings.\<close>

lemma filter_none: "(\<And>x. x \<in> set xs \<Longrightarrow> \<not> P x) \<Longrightarrow> filter P xs = []"
  by (simp add: filter_empty_conv)

lemma inorder_Insert_node:
  "bst t \<Longrightarrow> inorder (fst (Insert_node t key val ins)) =
     filter (\<lambda>p. fst p < key) (inorder t) @ (key, val) # filter (\<lambda>p. key < fst p) (inorder t)"
proof (induction t)
  case (Node l k v r h)
  have l: "\<And>p. p \<in> set (inorder l) \<Longrightarrow> fst p < k" and r: "\<And>p. p \<in> set (inorder r) \<Longrightarrow> k < fst p"
    using Node.prems by auto
  consider "key < k" | "k < key" | "key = k" by fastforce
  then show ?case
  proof cases
    case 1
    then have "filter (\<lambda>p. fst p < key) (inorder r) = []" "filter (\<lambda>p. key < fst p) (inorder r) = inorder r"
      using r by (auto intro!: filter_none filter_True dest: less_trans dest!: r)
    with 1 Node show ?thesis by (auto simp: split_beta Let_def)
  next
    case 2
    then have "filter (\<lambda>p. key < fst p) (inorder l) = []" "filter (\<lambda>p. fst p < key) (inorder l) = inorder l"
      using l by (auto intro!: filter_none filter_True dest: less_trans dest!: l)
    with 2 Node show ?thesis by (auto simp: split_beta Let_def)
  next
    case 3
    then have "filter (\<lambda>p. key < fst p) (inorder l) = []" "filter (\<lambda>p. fst p < key) (inorder l) = inorder l"
      "filter (\<lambda>p. fst p < key) (inorder r) = []" "filter (\<lambda>p. key < fst p) (inorder r) = inorder r"
      using l r by (auto intro!: filter_none filter_True dest!: l r)
    with 3 show ?thesis by simp
  qed
qed simp

lemma bst_Insert_node: "bst t \<Longrightarrow> bst (fst (Insert_node t key val ins))"
  by (auto simp: bst_sorted inorder_Insert_node sorted_wrt_append sorted_wrt_filter sorted_wrt_map
      dest: less_trans)

lemma inserted_flag:
  "snd (Insert_node t key val ins) \<longleftrightarrow> ins \<or> Find_node t key = None"
  by (induction t) (auto simp: split_beta Let_def)

lemma Find_node_map_of: "bst t \<Longrightarrow> Find_node t key = map_of (inorder t) key"
proof (induction t)
  case (Node l k v r h)
  then have "k \<notin> keys_of l" "key < k \<Longrightarrow> key \<notin> keys_of r" "k < key \<Longrightarrow> key \<notin> keys_of l"
    by (auto dest: less_asym)
  with Node show ?case
    by (auto simp: map_add_def map_of_eq_None_iff split: option.splits)
      (metis map_of_eq_None_iff option.distinct(1))+
qed simp

text \<open>Removal takes the binding of the key out of the list of bindings.\<close>

lemma FindMin_Node: "t \<noteq> Nullptr \<Longrightarrow> \<exists>k v r h. FindMin t = Node Nullptr k v r h"
  by (induction t) auto

lemma FindMin_first:
  "FindMin t = Node l k v r h \<Longrightarrow> \<exists>xs. inorder t = (k, v) # xs"
  by (induction t) (auto split: if_splits)

lemma inorder_Remove_node:
  "bst t \<Longrightarrow> inorder (fst (Remove_node t key found)) = filter (\<lambda>p. fst p \<noteq> key) (inorder t)"
proof (induction t key found rule: Remove_node.induct)
  case (2 l k v r h key found)
  have l: "\<And>p. p \<in> set (inorder l) \<Longrightarrow> fst p < k" and r: "\<And>p. p \<in> set (inorder r) \<Longrightarrow> k < fst p"
    using "2.prems" by auto
  consider "key < k" | "k < key" | "key = k" by fastforce
  then show ?case
  proof cases
    case 1
    then have "filter (\<lambda>p. fst p \<noteq> key) (inorder r) = inorder r"
      by (auto intro!: filter_True dest!: r)
    with 1 "2.IH"(1) [OF 1] "2.prems" show ?thesis by (simp add: split_beta Let_def)
  next
    case c: 2
    then have "filter (\<lambda>p. fst p \<noteq> key) (inorder l) = inorder l"
      by (auto intro!: filter_True dest!: l)
    moreover from c have "\<not> key < k" "k \<noteq> key" by auto
    ultimately show ?thesis using c "2.IH"(2) "2.prems" by (simp add: split_beta Let_def)
  next
    case 3
    then have keep: "filter (\<lambda>p. fst p \<noteq> key) (inorder l) = inorder l"
      "filter (\<lambda>p. fst p \<noteq> key) (inorder r) = inorder r"
      by (auto intro!: filter_True dest!: l r)
    show ?thesis
    proof (cases "l = Nullptr \<or> r = Nullptr")
      case True
      with 3 keep show ?thesis by auto
    next
      case False
      then obtain sk sv sr sh where m: "FindMin r = Node Nullptr sk sv sr sh"
        using FindMin_Node by blast
      from FindMin_first [OF m] obtain xs where xs: "inorder r = (sk, sv) # xs" ..
      have "bst r" using "2.prems" by simp
      then have "\<And>p. p \<in> set xs \<Longrightarrow> sk < fst p" by (auto simp: bst_sorted xs)
      then have "filter (\<lambda>p. fst p \<noteq> sk) (inorder r) = xs"
        unfolding xs by (auto intro!: filter_True)
      with "2.IH"(3) [OF _ _ False m] \<open>bst r\<close> 3
      have "inorder (fst (Remove_node r sk True)) = xs" by simp
      with 3 False m keep show ?thesis by (simp add: split_beta Let_def xs)
    qed
  qed
qed simp

lemma bst_Remove_node: "bst t \<Longrightarrow> bst (fst (Remove_node t key found))"
  by (simp add: bst_sorted inorder_Remove_node sorted_wrt_filter sorted_wrt_map)

lemma found_flag:
  "bst t \<Longrightarrow> snd (Remove_node t key found) \<longleftrightarrow> found \<or> Find_node t key \<noteq> None"
proof (induction t key found rule: Remove_node.induct)
  case (2 l k v r h key found)
  show ?case
  proof (cases "key < k \<or> k < key \<or> l = Nullptr \<or> r = Nullptr")
    case True
    with 2 show ?thesis by (auto simp: split_beta Let_def)
  next
    case False
    then obtain sk sv sr sh where m: "FindMin r = Node Nullptr sk sv sr sh"
      using FindMin_Node by blast
    from False have "key = k" by auto
    with "2.IH"(3) [OF _ _ _ m] m False "2.prems" show ?thesis by (simp add: split_beta Let_def)
  qed
qed simp

section \<open>Balance\<close>

fun ht :: "('k, 'v) tree \<Rightarrow> int" where
  "ht Nullptr = 0"
| "ht (Node l k v r h) = 1 + max (ht l) (ht r)"

fun avl :: "('k, 'v) tree \<Rightarrow> bool" where
  "avl Nullptr = True"
| "avl (Node l k v r h) =
     (avl l \<and> avl r \<and> h = 1 + max (ht l) (ht r) \<and> \<bar>ht l - ht r\<bar> \<le> 1)"

lemma ht_nonneg [simp]: "0 \<le> ht t"
  by (induction t) auto

lemma ht_not_negative [simp]: "\<not> ht t < 0"
  by (simp add: not_less)

lemma ht_zero_iff [simp]: "ht t = 0 \<longleftrightarrow> t = Nullptr"
proof (cases t)
  case (Node l k v r h)
  have "0 < ht t" unfolding Node ht.simps using ht_nonneg [of l] by linarith
  with Node show ?thesis by simp
qed simp

lemma avl_Height [simp]: "avl t \<Longrightarrow> Height t = ht t"
  by (cases t) auto

lemma avl_UpdateHeight:
  "avl l \<Longrightarrow> avl r \<Longrightarrow> UpdateHeight (Node l k v r h) = Node l k v r (1 + max (ht l) (ht r))"
  by (simp add: Let_def max_def)

text \<open>The node the source rotates has the child that the rotation dereferences.\<close>

lemma Balance_rotates:
  assumes "avl l" and "avl r"
  shows "BalanceFactor (UpdateHeight (Node l k v r h)) > 1 \<Longrightarrow> l \<noteq> Nullptr"
    and "BalanceFactor (UpdateHeight (Node l k v r h)) < -1 \<Longrightarrow> r \<noteq> Nullptr"
    and "BalanceFactor l < 0 \<Longrightarrow> \<exists>A kx vx B ky vy C hy hx. l = Node A kx vx (Node B ky vy C hy) hx"
    and "BalanceFactor r > 0 \<Longrightarrow> \<exists>A kx vx B ky vy C hx hy. r = Node (Node A kx vx B hx) ky vy C hy"
proof -
  note nn = ht_nonneg [of l] ht_nonneg [of r]
  show "BalanceFactor (UpdateHeight (Node l k v r h)) > 1 \<Longrightarrow> l \<noteq> Nullptr"
    "BalanceFactor (UpdateHeight (Node l k v r h)) < -1 \<Longrightarrow> r \<noteq> Nullptr"
    using assms by (auto simp: Let_def) (use nn in linarith)+
  assume "BalanceFactor l < 0"
  with assms(1) obtain A kx vx B hx where l: "l = Node A kx vx B hx" and "ht A < ht B"
    by (cases l) auto
  moreover from this ht_nonneg [of A] have "B \<noteq> Nullptr" by auto
  ultimately show "\<exists>A kx vx B ky vy C hy hx. l = Node A kx vx (Node B ky vy C hy) hx"
    by (cases B) auto
next
  assume "BalanceFactor r > 0"
  with assms(2) obtain B ky vy C hy where r: "r = Node B ky vy C hy" and "ht C < ht B"
    by (cases r) auto
  moreover from this ht_nonneg [of C] have "B \<noteq> Nullptr" by auto
  ultimately show "\<exists>A kx vx B ky vy C hx hy. r = Node (Node A kx vx B hx) ky vy C hy"
    by (cases B) auto
qed

text \<open>
  One rebalancing step: subtrees whose heights differ by at most two become one balanced
  tree, of the greater height or one more.
\<close>

lemma Balance_left:
  assumes "avl l" and "avl r" and "ht l = ht r + 2"
  shows "avl (Balance (Node l k v r h)) \<and> ht (Balance (Node l k v r h)) \<in> {ht l, ht l + 1}"
proof -
  from assms(3) ht_nonneg [of r] obtain A kx vx B hx where l: "l = Node A kx vx B hx"
    by (cases l) auto
  show ?thesis
  proof (cases "ht A < ht B")
    case True
    then obtain B1 kb vb B2 hb where B: "B = Node B1 kb vb B2 hb"
      using ht_nonneg [of A] by (cases B) auto
    from True assms show ?thesis
      by (auto simp: Balance_def Let_def l B avl_UpdateHeight max_def abs_if split: if_splits)
  next
    case False
    with assms show ?thesis
      by (auto simp: Balance_def Let_def l avl_UpdateHeight max_def abs_if split: if_splits)
  qed
qed

lemma Balance_right:
  assumes "avl l" and "avl r" and "ht r = ht l + 2"
  shows "avl (Balance (Node l k v r h)) \<and> ht (Balance (Node l k v r h)) \<in> {ht r, ht r + 1}"
proof -
  from assms(3) ht_nonneg [of l] obtain B ky vy C hy where r: "r = Node B ky vy C hy"
    by (cases r) auto
  show ?thesis
  proof (cases "ht C < ht B")
    case True
    then obtain B1 kb vb B2 hb where B: "B = Node B1 kb vb B2 hb"
      using ht_nonneg [of C] by (cases B) auto
    from True assms show ?thesis
      by (auto simp: Balance_def Let_def r B avl_UpdateHeight max_def abs_if split: if_splits)
  next
    case False
    with assms show ?thesis
      by (auto simp: Balance_def Let_def r avl_UpdateHeight max_def abs_if split: if_splits)
  qed
qed

lemma Balance_even:
  assumes "avl l" and "avl r" and "\<bar>ht l - ht r\<bar> \<le> 1"
  shows "Balance (Node l k v r h) = Node l k v r (1 + max (ht l) (ht r))"
proof -
  from assms(3) have "\<not> 1 < ht l - ht r" "\<not> ht l - ht r < -1" by auto
  with assms(1,2) show ?thesis by (simp add: Balance_def Let_def max_def)
qed

lemma Balance_avl:
  assumes "avl l" and "avl r" and "\<bar>ht l - ht r\<bar> \<le> 2"
  shows "avl (Balance (Node l k v r h))"
    and "ht (Balance (Node l k v r h)) \<in> {max (ht l) (ht r), 1 + max (ht l) (ht r)}"
    and "\<bar>ht l - ht r\<bar> \<le> 1 \<Longrightarrow> ht (Balance (Node l k v r h)) = 1 + max (ht l) (ht r)"
proof -
  consider "\<bar>ht l - ht r\<bar> \<le> 1" | "ht l = ht r + 2" | "ht r = ht l + 2"
    using assms(3) by linarith
  then have "avl (Balance (Node l k v r h)) \<and>
      ht (Balance (Node l k v r h)) \<in> {max (ht l) (ht r), 1 + max (ht l) (ht r)}"
  proof cases
    case 1
    with assms show ?thesis by (simp add: Balance_even)
  next
    case 2
    with Balance_left [OF assms(1,2) this, of k v h] show ?thesis by (auto simp: max_def)
  next
    case 3
    with Balance_right [OF assms(1,2) this, of k v h] show ?thesis by (auto simp: max_def)
  qed
  then show "avl (Balance (Node l k v r h))"
    and "ht (Balance (Node l k v r h)) \<in> {max (ht l) (ht r), 1 + max (ht l) (ht r)}"
    by blast+
  assume "\<bar>ht l - ht r\<bar> \<le> 1"
  with assms show "ht (Balance (Node l k v r h)) = 1 + max (ht l) (ht r)"
    by (simp add: Balance_even)
qed

lemma avl_Insert_node:
  "avl t \<Longrightarrow> avl (fst (Insert_node t key val ins)) \<and>
     ht (fst (Insert_node t key val ins)) \<in> {ht t, ht t + 1}"
proof (induction t)
  case (Node l k v r h)
  consider "key < k" | "k < key" | "key = k" by fastforce
  then show ?case
  proof cases
    case 1
    let ?l = "fst (Insert_node l key val ins)"
    have IH: "avl ?l" "ht ?l \<in> {ht l, ht l + 1}" using Node by auto
    have "avl r" "\<bar>ht ?l - ht r\<bar> \<le> 2" using Node.prems IH(2) by auto
    from Balance_avl [OF IH(1) this, of k v h] 1 Node.prems IH(2) show ?thesis
      by (auto simp: split_beta Let_def max_def split: if_splits)
  next
    case 2
    let ?r = "fst (Insert_node r key val ins)"
    have IH: "avl ?r" "ht ?r \<in> {ht r, ht r + 1}" using Node by auto
    have "avl l" "\<bar>ht l - ht ?r\<bar> \<le> 2" using Node.prems IH(2) by auto
    from Balance_avl [OF this(1) IH(1) this(2), of k v h] 2 Node.prems IH(2) show ?thesis
      by (auto simp: split_beta Let_def max_def split: if_splits)
  next
    case 3
    with Node.prems show ?thesis by simp
  qed
qed simp

lemma avl_Remove_node:
  "avl t \<Longrightarrow> avl (fst (Remove_node t key found)) \<and>
     ht (fst (Remove_node t key found)) \<in> {ht t, ht t - 1}"
proof (induction t key found rule: Remove_node.induct)
  case (2 l k v r h key found)
  consider "key < k" | "k < key" "\<not> key < k" | "key = k" by fastforce
  then show ?case
  proof cases
    case 1
    let ?l = "fst (Remove_node l key found)"
    have IH: "avl ?l" "ht ?l \<in> {ht l, ht l - 1}" using 1 2 by auto
    have "avl r" "\<bar>ht ?l - ht r\<bar> \<le> 2" using "2.prems" IH(2) by auto
    from Balance_avl [OF IH(1) this, of k v h] 1 "2.prems" IH(2) show ?thesis
      by (auto simp: split_beta Let_def max_def split: if_splits)
  next
    case c: 2
    let ?r = "fst (Remove_node r key found)"
    have IH: "avl ?r" "ht ?r \<in> {ht r, ht r - 1}" using c 2 by auto
    have "avl l" "\<bar>ht l - ht ?r\<bar> \<le> 2" using "2.prems" IH(2) by auto
    from Balance_avl [OF this(1) IH(1) this(2), of k v h] c "2.prems" IH(2) show ?thesis
      by (auto simp: split_beta Let_def max_def split: if_splits)
  next
    case 3
    show ?thesis
    proof (cases "l = Nullptr \<or> r = Nullptr")
      case True
      with 3 "2.prems" ht_nonneg [of l] ht_nonneg [of r] show ?thesis by auto
    next
      case False
      then obtain sk sv sr sh where m: "FindMin r = Node Nullptr sk sv sr sh"
        using FindMin_Node by blast
      let ?r = "fst (Remove_node r sk True)"
      have IH: "avl ?r" "ht ?r \<in> {ht r, ht r - 1}"
        using "2.IH"(3) [OF _ _ False m] 3 "2.prems" by auto
      have "avl l" "\<bar>ht l - ht ?r\<bar> \<le> 2" using "2.prems" IH(2) by auto
      from Balance_avl [OF this(1) IH(1) this(2), of sk sv h] 3 False m "2.prems" IH(2) show ?thesis
        by (auto simp: split_beta Let_def max_def split: if_splits)
    qed
  qed
qed simp

text \<open>
  A balanced tree of height \<open>h\<close> has at least \<open>fib (h + 2) - 1\<close> nodes; with fewer
  than \<open>2 ^ 32\<close> nodes its height is below 47, so the \<open>int\<close> heights of the source
  cannot overflow.
\<close>

fun avl_min :: "nat \<Rightarrow> int" where
  "avl_min 0 = 0"
| "avl_min (Suc 0) = 1"
| "avl_min (Suc (Suc n)) = 1 + avl_min (Suc n) + avl_min n"

lemma avl_min_step: "avl_min n \<le> avl_min (Suc n)"
  by (induction n rule: avl_min.induct) auto

lemma avl_min_mono: "m \<le> n \<Longrightarrow> avl_min m \<le> avl_min n"
  using lift_Suc_mono_le [of avl_min] avl_min_step by blast

lemma avl_min_le: "avl t \<Longrightarrow> avl_min (nat (ht t)) \<le> int (length (inorder t))"
proof (induction t)
  case (Node l k v r h)
  define n where "n = nat (max (ht l) (ht r))"
  have n: "nat (ht (Node l k v r h)) = Suc n"
    using ht_nonneg [of l] by (simp add: n_def nat_add_distrib max_def)
  have "{nat (ht l), nat (ht r)} = {n} \<or> {nat (ht l), nat (ht r)} = {n, n - 1}"
    using Node.prems ht_nonneg [of l] ht_nonneg [of r] by (auto simp: n_def max_def)
  moreover have "avl_min (Suc n) \<le> 1 + avl_min n + avl_min (n - 1)"
    by (cases n) auto
  moreover have "avl_min (n - 1) \<le> avl_min n" by (simp add: avl_min_mono)
  moreover have "avl_min (nat (ht l)) \<le> int (length (inorder l))"
    "avl_min (nat (ht r)) \<le> int (length (inorder r))"
    using Node by auto
  ultimately show ?case unfolding n by (auto simp: doubleton_eq_iff)
qed simp

fun avl_min_pair :: "nat \<Rightarrow> int \<times> int" where
  "avl_min_pair 0 = (0, 1)"
| "avl_min_pair (Suc n) = (case avl_min_pair n of (a, b) \<Rightarrow> (b, 1 + b + a))"

lemma avl_min_pair: "avl_min_pair n = (avl_min n, avl_min (Suc n))"
  by (induction n) simp_all

lemma avl_height_bound:
  assumes "avl t" and "length (inorder t) < 2 ^ 32"
  shows "ht t < 47"
proof (rule ccontr)
  assume "\<not> ht t < 47"
  then have "avl_min 47 \<le> avl_min (nat (ht t))" by (intro avl_min_mono) simp
  moreover have "avl_min_pair 46 = (4807526975, 7778742048)"
    by (simp add: numeral_eq_Suc)
  then have "avl_min 47 = 7778742048"
    by (simp add: avl_min_pair)
  ultimately show False using avl_min_le [OF assms(1)] assms(2) by simp
qed

section \<open>Iteration\<close>

fun stack_entries :: "('k, 'v) Iterator \<Rightarrow> ('k \<times> 'v) list" where
  "stack_entries [] = []"
| "stack_entries (Nullptr # st) = stack_entries st"
| "stack_entries (Node l k v r h # st) = (k, v) # inorder r @ stack_entries st"

lemma stack_entries_PushLeft [simp]: "stack_entries (PushLeft t st) = inorder t @ stack_entries st"
  by (induction t st rule: PushLeft.induct) simp_all

text \<open>
  The loop \<open>for (it = begin(); it != end(); ++it)\<close> and what it collects. A null pointer
  is never pushed; the measure counts the bindings still to come.
\<close>

function iter_collect :: "('k, 'v) Iterator \<Rightarrow> ('k \<times> 'v) list" where
  "iter_collect it =
     (case iter_deref it of None \<Rightarrow> [] | Some kv \<Rightarrow> kv # iter_collect (iter_next it))"
  by pat_completeness auto
termination
proof (relation "measure (length \<circ> stack_entries)", simp)
  fix it :: "('k, 'v) Iterator" and kv
  assume "iter_deref it = Some kv"
  then show "(iter_next it, it) \<in> measure (length \<circ> stack_entries)"
    by (cases it rule: iter_deref.cases) (simp_all add: iter_next_def)
qed

declare iter_collect.simps [simp del]

text \<open>Every node is deleted once.\<close>

lemma set_DestroyTree: "set (DestroyTree t) = keys_of t"
  by (induction t) auto

lemma distinct_DestroyTree: "bst t \<Longrightarrow> distinct (DestroyTree t)"
proof (induction t)
  case (Node l k v r h)
  then show ?case unfolding DestroyTree.simps by (fastforce simp: set_DestroyTree)
qed simp

fun no_null :: "('k, 'v) Iterator \<Rightarrow> bool" where
  "no_null st = (Nullptr \<notin> set st)"

text \<open>The condition of a loop up to the end.\<close>

lemma iter_neq_end: "no_null it \<Longrightarrow> iter_neq it iter_end \<longleftrightarrow> iter_deref it \<noteq> None"
  by (cases it rule: iter_deref.cases) (auto simp: iter_neq_def iter_end_def)

lemma no_null_PushLeft: "no_null st \<Longrightarrow> no_null (PushLeft t st)"
  by (induction t st rule: PushLeft.induct) simp_all

lemma iter_collect_stack: "no_null it \<Longrightarrow> iter_collect it = stack_entries it"
proof (induction it rule: iter_collect.induct)
  case (1 it)
  show ?case
  proof (cases it rule: iter_deref.cases)
    case (1 l k v r h stack)
    with "1.prems" have "no_null (iter_next it)"
      using no_null_PushLeft [of stack r] by (simp add: iter_next_def)
    with "1.IH" [of "(k, v)"] 1 have "iter_collect (iter_next it) = stack_entries (iter_next it)"
      by simp
    with 1 show ?thesis
      by (simp add: iter_collect.simps [of "Node l k v r h # stack"] iter_next_def)
  next
    case "2_1"
    then show ?thesis by (simp add: iter_collect.simps [of "[]"])
  next
    case "2_2"
    with "1.prems" show ?thesis by simp
  qed
qed

lemma iter_collect_begin: "iter_collect (iter_begin t) = inorder (tree_root t)"
  using no_null_PushLeft [of "[]" "tree_root t"]
  by (simp add: iter_begin_def iter_collect_stack)

section \<open>The tree implements the contract\<close>

definition avl_invar :: "('k::linorder, 'v) AVLTree \<Rightarrow> bool" where
  "avl_invar t \<longleftrightarrow> bst (tree_root t) \<and> avl (tree_root t) \<and> tree_size t = length (inorder (tree_root t))"

lemma map_of_filter_fst:
  "map_of (filter (\<lambda>p. P (fst p)) xs) x = (if P x then map_of xs x else None)"
  by (induction xs) auto

lemma map_of_filter_upd:
  fixes k :: "'k::linorder"
  shows "map_of (filter (\<lambda>p. fst p < k) xs @ (k, v) # filter (\<lambda>p. k < fst p) xs) =
    (map_of xs)(k \<mapsto> v)"
proof
  fix x
  note f = map_of_filter_fst [of "\<lambda>y. y < k"] map_of_filter_fst [of "\<lambda>y. k < y"]
  consider "x < k" | "x = k" | "k < x" by fastforce
  then show "map_of (filter (\<lambda>p. fst p < k) xs @ (k, v) # filter (\<lambda>p. k < fst p) xs) x
      = ((map_of xs)(k \<mapsto> v)) x"
    by cases (auto simp: map_add_def f split: option.splits)
qed

lemma length_card:
  fixes xs :: "('k::linorder \<times> 'v) list"
  shows "sorted_wrt (<) (map fst xs) \<Longrightarrow> length xs = card (fst ` set xs)"
  using distinct_card [of "map fst xs"] strict_sorted_iff [of "map fst xs"] by simp

lemma keys_Insert_node:
  "bst t \<Longrightarrow> keys_of (fst (Insert_node t k v ins)) = insert k (keys_of t)"
  by (auto simp: inorder_Insert_node image_iff)

lemma avl_invar_Insert: "avl_invar t \<Longrightarrow> avl_invar (Insert k v t)"
proof -
  assume inv: "avl_invar t"
  let ?t = "fst (Insert_node (tree_root t) k v False)"
  have b: "bst (tree_root t)" "bst ?t"
    using inv by (auto simp: avl_invar_def bst_Insert_node)
  have "length (inorder ?t) = card (insert k (keys_of (tree_root t)))"
    using b by (simp add: length_card bst_sorted keys_Insert_node)
  also have "\<dots> = length (inorder (tree_root t)) + (if k \<in> keys_of (tree_root t) then 0 else 1)"
    using b by (simp add: length_card bst_sorted insert_absorb)
  finally show ?thesis
    using inv b avl_Insert_node [of "tree_root t" k v False]
    by (auto simp: avl_invar_def Insert_def split_beta Let_def inserted_flag Find_node_map_of
        map_of_eq_None_iff)
qed

lemma avl_invar_Remove: "avl_invar t \<Longrightarrow> avl_invar (snd (Remove k t))"
proof -
  assume inv: "avl_invar t"
  let ?t = "fst (Remove_node (tree_root t) k False)"
  have b: "bst (tree_root t)" "bst ?t"
    using inv by (auto simp: avl_invar_def bst_Remove_node)
  have "keys_of ?t = keys_of (tree_root t) - {k}"
    using b by (auto simp: inorder_Remove_node)
  then have "length (inorder ?t) = card (keys_of (tree_root t) - {k})"
    using b by (simp add: length_card bst_sorted)
  also have "\<dots> = length (inorder (tree_root t)) - (if k \<in> keys_of (tree_root t) then 1 else 0)"
    using b by (simp add: length_card bst_sorted)
  finally show ?thesis
    using inv b avl_Remove_node [of "tree_root t" k False]
    by (auto simp: avl_invar_def Remove_def split_beta Let_def found_flag Find_node_map_of
        map_of_eq_None_iff)
qed

interpretation avl_map: sorted_map AVLTree_new Insert "\<lambda>k t. snd (Remove k t)" Find
  "\<lambda>t. iter_collect (iter_begin t)" avl_invar
proof unfold_locales
  fix t :: "('k::linorder, 'v) AVLTree" and k v
  show "avl_invar AVLTree_new" by (simp add: avl_invar_def AVLTree_new_def)
  show "iter_collect (iter_begin AVLTree_new) = []"
    by (simp add: iter_collect_begin AVLTree_new_def)
  assume inv: "avl_invar t"
  then have b: "bst (tree_root t)" by (simp add: avl_invar_def)
  from inv show "avl_invar (Insert k v t)" "avl_invar (snd (Remove k t))"
    by (rule avl_invar_Insert, rule avl_invar_Remove)
  from b show "sorted_wrt (<) (map fst (iter_collect (iter_begin t)))"
    by (simp add: iter_collect_begin bst_sorted)
  from b show "Find t k = map_of (iter_collect (iter_begin t)) k"
    by (simp add: iter_collect_begin Find_def Find_node_map_of)
  from b show "map_of (iter_collect (iter_begin (Insert k v t))) =
      (map_of (iter_collect (iter_begin t)))(k \<mapsto> v)"
    by (simp only: iter_collect_begin Insert_def split_beta Let_def inorder_Insert_node
        map_of_filter_upd AVLTree.select_convs)
  from b show "map_of (iter_collect (iter_begin (snd (Remove k t)))) =
      (map_of (iter_collect (iter_begin t)))(k := None)"
    by (auto simp: iter_collect_begin Remove_def split_beta Let_def inorder_Remove_node
        map_of_filter_fst [of "\<lambda>y. y \<noteq> k"])
qed

text \<open>The size counts the bindings, and a removal reports whether there was one.\<close>

lemma Size_entries: "avl_invar t \<Longrightarrow> Size t = length (iter_collect (iter_begin t))"
  by (simp add: avl_invar_def Size_def iter_collect_begin)

lemma Remove_found: "avl_invar t \<Longrightarrow> fst (Remove k t) \<longleftrightarrow> Find t k \<noteq> None"
  by (simp add: Remove_def split_beta Let_def found_flag avl_invar_def Find_def)

section \<open>Properties\<close>

text \<open>
  C20: inserting into a balanced search tree keeps it one (order, balance, cached heights and
  cached size), and afterwards a lookup finds the new value under its key and is unchanged
  elsewhere.
\<close>
theorem avl_insert_correct:
  assumes "avl_invar t"
  shows "avl_invar (Insert k v t) \<and> Find (Insert k v t) k' = (if k' = k then Some v else Find t k')"
  using assms by (simp add: avl_map.invar_insert avl_map.find_insert)

theorem avl_insert_correct_witness:
  "avl_invar (Insert (1 :: nat) ''a'' AVLTree_new) \<and>
   Find (Insert (1 :: nat) ''a'' AVLTree_new) 1 = Some ''a''"
  using avl_insert_correct [OF avl_map.invar_empty, of "1 :: nat" "''a''" "1 :: nat"] by simp

text \<open>
  C21: removing a key keeps the invariant, reports whether the key was there, and removes that
  key only.
\<close>
theorem avl_remove_correct:
  assumes "avl_invar t" and "Remove k t = (found, t')"
  shows "avl_invar t' \<and> (found \<longleftrightarrow> Find t k \<noteq> None) \<and>
    Find t' k' = (if k' = k then None else Find t k')"
  using avl_map.invar_remove [OF assms(1), of k] avl_map.find_remove [OF assms(1), of k k']
    Remove_found [OF assms(1), of k] assms(2) by simp

theorem avl_remove_correct_witness:
  "Find (snd (Remove 1 (Insert 2 ''b'' (Insert (1 :: nat) ''a'' AVLTree_new)))) 2 = Some ''b''"
proof -
  let ?t = "Insert 2 ''b'' (Insert (1 :: nat) ''a'' AVLTree_new)"
  have inv: "avl_invar ?t" by (intro avl_map.invar_insert avl_map.invar_empty)
  have "Find ?t 2 = Some ''b''"
    by (simp add: avl_map.find_insert avl_map.invar_insert avl_map.invar_empty)
  then show ?thesis
    using avl_remove_correct [OF inv, of 1 "fst (Remove 1 ?t)" "snd (Remove 1 ?t)" 2] by simp
qed

text \<open>
  C38: the tree never gets deeper than 46 levels while it holds fewer than \<open>2 ^ 32\<close> keys, so
  the recursion of \<open>Insert\<close> and \<open>Remove\<close> and the \<open>int\<close> heights stay small.
\<close>
theorem avl_depth_bound:
  assumes "avl_invar t" and "Size t < 2 ^ 32"
  shows "ht (tree_root t) < 47 \<and> Height (tree_root t) = ht (tree_root t)"
  using assms avl_height_bound [of "tree_root t"] by (simp add: avl_invar_def Size_def)

theorem avl_depth_bound_witness:
  "ht (tree_root (Insert (1 :: nat) ''a'' AVLTree_new)) < 47"
  using avl_depth_bound [OF avl_map.invar_insert [OF avl_map.invar_empty], of "1 :: nat" "''a''"]
  by (simp add: Insert_def Size_def AVLTree_new_def)

text \<open>
  C34: the in-order iterator terminates and yields every key once, in increasing order, with
  the value a lookup finds.
\<close>
theorem avl_iteration_correct:
  assumes "avl_invar t"
  shows "sorted_wrt (<) (map fst (iter_collect (iter_begin t))) \<and>
    map_of (iter_collect (iter_begin t)) = Find t \<and> Size t = length (iter_collect (iter_begin t))"
  using assms by (auto simp: avl_map.entries_sorted avl_map.find_entries Size_entries)

theorem avl_iteration_correct_witness:
  "sorted_wrt (<) (map fst (iter_collect (iter_begin (Insert (1 :: nat) ''a'' AVLTree_new))))"
  using avl_iteration_correct [OF avl_map.invar_insert [OF avl_map.invar_empty], of "1 :: nat" "''a''"] by simp

end
