(* ===== verification/Prelude.thy ===== *)
theory Prelude
  imports Main "HOL-Library.Word" "HOL-Library.List_Lexorder" "HOL-Library.AList"
begin

text \<open>
  Shared vocabulary of the development: machine integers and byte strings, the text
  formatting of numbers that the C++ streams do, and the generic lemmas on lists and
  words that the component theories use.

  Every \<open>std::string\<close> and every \<open>Slice\<close> of the program is a list of bytes.
  \<open>std::string\<close> compares its characters as unsigned bytes, lexicographically, which is
  the order \<open>List_Lexorder\<close> puts on lists of words.
\<close>

unbundle bit_operations_syntax

named_theorems codec_simps "round trips of the encoders"
named_theorems length_simps "lengths of encoded data"

section \<open>Machine integers and byte strings\<close>

type_synonym byte = "8 word"
type_synonym bytes = "byte list"
type_synonym u32 = "32 word"
type_synonym u64 = "64 word"

text \<open>A C++ string literal.\<close>

definition str :: "string \<Rightarrow> bytes" where
  "str s = map of_char s"

text \<open>The conversion of a \<open>size_t\<close> to a fixed-width integer wraps around.\<close>

abbreviation u32_of :: "nat \<Rightarrow> u32" where
  "u32_of n \<equiv> word_of_nat n"

abbreviation u64_of :: "nat \<Rightarrow> u64" where
  "u64_of n \<equiv> word_of_nat n"

section \<open>Decimal text\<close>

text \<open>
  \<open>show_nat\<close> is what \<open>ostream << n\<close> prints for an unsigned integer, \<open>pad5\<close> what
  \<open>setw(5)\<close> with \<open>setfill('0')\<close> makes of it, and \<open>dec_val\<close> the value
  \<open>stoul\<close>/\<open>stoull\<close> and \<open>istream >> n\<close> give a digit string.
\<close>

definition digit :: "nat \<Rightarrow> byte" where
  "digit d = word_of_nat (48 + d)"

definition is_digit :: "byte \<Rightarrow> bool" where
  "is_digit b \<longleftrightarrow> 48 \<le> b \<and> b \<le> 57"

fun show_nat :: "nat \<Rightarrow> bytes" where
  "show_nat n = (if n < 10 then [digit n] else show_nat (n div 10) @ [digit (n mod 10)])"

declare show_nat.simps [simp del]

definition pad5 :: "bytes \<Rightarrow> bytes" where
  "pad5 s = replicate (5 - length s) 48 @ s"

definition dec_val :: "bytes \<Rightarrow> nat" where
  "dec_val s = foldl (\<lambda>n b. 10 * n + (unat b - 48)) 0 s"

lemma unat_digit: "d < 10 \<Longrightarrow> unat (digit d) = 48 + d"
  by (simp only: digit_def unat_of_nat) simp

lemma is_digit_digit: "d < 10 \<Longrightarrow> is_digit (digit d)"
  by (simp add: is_digit_def word_le_nat_alt unat_digit)

lemma dec_val_snoc [simp]: "dec_val (s @ [b]) = 10 * dec_val s + (unat b - 48)"
  by (simp add: dec_val_def)

lemma dec_val_show_nat [simp]: "dec_val (show_nat n) = n"
proof (induction n rule: show_nat.induct)
  case (1 n)
  show ?case
  proof (cases "n < 10")
    case True
    then show ?thesis by (simp add: show_nat.simps [of n] dec_val_def unat_digit)
  next
    case False
    with 1 show ?thesis by (simp add: show_nat.simps [of n] unat_digit)
  qed
qed

lemma dec_val_zeros: "dec_val (replicate k 48 @ s) = dec_val s"
  by (induction k) (simp_all add: dec_val_def)

lemma dec_val_pad5 [simp]: "dec_val (pad5 (show_nat n)) = n"
  by (simp add: pad5_def dec_val_zeros)

lemma set_show_nat: "b \<in> set (show_nat n) \<Longrightarrow> is_digit b"
proof (induction n rule: show_nat.induct)
  case (1 n)
  then show ?case
    by (cases "n < 10") (auto simp: show_nat.simps [of n] is_digit_digit)
qed

lemma show_nat_nonempty [simp]: "show_nat n \<noteq> []"
  by (simp add: show_nat.simps)

lemma set_pad5: "b \<in> set (pad5 (show_nat n)) \<Longrightarrow> is_digit b"
  by (auto simp: pad5_def is_digit_def dest: set_show_nat)

lemma length_show_nat_le: "n < 10 ^ k \<Longrightarrow> 0 < k \<Longrightarrow> length (show_nat n) \<le> k"
proof (induction k arbitrary: n)
  case 0
  then show ?case by simp
next
  case (Suc k)
  show ?case
  proof (cases "n < 10")
    case True
    then show ?thesis by (simp add: show_nat.simps [of n])
  next
    case False
    with Suc.prems have k: "0 < k"
      by (cases k) auto
    from Suc.prems(1) have "n < 10 * 10 ^ k"
      by simp
    then have "n div 10 < 10 ^ k"
      by (simp add: less_mult_imp_div_less mult.commute)
    from Suc.IH [OF this k] False show ?thesis
      by (simp add: show_nat.simps [of n])
  qed
qed

lemma length_pad5: "n < 100000 \<Longrightarrow> length (pad5 (show_nat n)) = 5"
  using length_show_nat_le [of n 5] by (simp add: pad5_def)

lemma pad5_inj: "pad5 (show_nat m) = pad5 (show_nat n) \<Longrightarrow> m = n"
  by (metis dec_val_pad5)

section \<open>Lists\<close>

lemma take_append_exact [simp]: "length xs = n \<Longrightarrow> take n (xs @ ys) = xs"
  by simp

lemma drop_append_exact [simp]: "length xs = n \<Longrightarrow> drop n (xs @ ys) = ys"
  by simp

lemma drop_split: "drop n xs = take m (drop n xs) @ drop (n + m) xs"
  by (metis append_take_drop_id drop_drop add.commute)

section \<open>Words\<close>

lemma unat_of_nat_32 [simp]: "n < 2 ^ 32 \<Longrightarrow> unat (word_of_nat n :: u32) = n"
  by (simp add: unat_of_nat)

lemma unat_of_nat_64 [simp]: "n < 2 ^ 64 \<Longrightarrow> unat (word_of_nat n :: u64) = n"
  by (simp add: unat_of_nat)

lemma unat_u32_bound: "unat (w :: u32) < 2 ^ 32"
  using unsigned_less [of w] by simp

lemma unat_u64_bound: "unat (w :: u64) < 2 ^ 64"
  using unsigned_less [of w] by simp

text \<open>A word below \<open>2 ^ k\<close> has no bit at or above \<open>k\<close>.\<close>

lemma take_bit_small:
  fixes v :: "'a::len word"
  shows "unat v < 2 ^ k \<longleftrightarrow> take_bit k v = v"
proof
  assume "unat v < 2 ^ k"
  then show "take_bit k v = v"
    by (simp add: word_unat_eq_iff unsigned_take_bit_eq take_bit_nat_eq_self)
next
  assume "take_bit k v = v"
  then have "unat v = take_bit k (unat v)" by (metis unsigned_take_bit_eq)
  then show "unat v < 2 ^ k" by (metis take_bit_nat_less_exp)
qed

lemma bit_above:
  fixes v :: "'a::len word"
  shows "unat v < 2 ^ k \<Longrightarrow> k \<le> n \<Longrightarrow> \<not> bit v n"
  by (metis bit_take_bit_iff not_less take_bit_small)

lemma unat_push_bit:
  fixes v :: "'a::len word"
  assumes "unat v < 2 ^ (LENGTH('a) - n)" and "n \<le> LENGTH('a)"
  shows "unat (push_bit n v) = 2 ^ n * unat v"
proof -
  have "2 ^ n * unat v < 2 ^ n * 2 ^ (LENGTH('a) - n)"
    using assms(1) by simp
  also have "\<dots> = 2 ^ LENGTH('a)"
    using assms(2) by (simp flip: power_add)
  finally show ?thesis
    by (subst unsigned_push_bit_eq)
      (simp add: push_bit_eq_mult take_bit_nat_eq_self mult.commute)
qed

lemma unat_shift_less:
  fixes v :: "'a::len word"
  shows "unat v < 2 ^ k * m \<Longrightarrow> unat (drop_bit k v) < m"
  by (subst unat_drop_bit_eq) (simp add: drop_bit_eq_div less_mult_imp_div_less mult.commute)

lemma xor_cancel:
  fixes x :: "'a::len word"
  shows "x XOR z = y XOR z \<longleftrightarrow> x = y" "z XOR x = z XOR y \<longleftrightarrow> x = y"
  by (metis xor.assoc xor.commute xor.right_neutral xor_self_eq)+

lemma unat_xor_less:
  fixes x :: "'a::len word"
  shows "unat x < 2 ^ k \<Longrightarrow> unat y < 2 ^ k \<Longrightarrow> unat (x XOR y) < 2 ^ k"
  by (simp add: take_bit_small)

lemma unat_byte_bound: "unat (b :: byte) < 256"
  using unsigned_less [of b] by simp

lemma unat_ucast_byte [simp]: "unat (ucast (b :: byte) :: u32) = unat b"
  by (simp add: unsigned_ucast_eq take_bit_nat_eq_self less_trans [OF unat_byte_bound])

lemma ucast_byte_inj [simp]: "(ucast (a :: byte) :: u32) = ucast b \<longleftrightarrow> a = b"
  by (metis unat_ucast_byte word_unat_eq_iff)

lemma unat_ucast_32_64 [simp]: "unat (ucast (w :: u32) :: u64) = unat w"
  by (simp add: unsigned_ucast_eq take_bit_nat_eq_self less_trans [OF unat_u32_bound])

lemma unat_Suc_nonzero:
  fixes i :: "'a::len word"
  assumes "i + 1 \<noteq> 0"
  shows "unat (i + 1) = Suc (unat i)"
proof -
  have "Suc (unat i) \<le> 2 ^ LENGTH('a)" using unsigned_less [of i] by (simp add: Suc_le_eq)
  moreover have "Suc (unat i) \<noteq> 2 ^ LENGTH('a)"
  proof
    assume "Suc (unat i) = 2 ^ LENGTH('a)"
    then have "(of_nat (Suc (unat i)) :: 'a word) = 0" by (simp only: of_nat_power) simp
    with assms show False by (simp add: add.commute)
  qed
  ultimately have "Suc (unat i) < 2 ^ LENGTH('a)" by simp
  then have "unat (of_nat (Suc (unat i)) :: 'a word) = Suc (unat i)"
    by (simp only: unat_of_nat mod_less)
  then show ?thesis by (simp add: add.commute)
qed

lemma less_Suc_nonzero: "(i :: 'a::len word) + 1 \<noteq> 0 \<Longrightarrow> i < i + 1"
  by (simp add: word_less_nat_alt unat_Suc_nonzero)

lemma u64_of_eq_0:
  assumes "n < 2 ^ 64"
  shows "u64_of n = 0 \<longleftrightarrow> n = 0"
proof
  assume "u64_of n = 0"
  then have "unat (u64_of n) = 0" by simp
  with assms show "n = 0" by (simp only: unat_of_nat_64)
qed simp

lemma plus_one_nonzero:
  fixes w :: "'a::len word"
  assumes "Suc (unat w) < 2 ^ LENGTH('a)"
  shows "w + 1 \<noteq> 0"
proof
  assume "w + 1 = 0"
  then have "(of_nat (Suc (unat w)) :: 'a word) = 0" by (simp add: add.commute)
  then have "unat (of_nat (Suc (unat w)) :: 'a word) = 0" by simp
  with assms show False by (simp only: unat_of_nat mod_less)
qed

end
