(* ===== verification/Status_Slice.thy ===== *)
theory Status_Slice
  imports Prelude
begin

text \<open>
  The value types of the public interface, from \<open>include/splitkv\<close>: \<open>Status\<close>
  (\<open>status.h\<close>), \<open>Slice\<close> (\<open>slice.h\<close>) and the option structs
  (\<open>options.h\<close>).
\<close>

section \<open>Status\<close>

datatype Code = kOk | kNotFound | kCorruption | kIOError | kInvalidArgument | kNotSupported

record Status =
  status_code :: Code
  status_msg :: bytes

definition Status_OK :: Status where
  "Status_OK = \<lparr>status_code = kOk, status_msg = []\<rparr>"

definition NotFound :: "bytes \<Rightarrow> Status" where
  "NotFound msg = \<lparr>status_code = kNotFound, status_msg = msg\<rparr>"

definition Corruption :: "bytes \<Rightarrow> Status" where
  "Corruption msg = \<lparr>status_code = kCorruption, status_msg = msg\<rparr>"

definition IOError :: "bytes \<Rightarrow> Status" where
  "IOError msg = \<lparr>status_code = kIOError, status_msg = msg\<rparr>"

definition InvalidArgument :: "bytes \<Rightarrow> Status" where
  "InvalidArgument msg = \<lparr>status_code = kInvalidArgument, status_msg = msg\<rparr>"

definition NotSupported :: "bytes \<Rightarrow> Status" where
  "NotSupported msg = \<lparr>status_code = kNotSupported, status_msg = msg\<rparr>"

definition ok :: "Status \<Rightarrow> bool" where
  "ok s \<longleftrightarrow> status_code s = kOk"

definition IsNotFound :: "Status \<Rightarrow> bool" where
  "IsNotFound s \<longleftrightarrow> status_code s = kNotFound"

definition IsCorruption :: "Status \<Rightarrow> bool" where
  "IsCorruption s \<longleftrightarrow> status_code s = kCorruption"

definition IsIOError :: "Status \<Rightarrow> bool" where
  "IsIOError s \<longleftrightarrow> status_code s = kIOError"

definition Status_ToString :: "Status \<Rightarrow> bytes" where
  "Status_ToString s =
     (if status_code s = kOk then str ''OK''
      else (case status_code s of
              kNotFound \<Rightarrow> str ''NotFound: ''
            | kCorruption \<Rightarrow> str ''Corruption: ''
            | kIOError \<Rightarrow> str ''IOError: ''
            | kInvalidArgument \<Rightarrow> str ''InvalidArgument: ''
            | kNotSupported \<Rightarrow> str ''NotSupported: ''
            | kOk \<Rightarrow> str ''Unknown: '') @ status_msg s)"

named_theorems status_defs "the status constructors and observers"

lemmas [status_defs] =
  Status_OK_def NotFound_def Corruption_def IOError_def InvalidArgument_def NotSupported_def
  ok_def IsNotFound_def IsCorruption_def IsIOError_def

lemma ok_simps [simp]:
  "ok Status_OK" "\<not> ok (NotFound m)" "\<not> ok (Corruption m)" "\<not> ok (IOError m)"
  "\<not> ok (InvalidArgument m)" "\<not> ok (NotSupported m)"
  by (simp_all add: status_defs)

lemma is_simps [simp]:
  "\<not> IsNotFound Status_OK" "IsNotFound (NotFound m)" "\<not> IsNotFound (Corruption m)"
  "\<not> IsNotFound (IOError m)" "\<not> IsNotFound (InvalidArgument m)"
  "\<not> IsIOError Status_OK" "\<not> IsIOError (NotFound m)" "\<not> IsIOError (Corruption m)"
  "IsIOError (IOError m)" "\<not> IsIOError (InvalidArgument m)"
  "\<not> IsCorruption Status_OK" "\<not> IsCorruption (NotFound m)" "IsCorruption (Corruption m)"
  "\<not> IsCorruption (IOError m)" "\<not> IsCorruption (InvalidArgument m)"
  by (simp_all add: status_defs)

section \<open>Slice\<close>

text \<open>
  A \<open>Slice\<close> is modelled by the bytes it refers to. \<open>memcmp\<close> of the C library
  compares bytes as unsigned; only the sign of its result is specified and only the
  sign is used.
\<close>

fun memcmp :: "bytes \<Rightarrow> bytes \<Rightarrow> nat \<Rightarrow> int" where
  "memcmp (x # xs) (y # ys) (Suc n) =
     (if x < y then -1 else if y < x then 1 else memcmp xs ys n)"
| "memcmp _ _ _ = 0"

definition Slice_compare :: "bytes \<Rightarrow> bytes \<Rightarrow> int" where
  "Slice_compare a b =
     (let min_len = (if length a < length b then length a else length b);
          r = memcmp a b min_len
      in if r = 0
         then (if length a < length b then -1 else if length b < length a then 1 else r)
         else r)"

definition starts_with :: "bytes \<Rightarrow> bytes \<Rightarrow> bool" where
  "starts_with a prefix \<longleftrightarrow>
     length prefix \<le> length a \<and> memcmp a prefix (length prefix) = 0"

text \<open>A slice of a C string ends before its first zero byte; an index is checked by an assertion.\<close>

definition Slice_of_c_str :: "bytes \<Rightarrow> bytes" where
  "Slice_of_c_str s = takeWhile (\<lambda>b. b \<noteq> 0) s"

definition Slice_empty :: "bytes \<Rightarrow> bool" where
  "Slice_empty s \<longleftrightarrow> length s = 0"

definition Slice_at :: "bytes \<Rightarrow> nat \<Rightarrow> byte option" where
  "Slice_at s n = (if n < length s then Some (s ! n) else None)"

definition Slice_eq :: "bytes \<Rightarrow> bytes \<Rightarrow> bool" where
  "Slice_eq a b \<longleftrightarrow> Slice_compare a b = 0"

definition Slice_neq :: "bytes \<Rightarrow> bytes \<Rightarrow> bool" where
  "Slice_neq a b \<longleftrightarrow> Slice_compare a b \<noteq> 0"

definition Slice_less :: "bytes \<Rightarrow> bytes \<Rightarrow> bool" where
  "Slice_less a b \<longleftrightarrow> Slice_compare a b < 0"

definition Slice_less_eq :: "bytes \<Rightarrow> bytes \<Rightarrow> bool" where
  "Slice_less_eq a b \<longleftrightarrow> Slice_compare a b \<le> 0"

definition Slice_greater :: "bytes \<Rightarrow> bytes \<Rightarrow> bool" where
  "Slice_greater a b \<longleftrightarrow> Slice_compare a b > 0"

definition Slice_greater_eq :: "bytes \<Rightarrow> bytes \<Rightarrow> bool" where
  "Slice_greater_eq a b \<longleftrightarrow> Slice_compare a b \<ge> 0"

definition remove_prefix :: "nat \<Rightarrow> bytes \<Rightarrow> bytes" where
  "remove_prefix n s = drop n s"

lemma memcmp_cases:
  "memcmp a b (min (length a) (length b)) < 0 \<longrightarrow> a < b"
  "memcmp a b (min (length a) (length b)) > 0 \<longrightarrow> b < a"
  "memcmp a b (min (length a) (length b)) = 0 \<longrightarrow>
     take (length b) a = take (length a) b"
proof (induction a arbitrary: b)
  case Nil
  { case 1 then show ?case by simp next
    case 2 then show ?case by simp next
    case 3 then show ?case by simp }
next
  case (Cons x a)
  { case 1 from Cons.IH(1) show ?case by (cases b) auto next
    case 2 from Cons.IH(2) show ?case by (cases b) auto next
    case 3 from Cons.IH(3) show ?case by (cases b) auto }
qed

lemma take_prefix_less:
  fixes a b :: "'a::order list"
  assumes "take (length b) a = take (length a) b" and "length a < length b"
  shows "a < b"
proof -
  from assms have "a = take (length a) b" by simp
  then have "b = a @ drop (length a) b" by (metis append_take_drop_id)
  moreover from assms(2) have "drop (length a) b \<noteq> []" by simp
  ultimately show ?thesis
    by (metis (mono_tags, lifting) list_less_def lexord_append_rightI neq_Nil_conv)
qed

lemma Slice_compare_sign:
  "Slice_compare a b < 0 \<longleftrightarrow> a < b"
  "Slice_compare a b = 0 \<longleftrightarrow> a = b"
  "Slice_compare a b > 0 \<longleftrightarrow> b < a"
proof -
  let ?m = "memcmp a b (min (length a) (length b))"
  have eq: "Slice_compare a b =
      (if ?m = 0 then (if length a < length b then -1 else if length b < length a then 1 else 0)
       else ?m)"
    by (simp add: Slice_compare_def Let_def min_def)
  have tk: "?m = 0 \<Longrightarrow> take (length b) a = take (length a) b"
    using memcmp_cases(3) by blast
  have lt: "Slice_compare a b < 0 \<Longrightarrow> a < b"
    using memcmp_cases(1) [of a b] tk take_prefix_less [of b a]
    by (auto simp: eq split: if_splits)
  have gt: "Slice_compare a b > 0 \<Longrightarrow> b < a"
    using memcmp_cases(2) [of a b] tk take_prefix_less [of a b]
    by (auto simp: eq split: if_splits)
  have eq0: "Slice_compare a b = 0 \<Longrightarrow> a = b"
    using tk by (auto simp: eq split: if_splits)
  show "Slice_compare a b < 0 \<longleftrightarrow> a < b" "Slice_compare a b = 0 \<longleftrightarrow> a = b"
    "Slice_compare a b > 0 \<longleftrightarrow> b < a"
    using lt gt eq0 by (metis less_asym' linorder_neqE less_irrefl)+
qed

text \<open>The relational operators are those of the linear order on byte strings.\<close>

lemma Slice_operators:
  "Slice_eq a b \<longleftrightarrow> a = b" "Slice_neq a b \<longleftrightarrow> a \<noteq> b" "Slice_less a b \<longleftrightarrow> a < b" "Slice_less_eq a b \<longleftrightarrow> a \<le> b"
  "Slice_greater a b \<longleftrightarrow> b < a" "Slice_greater_eq a b \<longleftrightarrow> b \<le> a"
  using Slice_compare_sign [of a b]
  by (auto simp: Slice_eq_def Slice_neq_def Slice_less_def Slice_less_eq_def Slice_greater_def Slice_greater_eq_def
      le_less not_less)

lemma memcmp_prefix: "memcmp (p @ r) p (length p) = 0"
  by (induction p) auto

lemma memcmp_zero_take:
  "n \<le> length a \<Longrightarrow> n \<le> length b \<Longrightarrow> memcmp a b n = 0 \<Longrightarrow> take n a = take n b"
  by (induction a b n rule: memcmp.induct) (auto split: if_splits)

lemma starts_with_iff: "starts_with a p \<longleftrightarrow> (\<exists>r. a = p @ r)"
proof
  assume "starts_with a p"
  then have "length p \<le> length a" "memcmp a p (length p) = 0"
    by (auto simp: starts_with_def)
  then have "take (length p) a = p"
    using memcmp_zero_take [of "length p" a p] by simp
  then show "\<exists>r. a = p @ r" by (metis append_take_drop_id)
qed (auto simp: starts_with_def memcmp_prefix)

section \<open>Options\<close>

text \<open>
  \<open>vlog_gc_threshold\<close> is a \<open>double\<close>; the only use of it is the comparison
  \<open>1.0 - (double)live / total >= vlog_gc_threshold\<close> in \<open>DBImpl::RunGC\<close>. The record
  holds that comparison as a predicate of the live and the total bytes, so that the
  theorems hold for every outcome of the floating-point arithmetic.
\<close>

record Options =
  memtable_size_limit :: nat
  bloom_bits_per_key :: nat
  max_sstable_levels :: nat
  gc_worthwhile :: "u64 \<Rightarrow> u64 \<Rightarrow> bool"
  compaction_threads :: nat
  value_inline_threshold :: nat
  sync_writes :: bool
  vlog_file_size_limit :: nat
  block_size :: nat
  sparse_index_interval :: nat
  max_memtable_count :: nat

definition default_Options :: "(u64 \<Rightarrow> u64 \<Rightarrow> bool) \<Rightarrow> Options" where
  "default_Options gc =
     \<lparr>memtable_size_limit = 4 * 1024 * 1024, bloom_bits_per_key = 10, max_sstable_levels = 7,
      gc_worthwhile = gc, compaction_threads = 2, value_inline_threshold = 256,
      sync_writes = False, vlog_file_size_limit = 256 * 1024 * 1024, block_size = 4096,
      sparse_index_interval = 16, max_memtable_count = 2\<rparr>"

record ReadOptions =
  verify_checksums :: bool

record WriteOptions =
  sync :: bool

section \<open>Properties\<close>

text \<open>
  C37: \<open>Slice::compare\<close> is the lexicographic order on bytes: its sign is negative, zero or
  positive exactly when the first slice is below, equal to or above the second, the relational
  operators are those of that order, and \<open>starts_with\<close> holds exactly for the prefixes.
\<close>
theorem slice_order:
  "(Slice_compare a b < 0 \<longleftrightarrow> a < b) \<and> (Slice_compare a b = 0 \<longleftrightarrow> a = b) \<and>
   (Slice_compare a b > 0 \<longleftrightarrow> b < a) \<and>
   (Slice_eq a b \<longleftrightarrow> a = b) \<and> (Slice_neq a b \<longleftrightarrow> a \<noteq> b) \<and> (Slice_less a b \<longleftrightarrow> a < b) \<and>
   (Slice_less_eq a b \<longleftrightarrow> a \<le> b) \<and> (Slice_greater a b \<longleftrightarrow> b < a) \<and> (Slice_greater_eq a b \<longleftrightarrow> b \<le> a) \<and>
   (starts_with a p \<longleftrightarrow> (\<exists>r. a = p @ r))"
  by (simp add: Slice_compare_sign Slice_operators starts_with_iff)

end
