(* ===== verification/Coding.thy ===== *)
theory Coding
  imports Status_Slice
begin

text \<open>
  The integer encodings of \<open>coding.h\<close>/\<open>coding.cpp\<close>: little-endian fixed-width
  integers, varints and length-prefixed slices.

  An encoder that writes to a buffer returns the bytes it writes; an encoder that appends
  to a string takes and returns the string. A decoder that takes a pointer gets the bytes
  from that pointer to the end of the buffer; the pointer a varint decoder returns is the
  rest of the bytes, \<open>None\<close> is \<open>nullptr\<close>. Bytes past the end of a buffer, which
  the fixed-width decoders would read from a short one, are unspecified.
\<close>

section \<open>Definitions\<close>

definition EncodeFixed32 :: "u32 \<Rightarrow> bytes" where
  "EncodeFixed32 value =
     [ucast value, ucast (drop_bit 8 value), ucast (drop_bit 16 value), ucast (drop_bit 24 value)]"

definition EncodeFixed64 :: "u64 \<Rightarrow> bytes" where
  "EncodeFixed64 value =
     [ucast value, ucast (drop_bit 8 value), ucast (drop_bit 16 value), ucast (drop_bit 24 value),
      ucast (drop_bit 32 value), ucast (drop_bit 40 value), ucast (drop_bit 48 value),
      ucast (drop_bit 56 value)]"

definition DecodeFixed32 :: "bytes \<Rightarrow> u32" where
  "DecodeFixed32 p =
     ucast (p ! 0) OR push_bit 8 (ucast (p ! 1)) OR push_bit 16 (ucast (p ! 2))
       OR push_bit 24 (ucast (p ! 3))"

definition DecodeFixed64 :: "bytes \<Rightarrow> u64" where
  "DecodeFixed64 p =
     ucast (p ! 0) OR push_bit 8 (ucast (p ! 1)) OR push_bit 16 (ucast (p ! 2))
       OR push_bit 24 (ucast (p ! 3)) OR push_bit 32 (ucast (p ! 4)) OR push_bit 40 (ucast (p ! 5))
       OR push_bit 48 (ucast (p ! 6)) OR push_bit 56 (ucast (p ! 7))"

text \<open>
  \<open>EncodeVarint32\<close> and \<open>EncodeVarint64\<close> have the same body at two widths, and
  their decoders differ in the last shift the loop admits (28 and 63).
\<close>

lemma drop_bit_7_less:
  fixes v :: "'a::len word"
  assumes "8 \<le> LENGTH('a)" and "0x80 \<le> v"
  shows "unat (drop_bit 7 v) < unat v"
proof -
  have "(2::nat) ^ 8 \<le> 2 ^ LENGTH('a)"
    using assms(1) by (rule power_increasing) simp
  then have "128 mod 2 ^ LENGTH('a) = (128::nat)" by simp
  then have u: "unat (0x80 :: 'a word) = 128"
    by (simp add: unat_of_nat unsigned_numeral take_bit_eq_mod)
  with assms(2) have "128 \<le> unat v" by (simp add: word_le_nat_alt)
  with u show ?thesis by (simp add: drop_bit_eq_div unat_div)
qed

function EncodeVarint :: "'a::len word \<Rightarrow> bytes" where
  "EncodeVarint v =
     (if 8 \<le> LENGTH('a) \<and> 0x80 \<le> v then ucast (v OR 0x80) # EncodeVarint (drop_bit 7 v)
      else [ucast v])"
  by pat_completeness auto
termination
  by (relation "measure unat") (auto simp: drop_bit_7_less)

declare EncodeVarint.simps [simp del]

definition EncodeVarint32 :: "u32 \<Rightarrow> bytes" where
  "EncodeVarint32 v = EncodeVarint v"

definition EncodeVarint64 :: "u64 \<Rightarrow> bytes" where
  "EncodeVarint64 v = EncodeVarint v"

fun DecodeVarint_loop :: "nat \<Rightarrow> bytes \<Rightarrow> nat \<Rightarrow> 'a::len word \<Rightarrow> ('a word \<times> bytes) option" where
  "DecodeVarint_loop max_shift [] shift result = None"
| "DecodeVarint_loop max_shift (b # p) shift result =
     (if shift \<le> max_shift
      then (let result = result OR push_bit shift (ucast b AND 0x7F)
            in if (ucast b :: 'a word) AND 0x80 = 0 then Some (result, p)
               else DecodeVarint_loop max_shift p (shift + 7) result)
      else None)"

definition DecodeVarint :: "nat \<Rightarrow> bytes \<Rightarrow> ('a::len word \<times> bytes) option" where
  "DecodeVarint max_shift p =
     (case p of
        [] \<Rightarrow> None
      | b # q \<Rightarrow>
          (let result = (ucast b :: 'a word)
           in if result AND 0x80 = 0 then Some (result, q)
              else DecodeVarint_loop max_shift p 0 0))"

definition DecodeVarint32 :: "bytes \<Rightarrow> (u32 \<times> bytes) option" where
  "DecodeVarint32 p = DecodeVarint 28 p"

definition DecodeVarint64 :: "bytes \<Rightarrow> (u64 \<times> bytes) option" where
  "DecodeVarint64 p = DecodeVarint 63 p"

definition PutFixed32 :: "bytes \<Rightarrow> u32 \<Rightarrow> bytes" where
  "PutFixed32 dst value = dst @ EncodeFixed32 value"

definition PutFixed64 :: "bytes \<Rightarrow> u64 \<Rightarrow> bytes" where
  "PutFixed64 dst value = dst @ EncodeFixed64 value"

definition PutVarint32 :: "bytes \<Rightarrow> u32 \<Rightarrow> bytes" where
  "PutVarint32 dst v = dst @ EncodeVarint32 v"

definition PutVarint64 :: "bytes \<Rightarrow> u64 \<Rightarrow> bytes" where
  "PutVarint64 dst v = dst @ EncodeVarint64 v"

definition GetVarint32 :: "bytes \<Rightarrow> u32 option \<times> bytes" where
  "GetVarint32 input =
     (case DecodeVarint32 input of None \<Rightarrow> (None, input) | Some (v, q) \<Rightarrow> (Some v, q))"

definition GetVarint64 :: "bytes \<Rightarrow> u64 option \<times> bytes" where
  "GetVarint64 input =
     (case DecodeVarint64 input of None \<Rightarrow> (None, input) | Some (v, q) \<Rightarrow> (Some v, q))"

definition PutLengthPrefixedSlice :: "bytes \<Rightarrow> bytes \<Rightarrow> bytes" where
  "PutLengthPrefixedSlice dst value = PutVarint32 dst (u32_of (length value)) @ value"

text \<open>
  The consumers return the result (\<open>None\<close> when they return false) and the slice they
  leave in \<open>*input\<close>. A length that exceeds the rest of the input is reported after the
  varint has been consumed.
\<close>

definition GetLengthPrefixedSlice :: "bytes \<Rightarrow> bytes option \<times> bytes" where
  "GetLengthPrefixedSlice input =
     (case GetVarint32 input of
        (None, rest) \<Rightarrow> (None, rest)
      | (Some len, rest) \<Rightarrow>
          if length rest < unat len then (None, rest)
          else (Some (take (unat len) rest), remove_prefix (unat len) rest))"

section \<open>Fixed-width integers\<close>

lemma length_EncodeFixed [simp, length_simps]:
  "length (EncodeFixed32 v) = 4" "length (EncodeFixed64 w) = 8"
  by (simp_all add: EncodeFixed32_def EncodeFixed64_def)

lemma le_byte_step:
  fixes v :: "'a::len word"
  shows "take_bit n v OR push_bit n (take_bit k (drop_bit n v)) = take_bit (n + k) v"
    and "take_bit n v OR (push_bit n (take_bit k (drop_bit n v)) OR x) = take_bit (n + k) v OR x"
proof -
  show *: "take_bit n v OR push_bit n (take_bit k (drop_bit n v)) = take_bit (n + k) v"
  proof (rule bit_word_eqI)
    fix m assume "m < LENGTH('a)"
    then show "bit (take_bit n v OR push_bit n (take_bit k (drop_bit n v))) m
        = bit (take_bit (n + k) v) m"
      by (cases "m < n"; cases "bit v m"; simp add: bit_simps; arith)
  qed
  show "take_bit n v OR (push_bit n (take_bit k (drop_bit n v)) OR x) = take_bit (n + k) v OR x"
    by (simp only: * or.assoc [symmetric])
qed

lemma ucast_byte: "ucast (ucast (v :: 'a::len word) :: byte) = take_bit 8 v"
  by (rule bit_word_eqI) (auto simp: bit_simps)

lemmas le_bytes = ucast_byte le_byte_step take_bit_word_eq_self

lemma DecodeFixed32_EncodeFixed32 [simp, codec_simps]:
  "DecodeFixed32 (EncodeFixed32 v @ r) = v"
  by (simp add: DecodeFixed32_def EncodeFixed32_def le_bytes)

lemma DecodeFixed64_EncodeFixed64 [simp, codec_simps]:
  "DecodeFixed64 (EncodeFixed64 v @ r) = v"
  by (simp add: DecodeFixed64_def EncodeFixed64_def le_bytes)

lemmas DecodeFixed_whole [simp, codec_simps] =
  DecodeFixed32_EncodeFixed32 [where r = "[]", simplified]
  DecodeFixed64_EncodeFixed64 [where r = "[]", simplified]

text \<open>Only the bytes of the integer matter.\<close>

lemma DecodeFixed_take [simp]:
  "4 \<le> n \<Longrightarrow> DecodeFixed32 (take n p) = DecodeFixed32 p"
  "8 \<le> n \<Longrightarrow> DecodeFixed64 (take n p) = DecodeFixed64 p"
  by (simp_all add: DecodeFixed32_def DecodeFixed64_def)

section \<open>Varints\<close>

lemma and_7F: "8 \<le> LENGTH('a) \<Longrightarrow> (w :: 'a::len word) AND 0x7F = take_bit 7 w"
  by (simp add: take_bit_eq_mask mask_eq_exp_minus_1)

lemma and_80: "8 \<le> LENGTH('a) \<Longrightarrow> (w :: 'a::len word) AND 0x80 = 0 \<longleftrightarrow> \<not> bit w 7"
  using and_exp_eq_0_iff_not_bit [of w 7] by simp

lemma bit_80: "8 \<le> LENGTH('a) \<Longrightarrow> bit (0x80 :: 'a::len word) n \<longleftrightarrow> n = 7"
  using bit_exp_iff [of 7 n, where 'a = "'a word"] by (auto simp: possible_bit_def)

lemma varint_more:
  fixes v :: "'a::len word"
  assumes "8 \<le> LENGTH('a)"
  shows "(ucast (ucast (v OR 0x80) :: byte) :: 'a word) AND 0x7F = take_bit 7 v"
    and "(ucast (ucast (v OR 0x80) :: byte) :: 'a word) AND 0x80 \<noteq> 0"
proof -
  show "(ucast (ucast (v OR 0x80) :: byte) :: 'a word) AND 0x7F = take_bit 7 v"
    using assms by (intro bit_word_eqI) (auto simp: and_7F ucast_byte bit_simps bit_80)
  have "bit (ucast (ucast (v OR 0x80) :: byte) :: 'a word) 7"
    using assms by (simp add: ucast_byte bit_simps bit_80)
  then show "(ucast (ucast (v OR 0x80) :: byte) :: 'a word) AND 0x80 \<noteq> 0"
    using and_80 [OF assms] by blast
qed

lemma unat_80: "8 \<le> LENGTH('a) \<Longrightarrow> unat (0x80 :: 'a::len word) = 128"
proof -
  assume "8 \<le> LENGTH('a)"
  then have "(2::nat) ^ 8 \<le> 2 ^ LENGTH('a)"
    by (rule power_increasing) simp
  then show ?thesis by (simp add: unsigned_numeral take_bit_eq_mod)
qed

lemma varint_last:
  fixes v :: "'a::len word"
  assumes "8 \<le> LENGTH('a)" and "v < 0x80"
  shows "(ucast (ucast v :: byte) :: 'a word) = v" "v AND 0x80 = 0" "v AND 0x7F = v"
proof -
  have u: "unat v < 2 ^ 7" "unat v < 2 ^ 8"
    using assms(2) by (simp_all only: word_less_nat_alt unat_80 [OF assms(1)]) simp_all
  note t = u [THEN take_bit_small [THEN iffD1]]
  from t show "(ucast (ucast v :: byte) :: 'a word) = v" by (simp only: ucast_byte)
  have "\<not> bit (take_bit 7 v) 7" by (simp add: bit_simps)
  with t assms(1) show "v AND 0x80 = 0" by (simp only: and_80 simp_thms)
  from t assms(1) show "v AND 0x7F = v" by (simp only: and_7F)
qed

lemma varint_split:
  fixes v :: "'a::len word"
  shows "push_bit s (take_bit k v) OR push_bit (s + k) (drop_bit k v) = push_bit s v"
proof (rule bit_word_eqI)
  fix n assume "n < LENGTH('a)"
  then show "bit (push_bit s (take_bit k v) OR push_bit (s + k) (drop_bit k v)) n
      = bit (push_bit s v) n"
    by (cases "n < s + k"; cases "s \<le> n"; cases "bit v (n - s)"; simp add: bit_simps; arith)
qed

lemma EncodeVarint_last: "\<not> 0x80 \<le> v \<Longrightarrow> EncodeVarint v = [ucast v]"
  by (subst EncodeVarint.simps) (simp only: if_False simp_thms)

lemma EncodeVarint_more:
  fixes v :: "'a::len word"
  shows "8 \<le> LENGTH('a) \<Longrightarrow> 0x80 \<le> v \<Longrightarrow>
    EncodeVarint v = ucast (v OR 0x80) # EncodeVarint (drop_bit 7 v)"
  by (subst EncodeVarint.simps) (simp only: if_True simp_thms)

lemma DecodeVarint_loop_Encode:
  fixes v :: "'a::len word"
  assumes "8 \<le> LENGTH('a)" and "7 dvd max_shift"
  shows "7 dvd s \<Longrightarrow> s \<le> max_shift \<Longrightarrow> unat v < 2 ^ (max_shift + 7 - s) \<Longrightarrow>
    DecodeVarint_loop max_shift (EncodeVarint v @ r) s acc = Some (acc OR push_bit s v, r)"
proof (induction v arbitrary: s acc rule: EncodeVarint.induct)
  case (1 v)
  show ?case
  proof (cases "0x80 \<le> v")
    case False
    with "1.prems" assms(1) show ?thesis
      by (simp add: EncodeVarint_last varint_last not_le)
  next
    case True
    then have v: "128 \<le> unat v" by (simp only: word_le_nat_alt unat_80 [OF assms(1)])
    have lt: "s < max_shift"
    proof (rule ccontr)
      assume "\<not> s < max_shift"
      with "1.prems"(2,3) v show False by simp
    qed
    with "1.prems"(1) assms(2) have s: "s + 7 \<le> max_shift"
      by (auto elim!: dvdE)
    have "max_shift + 7 - s = 7 + (max_shift + 7 - (s + 7))"
      using lt by simp
    with "1.prems"(3) have "unat v < 2 ^ 7 * 2 ^ (max_shift + 7 - (s + 7))"
      by (simp only: power_add)
    then have "unat (drop_bit 7 v) < 2 ^ (max_shift + 7 - (s + 7))"
      by (rule unat_shift_less)
    from "1.IH" [OF _ _ s this] True "1.prems"(1) assms(1)
    have IH: "DecodeVarint_loop max_shift (EncodeVarint (drop_bit 7 v) @ r) (s + 7) acc' =
        Some (acc' OR push_bit (s + 7) (drop_bit 7 v), r)" for acc' :: "'a word"
      by simp
    have "push_bit s (take_bit 7 v) OR push_bit (s + 7) (drop_bit 7 v) = push_bit s v"
      by (rule varint_split)
    with True assms(1) "1.prems"(2) show ?thesis
      by (simp add: EncodeVarint_more varint_more Let_def IH or.assoc)
  qed
qed

lemma DecodeVarint_Encode:
  fixes v :: "'a::len word"
  assumes "8 \<le> LENGTH('a)" and "7 dvd max_shift" and "unat v < 2 ^ (max_shift + 7)"
  shows "DecodeVarint max_shift (EncodeVarint v @ r) = Some (v, r)"
proof (cases "0x80 \<le> v")
  case False
  with assms(1) show ?thesis
    by (simp add: DecodeVarint_def EncodeVarint_last varint_last not_le)
next
  case True
  then have "EncodeVarint v @ r = ucast (v OR 0x80) # EncodeVarint (drop_bit 7 v) @ r"
    using assms(1) by (simp add: EncodeVarint_more)
  then have "DecodeVarint max_shift (EncodeVarint v @ r) =
      (DecodeVarint_loop max_shift (EncodeVarint v @ r) 0 0 :: ('a word \<times> bytes) option)"
    using assms(1) by (simp add: DecodeVarint_def varint_more Let_def)
  with DecodeVarint_loop_Encode [OF assms(1,2), of 0 v r 0] assms(3) show ?thesis
    by simp
qed

text \<open>
  A varint takes one byte per seven bits: at most 5 bytes for 32 bits and 10 for 64, the
  sizes of the buffers \<open>PutVarint32\<close> and \<open>PutVarint64\<close> write to.
\<close>

lemma length_EncodeVarint_le:
  fixes v :: "'a::len word"
  assumes "8 \<le> LENGTH('a)"
  shows "unat v < 2 ^ (7 * k) \<Longrightarrow> 0 < k \<Longrightarrow> length (EncodeVarint v) \<le> k"
proof (induction k arbitrary: v)
  case 0
  then show ?case by simp
next
  case (Suc k)
  show ?case
  proof (cases "0x80 \<le> v")
    case False
    then show ?thesis by (simp add: EncodeVarint_last)
  next
    case True
    then have v: "128 \<le> unat v" by (simp only: word_le_nat_alt unat_80 [OF assms])
    with Suc.prems have k: "0 < k" by (cases k) auto
    have "unat v < 2 ^ 7 * 2 ^ (7 * k)"
      using Suc.prems(1) by (simp add: power_add)
    then have "unat (drop_bit 7 v) < 2 ^ (7 * k)"
      by (rule unat_shift_less)
    from Suc.IH [OF this k] True assms show ?thesis
      by (simp add: EncodeVarint_more)
  qed
qed

lemma EncodeVarint_nonempty [simp]: "EncodeVarint v \<noteq> []"
  by (subst EncodeVarint.simps) simp

lemma length_EncodeVarint32:
  "1 \<le> length (EncodeVarint32 v)" "length (EncodeVarint32 v) \<le> 5"
  using length_EncodeVarint_le [of v 5] unat_u32_bound [of v]
  by (simp_all add: EncodeVarint32_def Suc_le_eq)

lemma length_EncodeVarint64:
  "1 \<le> length (EncodeVarint64 v)" "length (EncodeVarint64 v) \<le> 10"
  using length_EncodeVarint_le [of v 10] unat_u64_bound [of v]
  by (simp_all add: EncodeVarint64_def Suc_le_eq)

lemma DecodeVarint32_EncodeVarint32 [simp, codec_simps]:
  "DecodeVarint32 (EncodeVarint32 v @ r) = Some (v, r)"
  using unat_u32_bound [of v]
  by (simp add: DecodeVarint32_def EncodeVarint32_def DecodeVarint_Encode)

lemma DecodeVarint64_EncodeVarint64 [simp, codec_simps]:
  "DecodeVarint64 (EncodeVarint64 v @ r) = Some (v, r)"
  using unat_u64_bound [of v]
  by (simp add: DecodeVarint64_def EncodeVarint64_def DecodeVarint_Encode)

lemmas DecodeVarint_whole [simp, codec_simps] =
  DecodeVarint32_EncodeVarint32 [where r = "[]", simplified]
  DecodeVarint64_EncodeVarint64 [where r = "[]", simplified]

text \<open>A decoder consumes at least one byte and leaves a suffix of its input.\<close>

lemma DecodeVarint_loop_suffix:
  "DecodeVarint_loop m p s acc = Some (v, q) \<Longrightarrow> \<exists>c. c \<noteq> [] \<and> p = c @ q"
proof (induction m p s acc rule: DecodeVarint_loop.induct)
  case (2 m b p s acc)
  show ?case
  proof (cases "(ucast b :: 'a word) AND 0x80 = 0")
    case True
    with 2(2) show ?thesis by (auto simp: Let_def split: if_splits)
  next
    case False
    with 2(2) have "s \<le> m"
      "DecodeVarint_loop m p (s + 7) (acc OR push_bit s (ucast b AND 0x7F)) = Some (v, q)"
      by (auto simp: Let_def split: if_splits)
    with 2(1) [OF \<open>s \<le> m\<close> refl False] obtain c where "p = c @ q" by auto
    then have "b # p = (b # c) @ q" by simp
    then show ?thesis by blast
  qed
qed simp

lemma DecodeVarint_suffix:
  "DecodeVarint m p = Some (v :: 'a::len word, q) \<Longrightarrow> \<exists>c. c \<noteq> [] \<and> p = c @ q"
  by (auto simp: DecodeVarint_def Let_def split: list.splits if_splits
      dest: DecodeVarint_loop_suffix intro: exI [where x = "[_]"])

lemma DecodeVarint32_suffix: "DecodeVarint32 p = Some (v, q) \<Longrightarrow> \<exists>c. c \<noteq> [] \<and> p = c @ q"
  by (auto simp: DecodeVarint32_def dest: DecodeVarint_suffix)

lemma DecodeVarint32_shorter: "DecodeVarint32 p = Some (v, q) \<Longrightarrow> length q < length p"
  by (auto dest!: DecodeVarint32_suffix)

section \<open>Length-prefixed slices\<close>

lemma GetLengthPrefixedSlice_Put:
  assumes "length value < 2 ^ 32"
  shows "GetLengthPrefixedSlice (PutLengthPrefixedSlice [] value @ r) = (Some value, r)"
  using assms
  by (simp add: GetLengthPrefixedSlice_def PutLengthPrefixedSlice_def PutVarint32_def
      GetVarint32_def remove_prefix_def)

section \<open>Properties\<close>

text \<open>
  C35: decoding a varint gives back the value and the bytes behind it, for every 32-bit and
  64-bit value, and the encoding fits the 5 and 10 byte buffers of \<open>PutVarint32\<close> and
  \<open>PutVarint64\<close>.
\<close>
theorem varint_roundtrip:
  "DecodeVarint32 (EncodeVarint32 v @ r) = Some (v, r) \<and> length (EncodeVarint32 v) \<le> 5 \<and>
   DecodeVarint64 (EncodeVarint64 w @ r) = Some (w, r) \<and> length (EncodeVarint64 w) \<le> 10"
  by (simp add: length_EncodeVarint32 length_EncodeVarint64)

text \<open>
  C36: a length-prefixed slice is read back with the rest of the input, as long as its length
  fits the 32-bit prefix.
\<close>
theorem length_prefixed_roundtrip:
  assumes "length value < 2 ^ 32"
  shows "GetLengthPrefixedSlice (PutLengthPrefixedSlice [] value @ r) = (Some value, r)"
  using assms by (rule GetLengthPrefixedSlice_Put)

theorem length_prefixed_roundtrip_witness:
  "GetLengthPrefixedSlice (PutLengthPrefixedSlice [] [1, 2, 3] @ [9]) = (Some [1, 2, 3], [9])"
  by (rule length_prefixed_roundtrip) simp

end
