(* ===== verification/Mem_Table.thy ===== *)
theory Mem_Table
  imports Avl_Tree Coding
begin

text \<open>
  The memtable of \<open>memtable.h\<close>/\<open>memtable.cpp\<close>: value-log pointers and their
  16-byte encoding, internal entries, and the table over the AVL tree with its running
  account of memory.

  Each public operation holds the table's mutex from its first access to its last, so it
  is one atomic function of the table. \<open>enum class ValueType : uint8_t\<close> can hold every
  byte (\<open>WAL::Recover\<close> casts an unchecked byte to it), so it is a byte with two named
  values.
\<close>

section \<open>Definitions\<close>

record VLogPointer =
  ptr_file_id :: u32
  ptr_offset :: u64
  ptr_value_size :: u32

definition VLogPointer_Encode :: "VLogPointer \<Rightarrow> bytes" where
  "VLogPointer_Encode p =
     PutFixed32 (PutFixed64 (PutFixed32 [] (ptr_file_id p)) (ptr_offset p)) (ptr_value_size p)"

definition VLogPointer_Decode :: "bytes \<Rightarrow> VLogPointer" where
  "VLogPointer_Decode data =
     \<lparr>ptr_file_id = DecodeFixed32 data,
      ptr_offset = DecodeFixed64 (drop 4 data),
      ptr_value_size = DecodeFixed32 (drop 12 data)\<rparr>"

definition null_ptr :: VLogPointer where
  "null_ptr = \<lparr>ptr_file_id = 0, ptr_offset = 0, ptr_value_size = 0\<rparr>"

type_synonym ValueType = byte

definition kValue :: ValueType where "kValue = 0x01"
definition kDeletion :: ValueType where "kDeletion = 0x02"

record InternalEntry =
  vlog_ptr :: VLogPointer
  entry_seq :: u64
  entry_type :: ValueType

record MemTable =
  mt_tree :: "(bytes, InternalEntry) AVLTree"
  mt_size_limit :: nat
  mt_memory_usage :: u64

definition MemTable_new :: "nat \<Rightarrow> MemTable" where
  "MemTable_new size_limit =
     \<lparr>mt_tree = AVLTree_new, mt_size_limit = size_limit, mt_memory_usage = 0\<rparr>"

text \<open>
  \<open>sizeof(InternalEntry)\<close> under the 64-bit ABI: a pointer struct of 24 bytes (4, 4
  padding, 8, 4, 4 padding), the sequence number and one byte padded to eight.
\<close>

definition sizeof_InternalEntry :: nat where
  "sizeof_InternalEntry = 40"

definition kNodeOverhead :: nat where
  "kNodeOverhead = 48"

definition entry_mem :: "bytes \<Rightarrow> nat" where
  "entry_mem key = length key + sizeof_InternalEntry + kNodeOverhead"

text \<open>The critical section that \<open>Put\<close> and \<open>Delete\<close> share.\<close>

definition mem_insert :: "MemTable \<Rightarrow> bytes \<Rightarrow> InternalEntry \<Rightarrow> MemTable" where
  "mem_insert mt key entry =
     (let already_exists = (Find (mt_tree mt) key \<noteq> None);
          tree = Insert key entry (mt_tree mt)
      in mt\<lparr>mt_tree := tree,
            mt_memory_usage :=
              (if \<not> already_exists then mt_memory_usage mt + u64_of (entry_mem key)
               else mt_memory_usage mt)\<rparr>)"

definition MemTable_Put :: "MemTable \<Rightarrow> bytes \<Rightarrow> VLogPointer \<Rightarrow> u64 \<Rightarrow> Status \<times> MemTable" where
  "MemTable_Put mt key ptr seq =
     (Status_OK, mem_insert mt key \<lparr>vlog_ptr = ptr, entry_seq = seq, entry_type = kValue\<rparr>)"

definition MemTable_Delete :: "MemTable \<Rightarrow> bytes \<Rightarrow> u64 \<Rightarrow> Status \<times> MemTable" where
  "MemTable_Delete mt key seq =
     (Status_OK, mem_insert mt key \<lparr>vlog_ptr = null_ptr, entry_seq = seq, entry_type = kDeletion\<rparr>)"

definition MemTable_Get :: "MemTable \<Rightarrow> bytes \<Rightarrow> Status \<times> InternalEntry option" where
  "MemTable_Get mt key =
     (case Find (mt_tree mt) key of
        Some found \<Rightarrow> (Status_OK, Some found)
      | None \<Rightarrow> (NotFound (str ''key not found in memtable''), None))"

definition ShouldFlush :: "MemTable \<Rightarrow> bool" where
  "ShouldFlush mt \<longleftrightarrow> mt_size_limit mt \<le> unat (mt_memory_usage mt)"

definition ApproximateMemoryUsage :: "MemTable \<Rightarrow> u64" where
  "ApproximateMemoryUsage mt = mt_memory_usage mt"

definition MemTable_Count :: "MemTable \<Rightarrow> nat" where
  "MemTable_Count mt = Size (mt_tree mt)"

definition GetSortedEntries :: "MemTable \<Rightarrow> (bytes \<times> InternalEntry) list" where
  "GetSortedEntries mt = iter_collect (iter_begin (mt_tree mt))"

section \<open>Value-log pointers\<close>

lemma length_VLogPointer_Encode [simp, length_simps]: "length (VLogPointer_Encode p) = 16"
  by (simp add: VLogPointer_Encode_def PutFixed32_def PutFixed64_def)

lemma VLogPointer_Decode_Encode [simp, codec_simps]:
  "VLogPointer_Decode (VLogPointer_Encode p @ r) = p"
  by (simp add: VLogPointer_Decode_def VLogPointer_Encode_def PutFixed32_def PutFixed64_def)

lemma types_distinct [simp]: "kValue \<noteq> kDeletion" "kDeletion \<noteq> kValue"
  by (simp_all add: kValue_def kDeletion_def)

section \<open>The table as a map\<close>

text \<open>
  The state a memtable stands for: a finite map from keys to entries. \<open>mt_invar\<close> is the
  class invariant: a well-formed tree and a memory account that is exact modulo
  \<open>2 ^ 64\<close>.
\<close>

definition mt_map :: "MemTable \<Rightarrow> bytes \<rightharpoonup> InternalEntry" where
  "mt_map mt = Find (mt_tree mt)"

definition mt_invar :: "MemTable \<Rightarrow> bool" where
  "mt_invar mt \<longleftrightarrow>
     avl_invar (mt_tree mt) \<and>
     mt_memory_usage mt = u64_of (\<Sum>k \<in> dom (mt_map mt). entry_mem k)"

lemma mt_map_entries: "mt_invar mt \<Longrightarrow> mt_map mt = map_of (GetSortedEntries mt)"
  by (auto simp: mt_invar_def mt_map_def GetSortedEntries_def avl_map.find_entries)

lemma finite_mt_map: "mt_invar mt \<Longrightarrow> finite (dom (mt_map mt))"
  by (simp add: mt_map_entries finite_dom_map_of)

lemma GetSortedEntries_sorted: "mt_invar mt \<Longrightarrow> sorted_wrt (<) (map fst (GetSortedEntries mt))"
  by (simp add: mt_invar_def GetSortedEntries_def avl_map.entries_sorted)

lemma mt_new [simp]:
  "mt_invar (MemTable_new n)" "mt_map (MemTable_new n) = Map.empty"
  "mt_size_limit (MemTable_new n) = n"
proof -
  show map: "mt_map (MemTable_new n) = Map.empty"
    by (auto simp: mt_map_def MemTable_new_def avl_map.find_empty)
  show "mt_invar (MemTable_new n)"
    using map by (simp add: mt_invar_def MemTable_new_def avl_map.invar_empty)
  show "mt_size_limit (MemTable_new n) = n" by (simp add: MemTable_new_def)
qed

lemma mt_map_mem_insert: "mt_invar mt \<Longrightarrow> mt_map (mem_insert mt k e) = (mt_map mt)(k \<mapsto> e)"
  by (auto simp: mt_invar_def mt_map_def mem_insert_def Let_def avl_map.find_insert)

lemma mt_invar_mem_insert: "mt_invar mt \<Longrightarrow> mt_invar (mem_insert mt k e)"
proof -
  assume inv: "mt_invar mt"
  let ?D = "dom (mt_map mt)"
  have sum: "(\<Sum>x \<in> insert k ?D. entry_mem x) =
      (\<Sum>x \<in> ?D. entry_mem x) + (if k \<in> ?D then 0 else entry_mem k)"
    using finite_mt_map [OF inv] by (simp add: insert_absorb)
  have "mt_memory_usage (mem_insert mt k e) =
      mt_memory_usage mt + u64_of (if k \<in> ?D then 0 else entry_mem k)"
    by (auto simp: mem_insert_def Let_def mt_map_def)
  also have "\<dots> = u64_of (\<Sum>x \<in> insert k ?D. entry_mem x)"
    unfolding sum of_nat_add using inv by (simp add: mt_invar_def)
  also have "insert k ?D = dom (mt_map (mem_insert mt k e))"
    using inv by (simp add: mt_map_mem_insert)
  finally show ?thesis
    using inv by (simp add: mt_invar_def mem_insert_def Let_def avl_map.invar_insert)
qed

lemma mt_size_limit_mem_insert [simp]: "mt_size_limit (mem_insert mt k e) = mt_size_limit mt"
  by (simp add: mem_insert_def Let_def)

lemma Count_entries: "mt_invar mt \<Longrightarrow> MemTable_Count mt = length (GetSortedEntries mt)"
  by (simp add: MemTable_Count_def mt_invar_def Size_entries GetSortedEntries_def)

lemma Count_zero_iff: "mt_invar mt \<Longrightarrow> MemTable_Count mt = 0 \<longleftrightarrow> mt_map mt = Map.empty"
  by (simp add: Count_entries mt_map_entries)

section \<open>Properties\<close>



end
