(* ===== verification/Crc32.thy ===== *)
theory Crc32
  imports Prelude
begin

text \<open>
  The checksum of \<open>crc32.h\<close>/\<open>crc32.cpp\<close>: CRC32C over a lookup table. The
  table-driven update is shown equal to eight single-bit steps of the reflected
  Castagnoli polynomial, the checksum to be incremental, and to detect every change of at
  most four adjacent bytes, which is what the write-ahead log and the value log rely on
  when they check a record.
\<close>

section \<open>Definitions\<close>

definition kPolynomial :: u32 where
  "kPolynomial = 0x82F63B78"

text \<open>The body of the inner loop of the table constructor, and the table.\<close>

definition crc_bit :: "u32 \<Rightarrow> u32" where
  "crc_bit crc = (if crc AND 1 \<noteq> 0 then drop_bit 1 crc XOR kPolynomial else drop_bit 1 crc)"

definition CRC32Table :: "u32 list" where
  "CRC32Table = map (\<lambda>i. (crc_bit ^^ 8) (word_of_nat i)) [0..<256]"

definition crc_step :: "u32 \<Rightarrow> byte \<Rightarrow> u32" where
  "crc_step crc b = CRC32Table ! unat ((crc XOR ucast b) AND 0xFF) XOR drop_bit 8 crc"

definition CRC32Extend :: "u32 \<Rightarrow> bytes \<Rightarrow> u32" where
  "CRC32Extend crc data = NOT (foldl crc_step (NOT crc) data)"

definition CRC32 :: "bytes \<Rightarrow> u32 \<Rightarrow> u32" where
  "CRC32 data crc = CRC32Extend crc data"

text \<open>The reference: one polynomial division step per bit.\<close>

definition crc_byte :: "u32 \<Rightarrow> u32" where
  "crc_byte = crc_bit ^^ 8"

definition crc_bitwise :: "bytes \<Rightarrow> u32 \<Rightarrow> u32" where
  "crc_bitwise data crc = NOT (foldl (\<lambda>c b. crc_byte (c XOR ucast b)) (NOT crc) data)"

text \<open>At most four bytes as one little-endian word.\<close>

fun le_word :: "bytes \<Rightarrow> u32" where
  "le_word [] = 0"
| "le_word (b # w) = ucast b XOR push_bit 8 (le_word w)"

section \<open>One bit\<close>

lemma crc_bit_alt: "crc_bit x = drop_bit 1 x XOR (if bit x 0 then kPolynomial else 0)"
  by (simp add: crc_bit_def bit_0 odd_iff_mod_2_eq_one and_one_eq)

lemma crc_bit_xor: "crc_bit (x XOR y) = crc_bit x XOR crc_bit y"
  by (rule bit_word_eqI) (auto simp: crc_bit_alt bit_simps)

lemma crc_bit_push:
  assumes "unat y < 2 ^ 31" and k: "k = (1::nat)"
  shows "crc_bit (push_bit k y) = y"
proof (rule bit_word_eqI)
  fix n
  assume n: "n < LENGTH(32)"
  have p: "bit (push_bit k y) m \<longleftrightarrow> 1 \<le> m \<and> m < 32 \<and> bit y (m - 1)" for m
    using k by (simp only: bit_push_bit_iff possible_bit_word) auto
  have "bit (crc_bit (push_bit k y)) n \<longleftrightarrow> n < 31 \<and> bit y n"
    by (auto simp: crc_bit_alt p bit_drop_bit_eq)
  also have "\<dots> \<longleftrightarrow> bit y n"
    using bit_above [OF assms(1), of n] by (meson not_less)
  finally show "bit (crc_bit (push_bit k y)) n = bit y n" .
qed

lemma crc_bit_top: "bit (crc_bit z) 31 = bit z 0"
proof -
  have "\<not> bit z 32" using bit_imp_le_length [of z 32] by auto
  then show ?thesis by (simp add: crc_bit_alt kPolynomial_def bit_simps)
qed

lemma crc_bit_inj: "crc_bit x = crc_bit y \<Longrightarrow> x = y"
proof -
  assume eq: "crc_bit x = crc_bit y"
  then have b0: "bit x 0 = bit y 0" by (simp only: crc_bit_top [symmetric])
  with eq have d: "drop_bit 1 x = drop_bit 1 y"
    by (simp only: crc_bit_alt xor_cancel)
  show ?thesis
  proof (rule bit_word_eqI)
    fix n
    show "bit x n = bit y n"
    proof (cases n)
      case 0
      with b0 show ?thesis by simp
    next
      case (Suc m)
      have "bit (drop_bit 1 x) m = bit (drop_bit 1 y) m" by (simp only: d)
      then show ?thesis by (simp add: Suc bit_drop_bit_eq)
    qed
  qed
qed

section \<open>One byte\<close>

lemma crc_bit_pow_xor: "(crc_bit ^^ n) (x XOR y) = (crc_bit ^^ n) x XOR (crc_bit ^^ n) y"
  by (induction n) (simp_all add: crc_bit_xor)

lemma crc_byte_xor: "crc_byte (x XOR y) = crc_byte x XOR crc_byte y"
  by (simp add: crc_byte_def crc_bit_pow_xor)

lemma crc_bit_pow_push: "n \<le> 32 \<Longrightarrow> unat y < 2 ^ (32 - n) \<Longrightarrow> (crc_bit ^^ n) (push_bit n y) = y"
proof (induction n arbitrary: y)
  case 0
  then show ?case by simp
next
  case (Suc n)
  have "(2::nat) ^ (32 - Suc n) \<le> 2 ^ 31"
    by (rule power_increasing) auto
  with Suc.prems have y: "unat y < 2 ^ 31" by linarith
  have "unat (push_bit 1 y) = 2 * unat y"
    using unat_push_bit [of y 1] y by simp
  moreover have "2 * unat y < 2 * 2 ^ (32 - Suc n)"
    using Suc.prems(2) by simp
  moreover have "2 * 2 ^ (32 - Suc n) = (2::nat) ^ (32 - n)"
    using Suc.prems(1) by (simp flip: power_Suc add: Suc_diff_Suc)
  ultimately have "unat (push_bit 1 y) < 2 ^ (32 - n)" by linarith
  from Suc.IH [OF _ this] Suc.prems(1)
  have "(crc_bit ^^ n) (push_bit n (push_bit 1 y)) = push_bit 1 y" by simp
  then have "(crc_bit ^^ n) (push_bit (Suc n) y) = push_bit 1 y"
    by (simp add: push_bit_push_bit)
  then show ?case using crc_bit_push [OF y refl] by simp
qed

lemma crc_byte_push: "unat y < 2 ^ 24 \<Longrightarrow> crc_byte (push_bit 8 y) = y"
  using crc_bit_pow_push [of 8 y] by (simp add: crc_byte_def)

lemma crc_byte_inj: "crc_byte x = crc_byte y \<longleftrightarrow> x = y"
proof -
  have "(crc_bit ^^ n) x = (crc_bit ^^ n) y \<Longrightarrow> x = y" for n
    by (induction n) (auto dest: crc_bit_inj)
  then show ?thesis by (auto simp: crc_byte_def)
qed

lemma CRC32Table_nth: "i < 256 \<Longrightarrow> CRC32Table ! i = crc_byte (word_of_nat i)"
  by (simp add: CRC32Table_def crc_byte_def del: funpow.simps)

lemma length_CRC32Table [simp]: "length CRC32Table = 256"
  by (simp add: CRC32Table_def)

lemma low_high_byte: "(x :: u32) = (x AND 0xFF) XOR push_bit 8 (drop_bit 8 x)"
proof -
  have ff: "x AND 0xFF = take_bit 8 x"
    by (simp add: take_bit_eq_mask mask_eq_exp_minus_1)
  show ?thesis
    unfolding ff by (rule bit_word_eqI) (auto simp: bit_simps not_less)
qed

text \<open>The table lookup is eight polynomial steps on the whole register.\<close>

lemma crc_step_bitwise: "crc_step crc b = crc_byte (crc XOR ucast b)"
proof -
  let ?x = "crc XOR ucast b"
  have ff: "?x AND 0xFF = take_bit 8 ?x"
    by (simp add: take_bit_eq_mask mask_eq_exp_minus_1)
  have lt: "unat (?x AND 0xFF) < 256"
    unfolding ff using take_bit_small [of "take_bit 8 ?x" 8] by simp
  have hi: "drop_bit 8 ?x = drop_bit 8 crc"
    by (rule bit_word_eqI) (auto simp: bit_simps dest: bit_imp_le_length)
  have "unat (drop_bit 8 crc) < 2 ^ 24"
    using unat_u32_bound [of crc] unat_shift_less [of crc 8 "2 ^ 24"] by simp
  then have "crc_byte (push_bit 8 (drop_bit 8 ?x)) = drop_bit 8 crc"
    by (simp only: hi crc_byte_push)
  moreover have "crc_byte ?x = crc_byte (?x AND 0xFF) XOR crc_byte (push_bit 8 (drop_bit 8 ?x))"
    by (metis crc_byte_xor low_high_byte)
  ultimately show ?thesis
    using CRC32Table_nth [OF lt] by (simp add: crc_step_def)
qed

section \<open>The whole checksum\<close>

lemma CRC32_eq_bitwise: "CRC32 data crc = crc_bitwise data crc"
proof -
  have "crc_step = (\<lambda>c b. crc_byte (c XOR ucast b))"
    by (intro ext) (rule crc_step_bitwise)
  then show ?thesis
    by (simp add: CRC32_def CRC32Extend_def crc_bitwise_def)
qed

lemma CRC32Extend_append: "CRC32Extend (CRC32Extend crc a) b = CRC32Extend crc (a @ b)"
  by (simp add: CRC32Extend_def)

lemma le_word_bound: "length w \<le> n \<Longrightarrow> n \<le> 4 \<Longrightarrow> unat (le_word w) < 2 ^ (8 * n)"
proof (induction w arbitrary: n)
  case Nil
  then show ?case by simp
next
  case (Cons b w)
  then obtain m where n: "n = Suc m" and m: "length w \<le> m" "m \<le> 4" "8 * m \<le> 24"
    by (cases n) auto
  from Cons.IH [OF m(1,2)] have w: "unat (le_word w) < 2 ^ (8 * m)" .
  have "(2::nat) ^ (8 * m) \<le> 2 ^ 24" using m(3) by (rule power_increasing) simp
  with w have "unat (push_bit 8 (le_word w)) = 2 ^ 8 * unat (le_word w)"
    by (intro unat_push_bit) auto
  with w have "unat (push_bit 8 (le_word w)) < 2 ^ (8 * n)"
    by (simp add: n power_add)
  moreover have "unat (ucast b :: u32) < 2 ^ (8 * n)"
  proof -
    have "unat (ucast b :: u32) < 2 ^ 8"
      using unsigned_less [of b] by simp
    also have "(2::nat) ^ 8 \<le> 2 ^ (8 * n)" unfolding n by (rule power_increasing) auto
    finally show ?thesis .
  qed
  ultimately show ?case by (simp add: unat_xor_less)
qed

lemma crc_fold_le_word:
  "length w \<le> 4 \<Longrightarrow>
   foldl crc_step s w = (crc_byte ^^ length w) (s XOR le_word w)"
proof (induction w arbitrary: s)
  case Nil
  then show ?case by simp
next
  case (Cons b w)
  have "unat (le_word w) < 2 ^ 24"
    using le_word_bound [of w 3] Cons.prems by simp
  then have "le_word w = crc_byte (push_bit 8 (le_word w))"
    by (simp only: crc_byte_push)
  then have "crc_byte (s XOR ucast b) XOR le_word w =
      crc_byte (s XOR ucast b) XOR crc_byte (push_bit 8 (le_word w))"
    by (rule arg_cong)
  also have "\<dots> = crc_byte (s XOR le_word (b # w))"
    by (simp only: le_word.simps crc_byte_xor [symmetric] xor.assoc)
  finally have "crc_byte (s XOR ucast b) XOR le_word w = crc_byte (s XOR le_word (b # w))" .
  moreover have "foldl crc_step s (b # w) =
      (crc_byte ^^ length w) (crc_byte (s XOR ucast b) XOR le_word w)"
    using Cons.IH [of "crc_step s b"] Cons.prems by (simp add: crc_step_bitwise [of s b])
  ultimately show ?case by (simp add: funpow_swap1 del: le_word.simps)
qed

lemma le_word_Cons_parts:
  "take_bit 8 (le_word (c # u)) = ucast c"
  "length u \<le> 3 \<Longrightarrow> drop_bit 8 (le_word (c # u)) = le_word u"
proof -
  have c: "\<not> bit c n" if "8 \<le> n" for n
    using that bit_imp_le_length [of c n] by auto
  show "take_bit 8 (le_word (c # u)) = ucast c"
    by (rule bit_word_eqI) (auto simp: bit_simps c not_less intro: ccontr)
  assume "length u \<le> 3"
  then have "unat (le_word u) < 2 ^ 24" using le_word_bound [of u 3] by simp
  then have u: "n < 24" if "bit (le_word u) n" for n
    using that bit_above not_less by blast
  show "drop_bit 8 (le_word (c # u)) = le_word u"
    by (rule bit_word_eqI) (auto simp: bit_simps c intro: ccontr dest: u)
qed

lemma le_word_inj: "length v = length w \<Longrightarrow> length w \<le> 4 \<Longrightarrow> le_word v = le_word w \<Longrightarrow> v = w"
proof (induction v w rule: list_induct2)
  case Nil
  then show ?case by simp
next
  case (Cons a v b w)
  from Cons.prems(2) have "(ucast a :: u32) = ucast b" by (metis le_word_Cons_parts(1))
  moreover have "length v \<le> 3" "length w \<le> 3" using Cons by auto
  then have "le_word v = le_word w"
    using Cons.prems(2) by (metis le_word_Cons_parts(2))
  ultimately show ?case using Cons by simp
qed

text \<open>Changing at most four adjacent bytes of a message always changes its checksum.\<close>

lemma CRC32_burst:
  assumes "length v = length w" and "length w \<le> 4"
    and "CRC32 (a @ v @ b) c = CRC32 (a @ w @ b) c"
  shows "v = w"
proof -
  let ?s = "foldl crc_step (NOT c) a"
  have inj: "foldl crc_step x b = foldl crc_step y b \<Longrightarrow> x = y" for x y b
  proof (induction b arbitrary: x y)
    case (Cons z b)
    then have "crc_step x z = crc_step y z" by simp
    then show ?case by (simp add: crc_step_bitwise crc_byte_inj xor_cancel)
  qed simp
  have "foldl crc_step (foldl crc_step ?s v) b = foldl crc_step (foldl crc_step ?s w) b"
    using assms(3) by (simp add: CRC32_def CRC32Extend_def)
  then have "foldl crc_step ?s v = foldl crc_step ?s w" by (rule inj)
  then have "(crc_byte ^^ length w) (?s XOR le_word v) = (crc_byte ^^ length w) (?s XOR le_word w)"
    using assms(1,2) by (simp add: crc_fold_le_word)
  moreover have "(crc_byte ^^ n) x = (crc_byte ^^ n) y \<Longrightarrow> x = y" for n x y
    by (induction n) (auto simp: crc_byte_inj)
  ultimately have "?s XOR le_word v = ?s XOR le_word w" by blast
  then have "le_word v = le_word w" by (simp only: xor_cancel)
  with assms(1,2) show ?thesis by (rule le_word_inj)
qed

section \<open>Properties\<close>

text \<open>
  C28: the table-driven checksum is the bit-by-bit CRC-32C, and a checksum can be computed in
  pieces with \<open>CRC32Extend\<close>.
\<close>
theorem crc_table_correct:
  "CRC32 data crc = crc_bitwise data crc \<and>
   CRC32Extend (CRC32Extend crc a) b = CRC32Extend crc (a @ b)"
  by (simp add: CRC32_eq_bitwise CRC32Extend_append)

text \<open>
  C30: two messages that differ only within four consecutive bytes have different checksums,
  so a record whose damage is confined to such a burst is rejected.
\<close>
theorem crc_detects_burst:
  assumes "length v = length w" and "length w \<le> 4" and "v \<noteq> w"
  shows "CRC32 (a @ v @ b) c \<noteq> CRC32 (a @ w @ b) c"
  using assms CRC32_burst by blast

theorem crc_detects_burst_witness:
  "CRC32 ([1] @ [2, 3] @ [4]) 0 \<noteq> CRC32 ([1] @ [2, 7] @ [4]) 0"
  by (rule crc_detects_burst) simp_all

end
