(* ===== verification/File_Util.thy ===== *)
theory File_Util
  imports Status_Slice
begin

text \<open>
  The file layer of \<open>file_util.h\<close>/\<open>file_util.cpp\<close> (its POSIX branch) over a model
  of the C library and the operating system.

  A file system maps paths to contents and records how many bytes of a file are known to
  be on the medium (\<open>fsync\<close>). A \<open>FILE*\<close> open for writing is its path and the bytes
  still in the user-space buffer, which \<open>fflush\<close> hands to the operating system; a
  \<open>FILE*\<close> open for reading is its path and a position. A handle names its path: the
  program never renames a file it holds open and drops the readers of a file before it
  removes it, so the difference to an inode is not observable. Every file has one writer,
  so writing at the position of a \<open>"wb"\<close> stream and at the end of an \<open>"ab"\<close>
  stream are both appending.

  The environment decides which calls fail: \<open>fs_fault\<close> gives for a call the number
  of bytes transferred before it fails and the text of \<open>strerror(errno)\<close>, or
  \<open>None\<close> for a call that succeeds. The operations never change it, so the theorems
  hold for every behaviour of the environment, and \<open>reliable\<close> states that nothing
  fails.
\<close>

section \<open>Files, streams and faults\<close>

type_synonym path = bytes

datatype syscall =
    SysOpenWrite path | SysOpenRead path
  | SysWrite path nat | SysFlush path nat | SysSync path nat | SysClose path nat
  | SysSeek path nat | SysRead path nat nat
  | SysAccess path | SysStat path | SysRemove path | SysMkdir path
  | SysRename path path | SysReaddir path

record fs =
  fs_files :: "(path \<times> bytes) list"
  fs_synced :: "path \<Rightarrow> nat"
  fs_fault :: "syscall \<Rightarrow> (nat \<times> bytes) option"

definition content :: "fs \<Rightarrow> path \<Rightarrow> bytes option" where
  "content fs p = map_of (fs_files fs) p"

definition set_content :: "path \<Rightarrow> bytes \<Rightarrow> fs \<Rightarrow> fs" where
  "set_content p c fs = fs\<lparr>fs_files := AList.update p c (fs_files fs)\<rparr>"

definition del_content :: "path \<Rightarrow> fs \<Rightarrow> fs" where
  "del_content p fs = fs\<lparr>fs_files := AList.delete p (fs_files fs)\<rparr>"

definition file_bytes :: "fs \<Rightarrow> path \<Rightarrow> bytes" where
  "file_bytes fs p = (case content fs p of None \<Rightarrow> [] | Some c \<Rightarrow> c)"

record FILE =
  file_path :: path
  file_buf :: bytes

definition IOErrorFromErrno :: "bytes \<Rightarrow> bytes \<Rightarrow> Status" where
  "IOErrorFromErrno ctxt err = IOError (ctxt @ str '': '' @ err)"

definition ENOENT_text :: bytes where
  "ENOENT_text = str ''No such file or directory''"

section \<open>SequentialFileWriter\<close>

record SequentialFileWriter =
  wr_file :: "FILE option"
  wr_offset :: u64

definition SequentialFileWriter_new :: SequentialFileWriter where
  "SequentialFileWriter_new = \<lparr>wr_file = None, wr_offset = 0\<rparr>"

definition Writer_Open ::
  "path \<Rightarrow> bool \<Rightarrow> SequentialFileWriter \<Rightarrow> fs \<Rightarrow> Status \<times> SequentialFileWriter \<times> fs" where
  "Writer_Open p app w fs =
     (case fs_fault fs (SysOpenWrite p) of
        Some (_, err) \<Rightarrow>
          (IOErrorFromErrno (str ''Cannot open file for writing: '' @ p) err, w, fs)
      | None \<Rightarrow>
          (let old = file_bytes fs p;
               fs' = (if app then set_content p old fs
                      else (set_content p [] fs)\<lparr>fs_synced := (fs_synced fs)(p := 0)\<rparr>);
               f = \<lparr>file_path = p, file_buf = []\<rparr>
           in (Status_OK,
               w\<lparr>wr_file := Some f,
                 wr_offset := (if app then u64_of (length old) else 0)\<rparr>, fs')))"

text \<open>\<open>fwrite\<close> that fails has put a part of the data into the stream.\<close>

definition Writer_Append ::
  "SequentialFileWriter \<Rightarrow> bytes \<Rightarrow> fs \<Rightarrow> Status \<times> SequentialFileWriter" where
  "Writer_Append w data fs =
     (case wr_file w of
        None \<Rightarrow> (IOError (str ''File not open''), w)
      | Some f \<Rightarrow>
          (case fs_fault fs (SysWrite (file_path f) (unat (wr_offset w))) of
             Some (n, err) \<Rightarrow>
               if n < length data
               then (IOErrorFromErrno (str ''fwrite'') err,
                     w\<lparr>wr_file := Some (f\<lparr>file_buf := file_buf f @ take n data\<rparr>)\<rparr>)
               else (Status_OK,
                     w\<lparr>wr_file := Some (f\<lparr>file_buf := file_buf f @ data\<rparr>),
                       wr_offset := wr_offset w + u64_of (length data)\<rparr>)
           | None \<Rightarrow>
               (Status_OK,
                w\<lparr>wr_file := Some (f\<lparr>file_buf := file_buf f @ data\<rparr>),
                  wr_offset := wr_offset w + u64_of (length data)\<rparr>)))"

text \<open>
  \<open>fflush\<close> moves the buffer to the file. When it fails a part of the buffer has been
  written and the rest stays in the buffer.
\<close>

definition Writer_Flush ::
  "SequentialFileWriter \<Rightarrow> fs \<Rightarrow> Status \<times> SequentialFileWriter \<times> fs" where
  "Writer_Flush w fs =
     (case wr_file w of
        None \<Rightarrow> (Status_OK, w, fs)
      | Some f \<Rightarrow>
          (let p = file_path f; c = file_bytes fs p; buf = file_buf f
           in case fs_fault fs (SysFlush p (length c)) of
                Some (n, err) \<Rightarrow>
                  (IOErrorFromErrno (str ''fflush'') err,
                   w\<lparr>wr_file := Some (f\<lparr>file_buf := drop n buf\<rparr>)\<rparr>,
                   set_content p (c @ take n buf) fs)
              | None \<Rightarrow>
                  (Status_OK, w\<lparr>wr_file := Some (f\<lparr>file_buf := []\<rparr>)\<rparr>,
                   set_content p (c @ buf) fs)))"

text \<open>
  \<open>Sync\<close> of a writer that is not open passes a null \<open>FILE*\<close> to \<open>fileno\<close>,
  which is undefined; the model reports an error there.
\<close>

definition SyncFd :: "FILE option \<Rightarrow> fs \<Rightarrow> Status \<times> fs" where
  "SyncFd file fs =
     (case file of
        None \<Rightarrow> (IOError (str ''fileno of a null stream''), fs)
      | Some f \<Rightarrow>
          (let p = file_path f; c = file_bytes fs p
           in case fs_fault fs (SysSync p (length c)) of
                Some (_, err) \<Rightarrow> (IOErrorFromErrno (str ''fsync'') err, fs)
              | None \<Rightarrow> (Status_OK, fs\<lparr>fs_synced := (fs_synced fs)(p := length c)\<rparr>)))"

definition Writer_Sync ::
  "SequentialFileWriter \<Rightarrow> fs \<Rightarrow> Status \<times> SequentialFileWriter \<times> fs" where
  "Writer_Sync w fs =
     (let (s, w, fs) = Writer_Flush w fs
      in if \<not> ok s then (s, w, fs)
         else (let (s, fs) = SyncFd (wr_file w) fs in (s, w, fs)))"

definition Writer_Close ::
  "SequentialFileWriter \<Rightarrow> fs \<Rightarrow> Status \<times> SequentialFileWriter \<times> fs" where
  "Writer_Close w fs =
     (case wr_file w of
        None \<Rightarrow> (Status_OK, w, fs)
      | Some f \<Rightarrow>
          (let p = file_path f; c = file_bytes fs p
           in case fs_fault fs (SysClose p (length c)) of
                Some (n, err) \<Rightarrow>
                  (IOErrorFromErrno (str ''fclose'') err, w\<lparr>wr_file := None\<rparr>,
                   set_content p (c @ take n (file_buf f)) fs)
              | None \<Rightarrow>
                  (Status_OK, w\<lparr>wr_file := None\<rparr>, set_content p (c @ file_buf f) fs)))"

text \<open>The destructor closes the file and drops the status.\<close>

definition Writer_destroy :: "SequentialFileWriter \<Rightarrow> fs \<Rightarrow> fs" where
  "Writer_destroy w fs = snd (snd (Writer_Close w fs))"

definition Writer_Offset :: "SequentialFileWriter \<Rightarrow> u64" where
  "Writer_Offset w = wr_offset w"

text \<open>
  Moving hands the stream over; the result is the new object and what is left of the old one.
  Move assignment closes the stream of the target first and drops the status. \<open>same\<close> says
  that both are one object.
\<close>

definition Writer_move :: "SequentialFileWriter \<Rightarrow> SequentialFileWriter \<times> SequentialFileWriter" where
  "Writer_move other = (other, other\<lparr>wr_file := None, wr_offset := 0\<rparr>)"

definition Writer_assign ::
  "bool \<Rightarrow> SequentialFileWriter \<Rightarrow> SequentialFileWriter \<Rightarrow> fs \<Rightarrow> SequentialFileWriter \<times> SequentialFileWriter \<times> fs" where
  "Writer_assign same this other fs =
     (if same then (this, other, fs)
      else (let (_, this, fs) = Writer_Close this fs
            in (this\<lparr>wr_file := wr_file other, wr_offset := wr_offset other\<rparr>,
                other\<lparr>wr_file := None, wr_offset := 0\<rparr>, fs)))"

section \<open>RandomAccessFileReader\<close>

record RandomAccessFileReader =
  ra_file :: "path option"

definition RandomAccessFileReader_new :: RandomAccessFileReader where
  "RandomAccessFileReader_new = \<lparr>ra_file = None\<rparr>"

definition fopen_rb :: "path \<Rightarrow> fs \<Rightarrow> bytes + path" where
  "fopen_rb p fs =
     (case fs_fault fs (SysOpenRead p) of
        Some (_, err) \<Rightarrow> Inl err
      | None \<Rightarrow> (case content fs p of None \<Rightarrow> Inl ENOENT_text | Some _ \<Rightarrow> Inr p))"

definition Random_Open ::
  "path \<Rightarrow> RandomAccessFileReader \<Rightarrow> fs \<Rightarrow> Status \<times> RandomAccessFileReader" where
  "Random_Open p r fs =
     (case fopen_rb p fs of
        Inl err \<Rightarrow> (IOErrorFromErrno (str ''Cannot open file for reading: '' @ p) err, r)
      | Inr f \<Rightarrow> (Status_OK, r\<lparr>ra_file := Some f\<rparr>))"

text \<open>
  The result string is resized to \<open>n\<close> zero bytes before the seek, so a failed seek or
  read leaves \<open>n\<close> bytes in it; only a short read at end of file shrinks it.
\<close>

definition Random_Read ::
  "RandomAccessFileReader \<Rightarrow> nat \<Rightarrow> nat \<Rightarrow> fs \<Rightarrow> Status \<times> bytes" where
  "Random_Read r offset n fs =
     (case ra_file r of
        None \<Rightarrow> (IOError (str ''File not open''), [])
      | Some p \<Rightarrow>
          (case fs_fault fs (SysSeek p offset) of
             Some (_, err) \<Rightarrow> (IOErrorFromErrno (str ''fseeko'') err, replicate n 0)
           | None \<Rightarrow>
               (let avail = take n (drop offset (file_bytes fs p))
                in case fs_fault fs (SysRead p offset n) of
                     Some (m, err) \<Rightarrow>
                       (let got = take m avail
                        in if length got < n
                           then (IOErrorFromErrno (str ''fread'') err,
                                 got @ replicate (n - length got) 0)
                           else (Status_OK, got))
                   | None \<Rightarrow> (Status_OK, avail))))"

definition Random_Close :: "RandomAccessFileReader \<Rightarrow> fs \<Rightarrow> Status \<times> RandomAccessFileReader" where
  "Random_Close r fs =
     (case ra_file r of
        None \<Rightarrow> (Status_OK, r)
      | Some p \<Rightarrow>
          (case fs_fault fs (SysClose p 0) of
             Some (_, err) \<Rightarrow> (IOErrorFromErrno (str ''fclose'') err, r\<lparr>ra_file := None\<rparr>)
           | None \<Rightarrow> (Status_OK, r\<lparr>ra_file := None\<rparr>)))"

definition Random_move :: "RandomAccessFileReader \<Rightarrow> RandomAccessFileReader \<times> RandomAccessFileReader" where
  "Random_move other = (other, other\<lparr>ra_file := None\<rparr>)"

definition Random_assign ::
  "bool \<Rightarrow> RandomAccessFileReader \<Rightarrow> RandomAccessFileReader \<Rightarrow> fs \<Rightarrow> RandomAccessFileReader \<times> RandomAccessFileReader" where
  "Random_assign same this other fs =
     (if same then (this, other)
      else (let (_, this) = Random_Close this fs in (this\<lparr>ra_file := ra_file other\<rparr>, other\<lparr>ra_file := None\<rparr>)))"

section \<open>SequentialFileReader\<close>

record SequentialFileReader =
  sq_file :: "(path \<times> nat) option"

definition SequentialFileReader_new :: SequentialFileReader where
  "SequentialFileReader_new = \<lparr>sq_file = None\<rparr>"

definition Seq_Open ::
  "path \<Rightarrow> SequentialFileReader \<Rightarrow> fs \<Rightarrow> Status \<times> SequentialFileReader" where
  "Seq_Open p r fs =
     (case fopen_rb p fs of
        Inl err \<Rightarrow> (IOErrorFromErrno (str ''Cannot open file for reading: '' @ p) err, r)
      | Inr f \<Rightarrow> (Status_OK, r\<lparr>sq_file := Some (f, 0)\<rparr>))"

definition Seq_Read ::
  "SequentialFileReader \<Rightarrow> nat \<Rightarrow> fs \<Rightarrow> Status \<times> bytes \<times> SequentialFileReader" where
  "Seq_Read r n fs =
     (case sq_file r of
        None \<Rightarrow> (IOError (str ''File not open''), [], r)
      | Some (p, pos) \<Rightarrow>
          (let avail = take n (drop pos (file_bytes fs p))
           in case fs_fault fs (SysRead p pos n) of
                Some (m, err) \<Rightarrow>
                  (let got = take m avail
                   in (if length got < n then IOErrorFromErrno (str ''fread'') err else Status_OK,
                       got, r\<lparr>sq_file := Some (p, pos + length got)\<rparr>))
              | None \<Rightarrow>
                  (Status_OK, avail, r\<lparr>sq_file := Some (p, pos + length avail)\<rparr>)))"

definition Seq_Skip ::
  "SequentialFileReader \<Rightarrow> nat \<Rightarrow> fs \<Rightarrow> Status \<times> SequentialFileReader" where
  "Seq_Skip r n fs =
     (case sq_file r of
        None \<Rightarrow> (IOError (str ''File not open''), r)
      | Some (p, pos) \<Rightarrow>
          (case fs_fault fs (SysSeek p (pos + n)) of
             Some (_, err) \<Rightarrow> (IOErrorFromErrno (str ''fseeko'') err, r)
           | None \<Rightarrow> (Status_OK, r\<lparr>sq_file := Some (p, pos + n)\<rparr>)))"

definition Seq_Close :: "SequentialFileReader \<Rightarrow> fs \<Rightarrow> Status \<times> SequentialFileReader" where
  "Seq_Close r fs =
     (case sq_file r of
        None \<Rightarrow> (Status_OK, r)
      | Some (p, _) \<Rightarrow>
          (case fs_fault fs (SysClose p 0) of
             Some (_, err) \<Rightarrow> (IOErrorFromErrno (str ''fclose'') err, r\<lparr>sq_file := None\<rparr>)
           | None \<Rightarrow> (Status_OK, r\<lparr>sq_file := None\<rparr>)))"

definition Seq_move :: "SequentialFileReader \<Rightarrow> SequentialFileReader \<times> SequentialFileReader" where
  "Seq_move other = (other, other\<lparr>sq_file := None\<rparr>)"

definition Seq_assign ::
  "bool \<Rightarrow> SequentialFileReader \<Rightarrow> SequentialFileReader \<Rightarrow> fs \<Rightarrow> SequentialFileReader \<times> SequentialFileReader" where
  "Seq_assign same this other fs =
     (if same then (this, other)
      else (let (_, this) = Seq_Close this fs in (this\<lparr>sq_file := sq_file other\<rparr>, other\<lparr>sq_file := None\<rparr>)))"

section \<open>File system utilities\<close>

definition FileExists :: "path \<Rightarrow> fs \<Rightarrow> bool" where
  "FileExists p fs \<longleftrightarrow> fs_fault fs (SysAccess p) = None \<and> content fs p \<noteq> None"

definition FileSize :: "path \<Rightarrow> fs \<Rightarrow> Status \<times> u64 option" where
  "FileSize p fs =
     (case fs_fault fs (SysStat p) of
        Some (_, err) \<Rightarrow> (IOErrorFromErrno (str ''stat: '' @ p) err, None)
      | None \<Rightarrow>
          (case content fs p of
             None \<Rightarrow> (IOErrorFromErrno (str ''stat: '' @ p) ENOENT_text, None)
           | Some c \<Rightarrow> (Status_OK, Some (u64_of (length c)))))"

definition DeleteFile :: "path \<Rightarrow> fs \<Rightarrow> Status \<times> fs" where
  "DeleteFile p fs =
     (case fs_fault fs (SysRemove p) of
        Some (_, err) \<Rightarrow> (IOErrorFromErrno (str ''remove: '' @ p) err, fs)
      | None \<Rightarrow>
          (case content fs p of
             None \<Rightarrow> (IOErrorFromErrno (str ''remove: '' @ p) ENOENT_text, fs)
           | Some _ \<Rightarrow> (Status_OK, del_content p fs)))"

text \<open>An existing directory (\<open>EEXIST\<close>) is not an error.\<close>

definition CreateDir :: "path \<Rightarrow> fs \<Rightarrow> Status" where
  "CreateDir p fs =
     (case fs_fault fs (SysMkdir p) of
        Some (_, err) \<Rightarrow> IOErrorFromErrno (str ''mkdir: '' @ p) err
      | None \<Rightarrow> Status_OK)"

definition RenameFile :: "path \<Rightarrow> path \<Rightarrow> fs \<Rightarrow> Status \<times> fs" where
  "RenameFile src dst fs =
     (case fs_fault fs (SysRename src dst) of
        Some (_, err) \<Rightarrow> (IOErrorFromErrno (str ''rename: '' @ src @ str '' -> '' @ dst) err, fs)
      | None \<Rightarrow>
          (case content fs src of
             None \<Rightarrow>
               (IOErrorFromErrno (str ''rename: '' @ src @ str '' -> '' @ dst) ENOENT_text, fs)
           | Some c \<Rightarrow>
               (Status_OK,
                (set_content dst c (del_content src fs))
                  \<lparr>fs_synced := (fs_synced fs)(dst := fs_synced fs src)\<rparr>)))"

text \<open>
  The children of a directory are the files whose path is the directory, a slash and a
  name without one. The order of a directory listing is not specified; the model lists
  the files in the order of the file table.
\<close>

definition slash :: byte where
  "slash = 47"

definition child_name :: "path \<Rightarrow> path \<Rightarrow> bytes option" where
  "child_name dir p =
     (let n = length dir
      in if take n p = dir \<and> n < length p \<and> p ! n = slash \<and> slash \<notin> set (drop (Suc n) p)
         then Some (drop (Suc n) p) else None)"

definition GetChildren :: "path \<Rightarrow> fs \<Rightarrow> Status \<times> bytes list" where
  "GetChildren dir fs =
     (case fs_fault fs (SysReaddir dir) of
        Some (_, err) \<Rightarrow> (IOErrorFromErrno (str ''opendir: '' @ dir) err, [])
      | None \<Rightarrow> (Status_OK, List.map_filter (\<lambda>(p, _). child_name dir p) (fs_files fs)))"

section \<open>Contents\<close>

named_theorems fs_simps "reading back what was written to the file system"

lemma content_set [simp, fs_simps]: "content (set_content p c fs) = (content fs)(p \<mapsto> c)"
  by (rule ext) (simp add: content_def set_content_def update_conv')

lemma content_del [simp, fs_simps]: "content (del_content p fs) = (content fs)(p := None)"
  by (rule ext) (simp add: content_def del_content_def delete_conv')

lemma content_synced [simp, fs_simps]: "content (fs\<lparr>fs_synced := x\<rparr>) = content fs"
  by (rule ext) (simp add: content_def)

lemma file_bytes_set [simp, fs_simps]:
  "file_bytes (set_content p c fs) q = (if q = p then c else file_bytes fs q)"
  by (simp add: file_bytes_def)

lemma file_bytes_synced [simp, fs_simps]: "file_bytes (fs\<lparr>fs_synced := x\<rparr>) = file_bytes fs"
  by (simp add: file_bytes_def fun_eq_iff)

lemma file_bytes_Some: "content fs p = Some c \<Longrightarrow> file_bytes fs p = c"
  by (simp add: file_bytes_def)

lemma fs_fault_simps [simp, fs_simps]:
  "fs_fault (set_content p c fs) = fs_fault fs" "fs_fault (del_content p fs) = fs_fault fs"
  by (simp_all add: set_content_def del_content_def)

lemma fs_synced_simps [simp, fs_simps]:
  "fs_synced (set_content p c fs) = fs_synced fs" "fs_synced (del_content p fs) = fs_synced fs"
  by (simp_all add: set_content_def del_content_def)

lemma IOErrorFromErrno_not_ok [simp]: "\<not> ok (IOErrorFromErrno c e)"
  by (simp add: IOErrorFromErrno_def)

lemma IOErrorFromErrno_is [simp]:
  "IsIOError (IOErrorFromErrno c e)" "\<not> IsNotFound (IOErrorFromErrno c e)"
  by (simp_all add: IOErrorFromErrno_def)

section \<open>Reliable file systems\<close>

definition reliable :: "fs \<Rightarrow> bool" where
  "reliable fs \<longleftrightarrow> (\<forall>c. fs_fault fs c = None)"

lemma reliable_fault [simp]: "reliable fs \<Longrightarrow> fs_fault fs c = None"
  by (simp add: reliable_def)

lemma reliable_simps [simp]:
  "reliable (set_content p c fs) = reliable fs" "reliable (del_content p fs) = reliable fs"
  "reliable (fs\<lparr>fs_synced := x\<rparr>) = reliable fs"
  by (simp_all add: reliable_def)

text \<open>A file system without files, in which nothing fails.\<close>

definition empty_fs :: fs where
  "empty_fs = \<lparr>fs_files = [], fs_synced = (\<lambda>_. 0), fs_fault = (\<lambda>_. None)\<rparr>"

lemma empty_fs_simps [simp]: "reliable empty_fs" "content empty_fs = Map.empty"
  by (auto simp: reliable_def content_def empty_fs_def)

text \<open>A writer that is open on a file and has nothing in its buffer.\<close>

definition open_on :: "SequentialFileWriter \<Rightarrow> path \<Rightarrow> bool" where
  "open_on w p \<longleftrightarrow> wr_file w = Some \<lparr>file_path = p, file_buf = []\<rparr>"

text \<open>
  Appending and flushing extends the file by exactly the data, when nothing fails. This is
  the step both logs are made of.
\<close>

lemma Writer_Append_reliable:
  assumes "reliable fs" and "wr_file w = Some f"
  shows "Writer_Append w d fs =
    (Status_OK, w\<lparr>wr_file := Some (f\<lparr>file_buf := file_buf f @ d\<rparr>),
      wr_offset := wr_offset w + u64_of (length d)\<rparr>)"
  using assms by (simp add: Writer_Append_def)

lemma Writer_Flush_reliable:
  assumes "reliable fs" and "wr_file w = Some f"
  shows "Writer_Flush w fs =
    (Status_OK, w\<lparr>wr_file := Some (f\<lparr>file_buf := []\<rparr>)\<rparr>,
     set_content (file_path f) (file_bytes fs (file_path f) @ file_buf f) fs)"
  using assms by (simp add: Writer_Flush_def Let_def)

lemma Writer_Sync_reliable:
  assumes "reliable fs" and "wr_file w = Some f"
  defines "c \<equiv> file_bytes fs (file_path f) @ file_buf f"
  shows "Writer_Sync w fs =
    (Status_OK, w\<lparr>wr_file := Some (f\<lparr>file_buf := []\<rparr>)\<rparr>,
     (set_content (file_path f) c fs)\<lparr>fs_synced := (fs_synced fs)(file_path f := length c)\<rparr>)"
  using assms by (simp add: Writer_Sync_def Writer_Flush_reliable SyncFd_def Let_def)

lemma Writer_Close_reliable:
  assumes "reliable fs" and "wr_file w = Some f"
  shows "Writer_Close w fs =
    (Status_OK, w\<lparr>wr_file := None\<rparr>,
     set_content (file_path f) (file_bytes fs (file_path f) @ file_buf f) fs)"
  using assms by (simp add: Writer_Close_def Let_def)

lemma Random_Read_reliable:
  assumes "reliable fs" and "ra_file r = Some p"
  shows "Random_Read r off n fs = (Status_OK, take n (drop off (file_bytes fs p)))"
  using assms by (simp add: Random_Read_def Let_def)

lemma Seq_Read_reliable:
  assumes "reliable fs" and "sq_file r = Some (p, pos)"
  shows "Seq_Read r n fs =
    (Status_OK, take n (drop pos (file_bytes fs p)),
     r\<lparr>sq_file := Some (p, pos + length (take n (drop pos (file_bytes fs p))))\<rparr>)"
  using assms by (simp add: Seq_Read_def Let_def)

lemmas reliable_io =
  Writer_Append_reliable Writer_Flush_reliable Writer_Sync_reliable Writer_Close_reliable
  Random_Read_reliable Seq_Read_reliable

text \<open>A stream that has been handed over is closed once, by its new owner.\<close>

lemma moved_writer_destroy:
  "Writer_destroy (snd (Writer_move w)) fs = fs"
  "\<not> same \<Longrightarrow> Writer_destroy (fst (snd (Writer_assign same w w' fs))) fs' = fs'"
  "\<not> same \<Longrightarrow> Writer_destroy (fst (Writer_assign same w w' fs)) fs' = Writer_destroy w' fs'"
  by (simp_all add: Writer_destroy_def Writer_move_def Writer_assign_def Writer_Close_def Let_def
      split: prod.split option.split)

text \<open>No operation changes the environment.\<close>

lemma fs_fault_ops:
  "fs_fault (snd (snd (Writer_Open p a w fs))) = fs_fault fs"
  "fs_fault (snd (snd (Writer_Flush w fs))) = fs_fault fs"
  "fs_fault (snd (snd (Writer_Sync w fs))) = fs_fault fs"
  "fs_fault (snd (snd (Writer_Close w fs))) = fs_fault fs"
  "fs_fault (snd (DeleteFile p fs)) = fs_fault fs"
  "fs_fault (snd (RenameFile p q fs)) = fs_fault fs"
  by (auto simp: Writer_Open_def Writer_Flush_def Writer_Sync_def Writer_Close_def SyncFd_def
      DeleteFile_def RenameFile_def Let_def split: option.split prod.split)

text \<open>The children of a directory.\<close>

lemma child_name_path:
  "slash \<notin> set name \<Longrightarrow> child_name dir (dir @ slash # name) = Some name"
  by (simp add: child_name_def Let_def)

lemma child_name_Some: "child_name dir p = Some name \<Longrightarrow> p = dir @ slash # name \<and> slash \<notin> set name"
  by (auto simp: child_name_def Let_def split: if_splits)
    (metis Cons_nth_drop_Suc append_take_drop_id)

lemma mem_GetChildren:
  assumes "fs_fault fs (SysReaddir dir) = None"
  shows "name \<in> set (snd (GetChildren dir fs)) \<longleftrightarrow>
    slash \<notin> set name \<and> content fs (dir @ slash # name) \<noteq> None"
proof -
  have "name \<in> set (snd (GetChildren dir fs)) \<longleftrightarrow>
      (\<exists>(p, c) \<in> set (fs_files fs). child_name dir p = Some name)"
    using assms by (auto simp: GetChildren_def map_filter_def intro!: rev_image_eqI rev_bexI)
  also have "\<dots> \<longleftrightarrow> slash \<notin> set name \<and> dir @ slash # name \<in> fst ` set (fs_files fs)"
    by (auto dest: child_name_Some intro!: rev_image_eqI rev_bexI child_name_path)
  finally show ?thesis
    by (simp add: content_def map_of_eq_None_iff)
qed

end
