(* ===== verification/Log_Frame.thy ===== *)
theory Log_Frame
  imports Prelude "HOL-Library.Sublist"
begin

text \<open>
  What the write-ahead log and the value log have in common: a file that is a sequence of
  self-delimiting records. \<open>framed_log\<close> states what one record format promises; its
  lemmas say that scanning a log gives back the records that were appended, and that
  scanning a log cut off at any byte gives back exactly the records that are whole.
\<close>

text \<open>The records a decoder finds from the front of a log until it fails.\<close>

function scan_log :: "(bytes \<Rightarrow> ('r \<times> bytes) option) \<Rightarrow> bytes \<Rightarrow> 'r list" where
  "scan_log dec bs =
     (case dec bs of
        None \<Rightarrow> []
      | Some (r, rest) \<Rightarrow> if length rest < length bs then r # scan_log dec rest else [r])"
  by pat_completeness auto
termination
  by (relation "measure (\<lambda>(dec, bs). length bs)") auto

declare scan_log.simps [simp del]

locale framed_log =
  fixes enc :: "'r \<Rightarrow> bytes"
    and dec :: "bytes \<Rightarrow> ('r \<times> bytes) option"
    and valid :: "'r \<Rightarrow> bool"
  assumes dec_enc: "valid r \<Longrightarrow> dec (enc r @ rest) = Some (r, rest)"
    and enc_nonempty: "enc r \<noteq> []"
    and dec_torn: "valid r \<Longrightarrow> strict_prefix t (enc r) \<Longrightarrow> dec t = None"
    and dec_empty: "dec [] = None"
begin

definition log_of :: "'r list \<Rightarrow> bytes" where
  "log_of rs = concat (map enc rs)"

lemma log_of_simps [simp]:
  "log_of [] = []" "log_of (r # rs) = enc r @ log_of rs" "log_of (rs @ rs') = log_of rs @ log_of rs'"
  by (simp_all add: log_of_def)

lemma scan_append:
  "list_all valid rs \<Longrightarrow> scan_log dec (log_of rs @ t) = rs @ scan_log dec t"
proof (induction rs)
  case (Cons r rs)
  then have "dec (enc r @ (log_of rs @ t)) = Some (r, log_of rs @ t)"
    by (intro dec_enc) simp
  with Cons enc_nonempty [of r] show ?case
    by (simp add: scan_log.simps [of dec "enc r @ log_of rs @ t"])
qed simp

text \<open>A log cut off anywhere: the longest sequence of whole records in it is what is read.\<close>

lemma scan_torn:
  assumes "list_all valid (rs @ [r])" and "strict_prefix t (enc r)"
  shows "scan_log dec (log_of rs @ t) = rs"
proof -
  have "dec t = None" using assms by (auto intro: dec_torn)
  with assms(1) show ?thesis by (simp add: scan_append scan_log.simps [of dec t])
qed

lemma prefix_of_log:
  assumes "prefix bs (log_of rs)"
  obtains k t where "k \<le> length rs" and "bs = log_of (take k rs) @ t"
    and "t = [] \<or> (k < length rs \<and> strict_prefix t (enc (rs ! k)))"
  using assms
proof (induction rs arbitrary: bs thesis)
  case Nil
  show ?case by (rule Nil.prems(1) [of 0 "[]"]) (use Nil.prems(2) in auto)
next
  case (Cons r rs)
  from Cons.prems(2) have p: "prefix bs (enc r @ log_of rs)" by simp
  show ?case
  proof (cases "length bs < length (enc r)")
    case True
    with p have "prefix bs (enc r)" by (auto simp: prefix_append dest: prefix_length_le)
    with True have "strict_prefix bs (enc r)" by (auto simp: strict_prefix_def)
    then show ?thesis by (intro Cons.prems(1) [of 0 bs]) auto
  next
    case False
    with p have "prefix (enc r) bs"
      by (metis not_less prefix_length_prefix prefixI)
    with p obtain bs' where bs: "bs = enc r @ bs'" and bs': "prefix bs' (log_of rs)"
      by (auto elim!: prefixE)
    obtain k t where "k \<le> length rs" "bs' = log_of (take k rs) @ t"
      "t = [] \<or> (k < length rs \<and> strict_prefix t (enc (rs ! k)))"
      using Cons.IH [OF _ bs'] by blast
    then show ?thesis by (intro Cons.prems(1) [of "Suc k" t]) (auto simp: bs)
  qed
qed

theorem scan_prefix:
  assumes "list_all valid rs" and "prefix bs (log_of rs)"
  shows "\<exists>k \<le> length rs. scan_log dec bs = take k rs \<and> length (log_of (take k rs)) \<le> length bs \<and>
    (k < length rs \<longrightarrow> length bs < length (log_of (take (Suc k) rs)))"
proof -
  from assms(2) obtain k t where k: "k \<le> length rs" and bs: "bs = log_of (take k rs) @ t"
    and t: "t = [] \<or> (k < length rs \<and> strict_prefix t (enc (rs ! k)))"
    by (rule prefix_of_log)
  have v: "list_all valid (take k rs)"
    using assms(1) by (auto simp: list_all_iff dest: in_set_takeD)
  have suc: "k < length rs \<Longrightarrow> take (Suc k) rs = take k rs @ [rs ! k]"
    by (rule take_Suc_conv_app_nth)
  have dec: "dec t = None"
  proof (cases "t = []")
    case True
    then show ?thesis by (simp add: dec_empty)
  next
    case False
    with t assms(1) show ?thesis by (auto simp: list_all_length intro: dec_torn)
  qed
  have "scan_log dec bs = take k rs"
    unfolding bs using v dec by (simp add: scan_append scan_log.simps [of dec t])
  moreover have "k < length rs \<Longrightarrow> length t < length (enc (rs ! k))"
    using t enc_nonempty [of "rs ! k"] prefix_length_less by auto
  ultimately show ?thesis
    using k suc by (intro exI [of _ k]) (auto simp: bs)
qed

end

end
