(* ===== verification/Wal.thy ===== *)
theory Wal
  imports Mem_Table Crc32 File_Util Log_Frame
begin

text \<open>
  The write-ahead log of \<open>wal.h\<close>/\<open>wal.cpp\<close>: record encoding, the open log and
  its operations, and recovery, which reads a log up to the first record that is cut off or
  fails its checksum.
\<close>

section \<open>Records\<close>

record WALRecord =
  wal_type :: ValueType
  wal_sequence :: u64
  wal_key :: bytes
  wal_vlog_ptr :: VLogPointer

definition wal_inner :: "WALRecord \<Rightarrow> bytes" where
  "wal_inner record =
     (let inner = [wal_type record];
          inner = PutFixed64 inner (wal_sequence record);
          key_len = u32_of (length (wal_key record));
          inner = PutFixed32 inner key_len;
          inner = inner @ wal_key record
      in if wal_type record = kValue
         then PutFixed32
                (PutFixed64 (PutFixed32 inner (ptr_file_id (wal_vlog_ptr record)))
                  (ptr_offset (wal_vlog_ptr record)))
                (ptr_value_size (wal_vlog_ptr record))
         else inner)"

definition wal_encode :: "WALRecord \<Rightarrow> bytes" where
  "wal_encode record =
     (let inner = wal_inner record;
          len = u32_of (length inner);
          checksummed = PutFixed32 [] len @ inner;
          crc = CRC32 checksummed 0
      in PutFixed32 [] crc @ checksummed)"

section \<open>The open log\<close>

record WAL =
  wal_db_path :: path
  wal_writer :: "SequentialFileWriter option"
  wal_current_id :: u64

definition WALFilePath :: "path \<Rightarrow> u64 \<Rightarrow> path" where
  "WALFilePath db_path wal_id =
     db_path @ str ''/wal_'' @ pad5 (show_nat (unat wal_id)) @ str ''.log''"

definition WAL_new :: "path \<Rightarrow> WAL" where
  "WAL_new db_path = \<lparr>wal_db_path = db_path, wal_writer = None, wal_current_id = 0\<rparr>"

text \<open>A writer that fails to close stays in \<open>writer_\<close>.\<close>

definition WAL_Create :: "u64 \<Rightarrow> WAL \<Rightarrow> fs \<Rightarrow> Status \<times> WAL \<times> fs" where
  "WAL_Create wal_id wal fs =
     (let (s, wal, fs) =
            (case wal_writer wal of
               None \<Rightarrow> (Status_OK, wal, fs)
             | Some w \<Rightarrow>
                 (let (s, w, fs) = Writer_Close w fs
                  in if \<not> ok s then (s, wal\<lparr>wal_writer := Some w\<rparr>, fs)
                     else (Status_OK, wal\<lparr>wal_writer := None\<rparr>, fs)))
      in if \<not> ok s then (s, wal, fs)
         else
           (let wal = wal\<lparr>wal_current_id := wal_id\<rparr>;
                p = WALFilePath (wal_db_path wal) wal_id;
                (s, w, fs) = Writer_Open p False SequentialFileWriter_new fs
            in if \<not> ok s then (s, wal\<lparr>wal_writer := None\<rparr>, fs)
               else (Status_OK, wal\<lparr>wal_writer := Some w\<rparr>, fs)))"

definition WAL_AddRecord :: "WALRecord \<Rightarrow> WAL \<Rightarrow> fs \<Rightarrow> Status \<times> WAL \<times> fs" where
  "WAL_AddRecord record wal fs =
     (case wal_writer wal of
        None \<Rightarrow> (IOError (str ''WAL not open for writing''), wal, fs)
      | Some w \<Rightarrow>
          (let (s, w) = Writer_Append w (wal_encode record) fs
           in if \<not> ok s then (s, wal\<lparr>wal_writer := Some w\<rparr>, fs)
              else
                (let (s, w, fs) = Writer_Flush w fs
                 in if \<not> ok s then (s, wal\<lparr>wal_writer := Some w\<rparr>, fs)
                    else (Status_OK, wal\<lparr>wal_writer := Some w\<rparr>, fs))))"

definition WAL_Sync :: "WAL \<Rightarrow> fs \<Rightarrow> Status \<times> WAL \<times> fs" where
  "WAL_Sync wal fs =
     (case wal_writer wal of
        None \<Rightarrow> (Status_OK, wal, fs)
      | Some w \<Rightarrow>
          (let (s, w, fs) = Writer_Sync w fs in (s, wal\<lparr>wal_writer := Some w\<rparr>, fs)))"

definition WAL_Close :: "WAL \<Rightarrow> fs \<Rightarrow> Status \<times> WAL \<times> fs" where
  "WAL_Close wal fs =
     (case wal_writer wal of
        None \<Rightarrow> (Status_OK, wal, fs)
      | Some w \<Rightarrow>
          (let (s, w, fs) = Writer_Sync w fs;
               (s2, w, fs) = Writer_Close w fs
           in (if ok s then s2 else s, wal\<lparr>wal_writer := None\<rparr>, fs)))"

definition CurrentId :: "WAL \<Rightarrow> u64" where
  "CurrentId wal = wal_current_id wal"

section \<open>Recovery\<close>

text \<open>The inner content of a record; a position in it is the rest of the bytes.\<close>

definition wal_parse :: "bytes \<Rightarrow> WALRecord option" where
  "wal_parse p =
     (if length p < 1 then None
      else let type_byte = p ! 0; p = drop 1 p in
      if length p < 8 then None
      else let seq = DecodeFixed64 p; p = drop 8 p in
      if length p < 4 then None
      else let key_len = unat (DecodeFixed32 p); p = drop 4 p in
      if length p < key_len then None
      else let key = take key_len p; p = drop key_len p in
      if type_byte = kValue
      then if length p < 16 then None
           else Some \<lparr>wal_type = type_byte, wal_sequence = seq, wal_key = key,
                  wal_vlog_ptr = \<lparr>ptr_file_id = DecodeFixed32 p,
                                  ptr_offset = DecodeFixed64 (drop 4 p),
                                  ptr_value_size = DecodeFixed32 (drop 12 p)\<rparr>\<rparr>
      else Some \<lparr>wal_type = type_byte, wal_sequence = seq, wal_key = key,
             wal_vlog_ptr = null_ptr\<rparr>)"

text \<open>
  One round of the loop of \<open>WAL::Recover\<close>; \<open>None\<close> is a \<open>break\<close>. The offsets
  are below the size of the file plus a 32-bit length, so they do not wrap.
\<close>

definition Recover_record ::
  "nat \<Rightarrow> nat \<Rightarrow> SequentialFileReader \<Rightarrow> fs \<Rightarrow> (WALRecord \<times> nat \<times> SequentialFileReader) option" where
  "Recover_record file_size offset reader fs =
     (if file_size < offset + 8 then None
      else let (s, crc_buf, reader) = Seq_Read reader 4 fs in
      if \<not> ok s \<or> length crc_buf < 4 then None
      else let stored_crc = DecodeFixed32 crc_buf; offset = offset + 4;
               (s, len_buf, reader) = Seq_Read reader 4 fs in
      if \<not> ok s \<or> length len_buf < 4 then None
      else let len = DecodeFixed32 len_buf; offset = offset + 4 in
      if len = 0 \<or> file_size < offset + unat len then None
      else let (s, inner_buf, reader) = Seq_Read reader (unat len) fs in
      if \<not> ok s \<or> length inner_buf < unat len then None
      else let offset = offset + unat len;
               checksummed = PutFixed32 [] len @ inner_buf;
               computed_crc = CRC32 checksummed 0 in
      if computed_crc \<noteq> stored_crc then None
      else (case wal_parse inner_buf of
              None \<Rightarrow> None
            | Some rec \<Rightarrow> Some (rec, offset, reader)))"

lemma Recover_record_advances:
  "Recover_record file_size offset reader fs = Some (r, offset', reader') \<Longrightarrow>
    offset + 8 \<le> offset' \<and> offset' \<le> file_size"
  by (auto simp: Recover_record_def Let_def split: if_splits prod.splits option.splits)

function Recover_loop ::
  "nat \<Rightarrow> nat \<Rightarrow> SequentialFileReader \<Rightarrow> fs \<Rightarrow> WALRecord list" where
  "Recover_loop file_size offset reader fs =
     (if offset < file_size
      then (case Recover_record file_size offset reader fs of
              None \<Rightarrow> []
            | Some (rec, offset, reader) \<Rightarrow> rec # Recover_loop file_size offset reader fs)
      else [])"
  by pat_completeness auto
termination
  by (relation "measure (\<lambda>(file_size, offset, _). file_size - offset)")
    (auto dest!: Recover_record_advances)

declare Recover_loop.simps [simp del]

text \<open>The records pointer of every caller is not null.\<close>

definition WAL_Recover :: "path \<Rightarrow> fs \<Rightarrow> Status \<times> WALRecord list" where
  "WAL_Recover wal_path fs =
     (if \<not> FileExists wal_path fs
      then (NotFound (str ''WAL file not found: '' @ wal_path), [])
      else (case FileSize wal_path fs of
              (s, None) \<Rightarrow> (s, [])
            | (_, Some file_size) \<Rightarrow>
                if file_size = 0 then (Status_OK, [])
                else let (s, reader) = Seq_Open wal_path SequentialFileReader_new fs in
                if \<not> ok s then (s, [])
                else (Status_OK, Recover_loop (unat file_size) 0 reader fs)))"

section \<open>The record format\<close>

text \<open>The decoder that one round of the loop applies to the rest of the file.\<close>

definition wal_decode :: "bytes \<Rightarrow> (WALRecord \<times> bytes) option" where
  "wal_decode bs =
     (let len = DecodeFixed32 (drop 4 bs); inner = take (unat len) (drop 8 bs)
      in if length bs < 8 \<or> len = 0 \<or> length bs < 8 + unat len \<or>
            CRC32 (EncodeFixed32 len @ inner) 0 \<noteq> DecodeFixed32 bs
         then None
         else map_option (\<lambda>r. (r, drop (8 + unat len) bs)) (wal_parse inner))"

text \<open>
  A record that survives: its length fits the length field, and a record that is not a put
  has no pointer.
\<close>

definition wal_valid :: "WALRecord \<Rightarrow> bool" where
  "wal_valid r \<longleftrightarrow> length (wal_key r) + 29 < 2 ^ 32 \<and>
     (wal_type r \<noteq> kValue \<longrightarrow> wal_vlog_ptr r = null_ptr)"

lemma length_wal_inner:
  "length (wal_inner r) = 13 + length (wal_key r) + (if wal_type r = kValue then 16 else 0)"
  by (simp add: wal_inner_def Let_def PutFixed32_def PutFixed64_def)

lemma length_wal_encode: "length (wal_encode r) = 8 + length (wal_inner r)"
  by (simp add: wal_encode_def Let_def PutFixed32_def)

lemma wal_parse_inner:
  assumes "wal_valid r"
  shows "wal_parse (wal_inner r) = Some r"
  using assms
  by (cases r; cases "wal_vlog_ptr r")
    (simp add: wal_parse_def wal_inner_def Let_def PutFixed32_def PutFixed64_def wal_valid_def)

lemma wal_inner_len:
  assumes "wal_valid r"
  shows "unat (u32_of (length (wal_inner r))) = length (wal_inner r)"
    and "u32_of (length (wal_inner r)) \<noteq> 0"
proof -
  have l: "length (wal_inner r) < 2 ^ 32" "length (wal_inner r) \<noteq> 0"
    using assms by (simp_all add: wal_valid_def length_wal_inner)
  then show u: "unat (u32_of (length (wal_inner r))) = length (wal_inner r)" by simp
  with l(2) show "u32_of (length (wal_inner r)) \<noteq> 0" by (metis unat_0)
qed

lemma wal_decode_short: "length bs < 8 \<Longrightarrow> wal_decode bs = None"
  by (simp add: wal_decode_def Let_def)

lemma wal_decode_encode:
  assumes "wal_valid r"
  shows "wal_decode (wal_encode r @ rest) = Some (r, rest)"
  using wal_inner_len [OF assms] wal_parse_inner [OF assms]
  by (simp add: wal_decode_def wal_encode_def Let_def PutFixed32_def)

lemma wal_decode_torn:
  assumes "wal_valid r" and "strict_prefix t (wal_encode r)"
  shows "wal_decode t = None"
proof (cases "length t < 8")
  case True
  then show ?thesis by (rule wal_decode_short)
next
  case False
  from assms(2) obtain u where u: "t @ u = wal_encode r"
    by (auto simp: strict_prefix_def prefix_def)
  have "DecodeFixed32 (drop 4 t) = DecodeFixed32 (take 4 (drop 4 (t @ u)))"
    using False by simp
  then have "DecodeFixed32 (drop 4 t) = u32_of (length (wal_inner r))"
    unfolding u by (simp add: wal_encode_def Let_def PutFixed32_def)
  moreover have "length t < 8 + length (wal_inner r)"
    using prefix_length_less [OF assms(2)] by (simp add: length_wal_encode)
  ultimately show ?thesis
    using wal_inner_len [OF assms(1)] by (simp add: wal_decode_def Let_def)
qed

interpretation wal_log: framed_log wal_encode wal_decode wal_valid
proof
  show "wal_encode r \<noteq> []" for r
    using length_wal_encode [of r] by auto
  show "wal_decode [] = None" by (simp add: wal_decode_short)
qed (auto intro: wal_decode_encode wal_decode_torn)

section \<open>Recovery reads what was added\<close>

lemma Recover_record_decode:
  assumes "reliable fs" and "sq_file reader = Some (p, off)" and "off \<le> length (file_bytes fs p)"
  shows "Recover_record (length (file_bytes fs p)) off reader fs =
    (case wal_decode (drop off (file_bytes fs p)) of
       None \<Rightarrow> None
     | Some (r, rest) \<Rightarrow>
         (let off' = length (file_bytes fs p) - length rest
          in Some (r, off', reader\<lparr>sq_file := Some (p, off')\<rparr>)))"
proof (cases "length (file_bytes fs p) < off + 8")
  case True
  with assms(3) have "length (drop off (file_bytes fs p)) < 8" by simp
  then have "wal_decode (drop off (file_bytes fs p)) = None" by (rule wal_decode_short)
  with True show ?thesis by (simp add: Recover_record_def)
next
  case False
  define bs where "bs = drop off (file_bytes fs p)"
  define len where "len = DecodeFixed32 (drop 4 bs)"
  from False have size: "length (file_bytes fs p) = off + length bs" and bs: "8 \<le> length bs"
    by (simp_all add: bs_def)
  have at: "reader\<lparr>sq_file := Some (p, off)\<rparr> = reader" using assms(2) by simp
  have rd: "Seq_Read (reader\<lparr>sq_file := Some (p, off + k)\<rparr>) n fs =
      (Status_OK, take n (drop k bs), reader\<lparr>sq_file := Some (p, off + k + n)\<rparr>)"
    if "k + n \<le> length bs" for k n
    using assms(1) that by (simp add: Seq_Read_reliable bs_def add.commute)
  obtain b1 where b1: "length b1 = 4" "DecodeFixed32 b1 = DecodeFixed32 bs"
    and r1: "Seq_Read reader 4 fs = (Status_OK, b1, reader\<lparr>sq_file := Some (p, off + 4)\<rparr>)"
    using that [of "take 4 bs"] rd [of 0 4] bs at by simp
  obtain b2 where b2: "length b2 = 4" "DecodeFixed32 b2 = len"
    and r2: "Seq_Read (reader\<lparr>sq_file := Some (p, off + 4)\<rparr>) 4 fs =
      (Status_OK, b2, reader\<lparr>sq_file := Some (p, off + 8)\<rparr>)"
    using that [of "take 4 (drop 4 bs)"] rd [of 4 4] bs by (simp add: len_def)
  note start = Recover_record_def size bs r1 r2 b1 b2 Let_def PutFixed32_def
  show ?thesis
  proof (cases "len = 0 \<or> length bs < 8 + unat len")
    case True
    then have "wal_decode bs = None" by (auto simp: wal_decode_def Let_def len_def)
    with True show ?thesis unfolding bs_def [symmetric] by (auto simp: start)
  next
    case False
    define inner where "inner = take (unat len) (drop 8 bs)"
    from False have n: "length inner = unat len" by (auto simp: inner_def min_def)
    from False have "Seq_Read (reader\<lparr>sq_file := Some (p, off + 8)\<rparr>) (unat len) fs =
      (Status_OK, inner, reader\<lparr>sq_file := Some (p, off + 8 + unat len)\<rparr>)"
      unfolding inner_def by (intro rd) simp
    with False n have "Recover_record (length (file_bytes fs p)) off reader fs =
      (if CRC32 (EncodeFixed32 len @ inner) 0 \<noteq> DecodeFixed32 bs then None
       else case wal_parse inner of None \<Rightarrow> None
         | Some r \<Rightarrow> Some (r, off + 8 + unat len, reader\<lparr>sq_file := Some (p, off + 8 + unat len)\<rparr>))"
      by (simp add: start add.assoc split: option.split)
    moreover have "wal_decode bs =
      (if CRC32 (EncodeFixed32 len @ inner) 0 \<noteq> DecodeFixed32 bs then None
       else map_option (\<lambda>r. (r, drop (8 + unat len) bs)) (wal_parse inner))"
      using False bs by (simp add: wal_decode_def Let_def flip: len_def inner_def)
    ultimately show ?thesis
      using False size unfolding bs_def [symmetric] by (simp add: Let_def split: option.split)
  qed
qed

lemma wal_decode_rest:
  "wal_decode bs = Some (r, rest) \<Longrightarrow> \<exists>n. 8 < n \<and> n \<le> length bs \<and> rest = drop n bs"
  by (rule exI [of _ "8 + unat (DecodeFixed32 (drop 4 bs))"])
    (auto simp: wal_decode_def Let_def unat_gt_0 split: if_splits)

lemma Recover_loop_scan:
  assumes "reliable fs" and "sq_file reader = Some (p, off)" and "off \<le> length (file_bytes fs p)"
  shows "Recover_loop (length (file_bytes fs p)) off reader fs =
    scan_log wal_decode (drop off (file_bytes fs p))"
  using assms(2,3)
proof (induction "length (file_bytes fs p) - off" arbitrary: off reader rule: less_induct)
  case less
  let ?c = "file_bytes fs p"
  show ?case
  proof (cases "wal_decode (drop off ?c)")
    case None
    with less.prems assms(1) show ?thesis
      by (simp add: Recover_loop.simps [of _ off] scan_log.simps [of _ "drop off ?c"]
          Recover_record_decode)
  next
    case (Some rr)
    then obtain r rest where dec: "wal_decode (drop off ?c) = Some (r, rest)" by (cases rr) auto
    then obtain n where n: "8 < n" "n \<le> length ?c - off" and rest: "rest = drop (off + n) ?c"
      using wal_decode_rest [OF dec] by (auto simp: add.commute)
    have "Recover_loop (length ?c) (off + n) (reader\<lparr>sq_file := Some (p, off + n)\<rparr>) fs =
        scan_log wal_decode rest"
      using less.hyps [of "off + n"] n rest by simp
    moreover have "off < length ?c" "length rest < length (drop off ?c)"
      "length ?c - length rest = off + n"
      using n rest by auto
    ultimately show ?thesis
      using less.prems assms(1) dec
      by (simp add: Recover_loop.simps [of _ off] scan_log.simps [of _ "drop off ?c"]
          Recover_record_decode Let_def)
  qed
qed

lemma WAL_Recover_scan:
  assumes "reliable fs" and "content fs p = Some c" and "length c < 2 ^ 64"
  shows "WAL_Recover p fs = (Status_OK, scan_log wal_decode c)"
proof (cases "c = []")
  case True
  with assms show ?thesis
    by (simp add: WAL_Recover_def FileExists_def FileSize_def scan_log.simps wal_log.dec_empty)
next
  case False
  with assms have "u64_of (length c) \<noteq> 0"
    by (metis length_0_conv unat_0 unat_of_nat_64)
  with assms show ?thesis
    using Recover_loop_scan [of fs "SequentialFileReader_new\<lparr>sq_file := Some (p, 0)\<rparr>" p 0]
    by (simp add: WAL_Recover_def FileExists_def FileSize_def Seq_Open_def fopen_rb_def
        file_bytes_Some)
qed

text \<open>The state of a log that is open on a file, with everything handed to the system.\<close>

definition wal_open :: "WAL \<Rightarrow> path \<Rightarrow> bool" where
  "wal_open wal p \<longleftrightarrow> (\<exists>w. wal_writer wal = Some w \<and> open_on w p)"

lemma WAL_AddRecord_reliable:
  assumes "reliable fs" and "wal_open wal p"
  obtains wal' where "WAL_AddRecord r wal fs =
      (Status_OK, wal', set_content p (file_bytes fs p @ wal_encode r) fs)"
    and "wal_open wal' p" and "wal_current_id wal' = wal_current_id wal"
    and "wal_db_path wal' = wal_db_path wal"
  using assms
  by (auto simp: wal_open_def open_on_def WAL_AddRecord_def Let_def reliable_io)

fun WAL_AddRecords :: "WALRecord list \<Rightarrow> WAL \<Rightarrow> fs \<Rightarrow> Status \<times> WAL \<times> fs" where
  "WAL_AddRecords [] wal fs = (Status_OK, wal, fs)"
| "WAL_AddRecords (r # rs) wal fs =
     (let (s, wal, fs) = WAL_AddRecord r wal fs
      in if \<not> ok s then (s, wal, fs) else WAL_AddRecords rs wal fs)"

lemma WAL_AddRecords_reliable:
  assumes "reliable fs" and "wal_open wal p" and "content fs p = Some c"
  shows "\<exists>wal' fs'. WAL_AddRecords rs wal fs = (Status_OK, wal', fs') \<and> reliable fs' \<and>
    wal_open wal' p \<and> content fs' = (content fs)(p \<mapsto> c @ wal_log.log_of rs)"
  using assms
proof (induction rs arbitrary: wal fs c)
  case Nil
  then show ?case by auto
next
  case (Cons r rs)
  from Cons.prems(1,2) obtain wal1 where add: "WAL_AddRecord r wal fs =
      (Status_OK, wal1, set_content p (file_bytes fs p @ wal_encode r) fs)" "wal_open wal1 p"
    by (rule WAL_AddRecord_reliable)
  with Cons.prems Cons.IH [of "set_content p (c @ wal_encode r) fs" wal1 "c @ wal_encode r"]
  show ?case by (simp add: file_bytes_Some fun_upd_def [symmetric])
qed

section \<open>Properties\<close>

text \<open>
  C15: records added to an open log are recovered after a crash that cuts the file at any byte:
  recovery succeeds and returns the records whose bytes are complete, in order and without
  gaps, and all of them when nothing was cut.
\<close>
theorem wal_crash_recovery:
  assumes "reliable fs" and "wal_open wal p" and "content fs p = Some []"
    and "list_all wal_valid rs" and "length (concat (map wal_encode rs)) < 2 ^ 64"
  shows "\<exists>wal' fs'. WAL_AddRecords rs wal fs = (Status_OK, wal', fs') \<and>
    (\<forall>n. \<exists>k \<le> length rs.
       WAL_Recover p (set_content p (take n (file_bytes fs' p)) fs') = (Status_OK, take k rs) \<and>
       length (concat (map wal_encode (take k rs))) \<le> n \<and>
       (k < length rs \<longrightarrow> n < length (concat (map wal_encode (take (Suc k) rs)))))"
proof -
  obtain wal' fs' where add: "WAL_AddRecords rs wal fs = (Status_OK, wal', fs')" and rel: "reliable fs'"
    and con: "content fs' = (content fs)(p \<mapsto> wal_log.log_of rs)"
    using WAL_AddRecords_reliable [OF assms(1-3), of rs] by auto
  have fb: "file_bytes fs' p = wal_log.log_of rs" by (rule file_bytes_Some) (simp add: con)
  have "\<exists>k \<le> length rs. WAL_Recover p (set_content p (take n (file_bytes fs' p)) fs') = (Status_OK, take k rs) \<and>
       length (wal_log.log_of (take k rs)) \<le> n \<and> (k < length rs \<longrightarrow> n < length (wal_log.log_of (take (Suc k) rs)))" for n
  proof -
    have "WAL_Recover p (set_content p (take n (wal_log.log_of rs)) fs') =
        (Status_OK, scan_log wal_decode (take n (wal_log.log_of rs)))"
      using rel assms(5) by (intro WAL_Recover_scan) (simp_all add: wal_log.log_of_def)
    moreover obtain k where "k \<le> length rs" "scan_log wal_decode (take n (wal_log.log_of rs)) = take k rs"
      "length (wal_log.log_of (take k rs)) \<le> length (take n (wal_log.log_of rs))"
      "k < length rs \<longrightarrow> length (take n (wal_log.log_of rs)) < length (wal_log.log_of (take (Suc k) rs))"
      using wal_log.scan_prefix [OF assms(4), of "take n (wal_log.log_of rs)"] take_is_prefix by blast
    moreover have "length (wal_log.log_of (take (Suc k) rs)) \<le> length (wal_log.log_of rs)"
      by (metis append_take_drop_id le_add1 length_append wal_log.log_of_simps(3))
    ultimately show ?thesis unfolding fb by (intro exI [of _ k]) (auto simp: min_def split: if_splits)
  qed
  with add show ?thesis by (auto simp: wal_log.log_of_def)
qed

theorem wal_crash_recovery_witness:
  defines "r \<equiv> \<lparr>wal_type = kDeletion, wal_sequence = 5, wal_key = [1], wal_vlog_ptr = null_ptr\<rparr>"
  shows "case WAL_Create 1 (WAL_new (str ''db'')) empty_fs of
    (s, wal, fs) \<Rightarrow> ok s \<and> (\<exists>wal' fs'. WAL_AddRecords [r] wal fs = (Status_OK, wal', fs'))"
proof -
  let ?p = "WALFilePath (str ''db'') 1"
  obtain wal fs where c: "WAL_Create 1 (WAL_new (str ''db'')) empty_fs = (Status_OK, wal, fs)"
    and o: "wal_open wal ?p" "reliable fs" "content fs ?p = Some []"
    by (simp add: WAL_Create_def WAL_new_def Writer_Open_def Let_def wal_open_def open_on_def)
  show ?thesis
    using wal_crash_recovery [OF o(2,1,3), of "[r]"]
    by (auto simp: c wal_valid_def r_def length_wal_encode length_wal_inner)
qed

text \<open>
  C26: recovery never invents records: on any file, damaged in any way, \<open>Recover\<close> ends, reports
  success and returns the longest run of records that decode with a matching checksum.
\<close>
theorem wal_recover_any_file:
  assumes "reliable fs" and "content fs p = Some c" and "length c < 2 ^ 64"
  shows "WAL_Recover p fs = (Status_OK, scan_log wal_decode c)"
  using assms by (rule WAL_Recover_scan)

theorem wal_recover_any_file_witness:
  "WAL_Recover [7] (set_content [7] [1, 2, 3] empty_fs) = (Status_OK, [])"
  using wal_recover_any_file [of "set_content [7] [1, 2, 3] empty_fs" "[7]" "[1, 2, 3]"]
  by (simp add: scan_log.simps wal_decode_short)

end
