(* ===== verification/Vlog.thy ===== *)
theory Vlog
  imports Wal
begin

text \<open>
  The value log of \<open>vlog.h\<close>/\<open>vlog.cpp\<close>: numbered append-only files of checksummed
  records, rotation, reading by pointer through a cache of readers, and the sequential scan
  that garbage collection uses.
\<close>

section \<open>Records\<close>

definition kRecordHeaderSize :: nat where
  "kRecordHeaderSize = 9"

definition RecordSize :: "u32 \<Rightarrow> u32 \<Rightarrow> u32" where
  "RecordSize key_len value_len = 4 + 1 + 4 + key_len + 4 + value_len"

definition vlog_payload :: "bytes \<Rightarrow> bytes \<Rightarrow> ValueType \<Rightarrow> bytes" where
  "vlog_payload key val type =
     (let payload = [type];
          payload = PutFixed32 payload (u32_of (length key));
          payload = payload @ key;
          payload = PutFixed32 payload (u32_of (length val))
      in payload @ val)"

definition vlog_record :: "bytes \<Rightarrow> bytes \<Rightarrow> ValueType \<Rightarrow> bytes" where
  "vlog_record key val type =
     (let payload = vlog_payload key val type
      in PutFixed32 [] (CRC32 payload 0) @ payload)"

section \<open>The value log\<close>

record VLog =
  vl_db_path :: path
  vl_options :: Options
  vl_writer :: "SequentialFileWriter option"
  vl_current_file_id :: u32
  vl_current_offset :: u64
  vl_readers :: "u32 \<rightharpoonup> RandomAccessFileReader"

definition vlog_file_path :: "path \<Rightarrow> u32 \<Rightarrow> path" where
  "vlog_file_path db_path file_id =
     db_path @ str ''/vlog_'' @ pad5 (show_nat (unat file_id)) @ str ''.dat''"

definition VLogFilePath :: "VLog \<Rightarrow> u32 \<Rightarrow> path" where
  "VLogFilePath vl file_id = vlog_file_path (vl_db_path vl) file_id"

definition VLog_new :: "path \<Rightarrow> Options \<Rightarrow> VLog" where
  "VLog_new db_path options =
     \<lparr>vl_db_path = db_path, vl_options = options, vl_writer = None, vl_current_file_id = 0,
      vl_current_offset = 0, vl_readers = Map.empty\<rparr>"

text \<open>\<open>std::regex_match\<close> of a file name with \<open>vlog_(\d{5})\.dat\<close>.\<close>

definition vlog_name_id :: "bytes \<Rightarrow> u32 option" where
  "vlog_name_id name =
     (let ds = take 5 (drop 5 name)
      in if length name = 14 \<and> take 5 name = str ''vlog_'' \<and> list_all is_digit ds \<and>
            drop 10 name = str ''.dat''
         then Some (u32_of (dec_val ds)) else None)"

definition RecoverFileIds :: "VLog \<Rightarrow> fs \<Rightarrow> Status \<times> VLog" where
  "RecoverFileIds vl fs =
     (let (s, children) = GetChildren (vl_db_path vl) fs
      in if \<not> ok s then (s, vl)
         else
           (let max_id = fold (\<lambda>name max_id.
                  case vlog_name_id name of
                    None \<Rightarrow> max_id
                  | Some id' \<Rightarrow> if max_id < id' then id' else max_id) children 0
            in (Status_OK, vl\<lparr>vl_current_file_id := (if max_id = 0 then 1 else max_id)\<rparr>)))"

text \<open>The status of \<open>CreateDir\<close> is overwritten.\<close>

definition VLog_Open :: "VLog \<Rightarrow> fs \<Rightarrow> Status \<times> VLog \<times> fs" where
  "VLog_Open vl fs =
     (let (s, vl) = RecoverFileIds vl fs
      in if \<not> ok s then (s, vl, fs)
         else
           (let p = VLogFilePath vl (vl_current_file_id vl);
                (s, sz) = (if FileExists p fs then FileSize p fs else (Status_OK, Some 0))
            in case sz of
                 None \<Rightarrow> (s, vl, fs)
               | Some sz \<Rightarrow>
                   (let vl = vl\<lparr>vl_current_offset := sz\<rparr>;
                        (s, w, fs) = Writer_Open p True SequentialFileWriter_new fs
                    in if \<not> ok s then (s, vl\<lparr>vl_writer := None\<rparr>, fs)
                       else (Status_OK, vl\<lparr>vl_writer := Some w\<rparr>, fs))))"

text \<open>A writer that fails to sync or to close stays in \<open>writer_\<close>.\<close>

definition RotateFile :: "VLog \<Rightarrow> fs \<Rightarrow> Status \<times> VLog \<times> fs" where
  "RotateFile vl fs =
     (let (s, vl, fs) =
            (case vl_writer vl of
               None \<Rightarrow> (Status_OK, vl, fs)
             | Some w \<Rightarrow>
                 (let (s, w, fs) = Writer_Sync w fs
                  in if \<not> ok s then (s, vl\<lparr>vl_writer := Some w\<rparr>, fs)
                     else
                       (let (s, w, fs) = Writer_Close w fs
                        in if \<not> ok s then (s, vl\<lparr>vl_writer := Some w\<rparr>, fs)
                           else (Status_OK, vl\<lparr>vl_writer := None\<rparr>, fs))))
      in if \<not> ok s then (s, vl, fs)
         else
           (let vl = vl\<lparr>vl_current_file_id := vl_current_file_id vl + 1, vl_current_offset := 0\<rparr>;
                p = VLogFilePath vl (vl_current_file_id vl);
                (s, w, fs) = Writer_Open p False SequentialFileWriter_new fs
            in if \<not> ok s then (s, vl\<lparr>vl_writer := None\<rparr>, fs)
               else (Status_OK, vl\<lparr>vl_writer := Some w\<rparr>, fs)))"

text \<open>
  \<open>*ptr\<close> is filled in once the record is built, so an error of the write comes with a
  pointer, an error of the rotation without one. After the rotation \<open>writer_\<close> is not
  null.
\<close>

definition VLog_write ::
  "bytes \<Rightarrow> bytes \<Rightarrow> ValueType \<Rightarrow> VLog \<Rightarrow> fs \<Rightarrow> Status \<times> VLogPointer option \<times> VLog \<times> fs" where
  "VLog_write key val type vl fs =
     (let record = vlog_record key val type;
          ptr = \<lparr>ptr_file_id = vl_current_file_id vl, ptr_offset = vl_current_offset vl,
                 ptr_value_size = u32_of (length val)\<rparr>;
          (s, w) = Writer_Append (the (vl_writer vl)) record fs;
          vl = vl\<lparr>vl_writer := Some w\<rparr>
      in if \<not> ok s then (s, Some ptr, vl, fs)
         else
           (let vl = vl\<lparr>vl_current_offset := vl_current_offset vl + u64_of (length record)\<rparr>;
                (s, w, fs) = Writer_Flush w fs;
                vl = vl\<lparr>vl_writer := Some w\<rparr>
            in if \<not> ok s then (s, Some ptr, vl, fs)
               else if sync_writes (vl_options vl)
               then (let (s, w, fs) = Writer_Sync w fs
                     in (s, Some ptr, vl\<lparr>vl_writer := Some w\<rparr>, fs))
               else (Status_OK, Some ptr, vl, fs)))"

definition needs_rotation :: "u32 \<Rightarrow> VLog \<Rightarrow> bool" where
  "needs_rotation record_size vl \<longleftrightarrow>
     vlog_file_size_limit (vl_options vl) < unat (vl_current_offset vl + ucast record_size) \<and>
     0 < vl_current_offset vl"

definition VLog_Append ::
  "bytes \<Rightarrow> bytes \<Rightarrow> ValueType \<Rightarrow> VLog \<Rightarrow> fs \<Rightarrow> Status \<times> VLogPointer option \<times> VLog \<times> fs" where
  "VLog_Append key val type vl fs =
     (if vl_writer vl = None then (IOError (str ''VLog not open for writing''), None, vl, fs)
      else
        (let record_size = RecordSize (u32_of (length key)) (u32_of (length val));
             (s, vl, fs) = (if needs_rotation record_size vl then RotateFile vl fs
                            else (Status_OK, vl, fs))
         in if \<not> ok s then (s, None, vl, fs) else VLog_write key val type vl fs))"

definition OpenReader :: "u32 \<Rightarrow> VLog \<Rightarrow> fs \<Rightarrow> Status \<times> VLog" where
  "OpenReader file_id vl fs =
     (case vl_readers vl file_id of
        Some _ \<Rightarrow> (Status_OK, vl)
      | None \<Rightarrow>
          (let (s, reader) = Random_Open (VLogFilePath vl file_id) RandomAccessFileReader_new fs
           in if \<not> ok s then (s, vl)
              else (Status_OK, vl\<lparr>vl_readers := (vl_readers vl)(file_id \<mapsto> reader)\<rparr>)))"

text \<open>
  \<open>Read\<close> assigns \<open>*key\<close> and \<open>*value\<close> before it verifies the checksum; the model
  returns what is assigned beside the status. The sizes are 32-bit sums.
\<close>

definition read_record ::
  "VLogPointer \<Rightarrow> RandomAccessFileReader \<Rightarrow> fs \<Rightarrow> Status \<times> bytes option \<times> bytes option" where
  "read_record ptr reader fs =
     (let (s, header_buf) = Random_Read reader (unat (ptr_offset ptr)) kRecordHeaderSize fs in
      if \<not> ok s then (s, None, None)
      else if length header_buf < kRecordHeaderSize
      then (Corruption (str ''VLog record header truncated''), None, None)
      else let stored_crc = DecodeFixed32 header_buf;
               key_len = DecodeFixed32 (drop 5 header_buf);
               remaining = key_len + 4 + ptr_value_size ptr;
               (s, data_buf) = Random_Read reader
                 (unat (ptr_offset ptr + of_nat kRecordHeaderSize)) (unat remaining) fs in
      if \<not> ok s then (s, None, None)
      else if length data_buf < unat remaining
      then (Corruption (str ''VLog record data truncated''), None, None)
      else let key = take (unat key_len) data_buf;
               dp = drop (unat key_len) data_buf;
               val_len = DecodeFixed32 dp;
               dp = drop 4 dp in
      if val_len \<noteq> ptr_value_size ptr
      then (Corruption (str ''VLog value size mismatch''), Some key, None)
      else let val = take (unat val_len) dp;
               payload = [header_buf ! 4] @ take 4 (drop 5 header_buf) @ data_buf;
               computed_crc = CRC32 payload 0 in
      if computed_crc \<noteq> stored_crc
      then (Corruption (str ''VLog CRC mismatch''), Some key, Some val)
      else (Status_OK, Some key, Some val))"

definition VLog_Read ::
  "VLogPointer \<Rightarrow> VLog \<Rightarrow> fs \<Rightarrow> Status \<times> bytes option \<times> bytes option \<times> VLog" where
  "VLog_Read ptr vl fs =
     (let (s, vl) = OpenReader (ptr_file_id ptr) vl fs
      in if \<not> ok s then (s, None, None, vl)
         else (case vl_readers vl (ptr_file_id ptr) of
                 None \<Rightarrow> (IOError (str ''Reader not found after opening''), None, None, vl)
               | Some reader \<Rightarrow>
                   (let (s, key, val) = read_record ptr reader fs in (s, key, val, vl))))"

section \<open>The sequential scan\<close>

text \<open>
  One round of the loop of \<open>NewReader\<close> up to the callback: an error to return, the end
  of the scan, or a record.
\<close>

datatype scan_step =
    Scan_Error Status
  | Scan_Break
  | Scan_Record bytes bytes ValueType u32 SequentialFileReader

definition NewReader_record :: "nat \<Rightarrow> nat \<Rightarrow> SequentialFileReader \<Rightarrow> fs \<Rightarrow> scan_step" where
  "NewReader_record file_size offset reader fs =
     (if file_size < offset + kRecordHeaderSize then Scan_Break
      else let (s, header_buf, reader) = Seq_Read reader kRecordHeaderSize fs in
      if \<not> ok s then Scan_Error s
      else if length header_buf < kRecordHeaderSize then Scan_Break
      else let stored_crc = DecodeFixed32 header_buf;
               type_byte = header_buf ! 4;
               key_len = DecodeFixed32 (drop 5 header_buf);
               (s, key_buf, reader) = Seq_Read reader (unat key_len) fs in
      if \<not> ok s then Scan_Error s
      else if length key_buf < unat key_len then Scan_Break
      else let (s, vlen_buf, reader) = Seq_Read reader 4 fs in
      if \<not> ok s then Scan_Error s
      else if length vlen_buf < 4 then Scan_Break
      else let val_len = DecodeFixed32 vlen_buf;
               (s, val_buf, reader) = Seq_Read reader (unat val_len) fs in
      if \<not> ok s then Scan_Error s
      else if length val_buf < unat val_len then Scan_Break
      else let payload = [type_byte] @ take 4 (drop 5 header_buf) @ key_buf @ take 4 vlen_buf @ val_buf;
               computed_crc = CRC32 payload 0 in
      if computed_crc \<noteq> stored_crc then Scan_Break
      else Scan_Record key_buf val_buf type_byte (RecordSize key_len val_len) reader)"

definition seq_left :: "SequentialFileReader \<Rightarrow> fs \<Rightarrow> nat" where
  "seq_left reader fs =
     (case sq_file reader of None \<Rightarrow> 0 | Some (p, pos) \<Rightarrow> length (file_bytes fs p) - pos)"

lemma seq_left_Read:
  "Seq_Read reader n fs = (s, buf, reader') \<Longrightarrow>
    seq_left reader' fs = seq_left reader fs - length buf \<and> length buf \<le> seq_left reader fs"
  by (auto simp: Seq_Read_def seq_left_def Let_def split: option.splits prod.splits)

lemma NewReader_record_progress:
  assumes "NewReader_record file_size offset reader fs = Scan_Record k v t n reader'"
  shows "seq_left reader' fs < seq_left reader fs"
  using assms
  by (auto simp: NewReader_record_def Let_def kRecordHeaderSize_def
      split: if_splits prod.splits dest!: seq_left_Read)

text \<open>
  The callback is a function of the record and of the caller's captured state. Offsets are
  below the size of the file plus a 32-bit record size, so they do not wrap; the record size
  itself does, which is why the loop ends by what is left to read.
\<close>

function NewReader_loop ::
  "(bytes \<Rightarrow> bytes \<Rightarrow> ValueType \<Rightarrow> u64 \<Rightarrow> 's \<Rightarrow> Status \<times> 's) \<Rightarrow>
    nat \<Rightarrow> nat \<Rightarrow> SequentialFileReader \<Rightarrow> fs \<Rightarrow> 's \<Rightarrow> Status \<times> 's" where
  "NewReader_loop callback file_size offset reader fs st =
     (if offset < file_size
      then (case NewReader_record file_size offset reader fs of
              Scan_Error s \<Rightarrow> (s, st)
            | Scan_Break \<Rightarrow> (Status_OK, st)
            | Scan_Record key val type record_size reader \<Rightarrow>
                (let (s, st) = callback key val type (u64_of offset) st
                 in if \<not> ok s then (s, st)
                    else NewReader_loop callback file_size (offset + unat record_size) reader fs st))
      else (Status_OK, st))"
  by pat_completeness auto
termination
  by (relation "measure (\<lambda>(_, _, _, reader, fs, _). seq_left reader fs)")
    (auto dest: NewReader_record_progress)

declare NewReader_loop.simps [simp del]

definition NewReader ::
  "u32 \<Rightarrow> u64 \<Rightarrow> (bytes \<Rightarrow> bytes \<Rightarrow> ValueType \<Rightarrow> u64 \<Rightarrow> 's \<Rightarrow> Status \<times> 's) \<Rightarrow>
    VLog \<Rightarrow> fs \<Rightarrow> 's \<Rightarrow> Status \<times> 's" where
  "NewReader file_id start_offset callback vl fs st =
     (let p = VLogFilePath vl file_id;
          (s, reader) = Seq_Open p SequentialFileReader_new fs in
      if \<not> ok s then (s, st)
      else let (s, reader) = (if 0 < start_offset then Seq_Skip reader (unat start_offset) fs
                              else (Status_OK, reader)) in
      if \<not> ok s then (s, st)
      else (case FileSize p fs of
              (s, None) \<Rightarrow> (s, st)
            | (_, Some file_size) \<Rightarrow>
                NewReader_loop callback (unat file_size) (unat start_offset) reader fs st))"

definition VLog_Sync :: "VLog \<Rightarrow> fs \<Rightarrow> Status \<times> VLog \<times> fs" where
  "VLog_Sync vl fs =
     (case vl_writer vl of
        None \<Rightarrow> (Status_OK, vl, fs)
      | Some w \<Rightarrow> (let (s, w, fs) = Writer_Sync w fs in (s, vl\<lparr>vl_writer := Some w\<rparr>, fs)))"

text \<open>The status of the reader's \<open>Close\<close> is ignored.\<close>

definition RemoveReader :: "u32 \<Rightarrow> VLog \<Rightarrow> Status \<times> VLog" where
  "RemoveReader file_id vl =
     (Status_OK, vl\<lparr>vl_readers := (vl_readers vl)(file_id := None)\<rparr>)"

definition VLog_Close :: "VLog \<Rightarrow> fs \<Rightarrow> Status \<times> VLog \<times> fs" where
  "VLog_Close vl fs =
     (case vl_writer vl of
        None \<Rightarrow> (Status_OK, vl\<lparr>vl_readers := Map.empty\<rparr>, fs)
      | Some w \<Rightarrow>
          (let (s, w, fs) = Writer_Sync w fs;
               (s2, w, fs) = Writer_Close w fs
           in (if ok s then s2 else s, vl\<lparr>vl_writer := None, vl_readers := Map.empty\<rparr>, fs)))"

section \<open>The record format\<close>

type_synonym vrec = "bytes \<times> bytes \<times> ValueType"

definition vlog_encode :: "vrec \<Rightarrow> bytes" where
  "vlog_encode = (\<lambda>(k, v, t). vlog_record k v t)"

lemma vlog_encode_tuple [simp]: "vlog_encode (k, v, t) = vlog_record k v t"
  by (simp add: vlog_encode_def)

text \<open>The decoder that one round of the scan applies to the rest of the file.\<close>

definition vlog_decode :: "bytes \<Rightarrow> (vrec \<times> bytes) option" where
  "vlog_decode bs =
     (let klen = unat (DecodeFixed32 (drop 5 bs));
          vlen = unat (DecodeFixed32 (drop (9 + klen) bs))
      in if length bs < 9 \<or> length bs < 13 + klen \<or> length bs < 13 + klen + vlen \<or>
            CRC32 (take (9 + klen + vlen) (drop 4 bs)) 0 \<noteq> DecodeFixed32 bs
         then None
         else Some ((take klen (drop 9 bs), take vlen (drop (13 + klen) bs), bs ! 4),
                    drop (13 + klen + vlen) bs))"

text \<open>A record whose size fits the 32-bit sums.\<close>

definition vlog_valid :: "vrec \<Rightarrow> bool" where
  "vlog_valid = (\<lambda>(k, v, t). length k + length v + 13 < 2 ^ 32)"

lemma length_vlog_payload [length_simps]:
  "length (vlog_payload k v t) = 9 + length k + length v"
  by (simp add: vlog_payload_def Let_def PutFixed32_def)

lemma length_vlog_record [simp, length_simps]:
  "length (vlog_record k v t) = 13 + length k + length v"
  by (simp add: vlog_record_def Let_def PutFixed32_def length_vlog_payload)

lemma vlog_record_layout:
  "vlog_record k v t =
     EncodeFixed32 (CRC32 (vlog_payload k v t) 0) @ t # EncodeFixed32 (u32_of (length k)) @ k @
       EncodeFixed32 (u32_of (length v)) @ v"
  by (simp add: vlog_record_def vlog_payload_def Let_def PutFixed32_def)

lemma vlog_payload_layout:
  "vlog_payload k v t =
     t # EncodeFixed32 (u32_of (length k)) @ k @ EncodeFixed32 (u32_of (length v)) @ v"
  by (simp add: vlog_payload_def Let_def PutFixed32_def)

text \<open>The fields of a record at their offsets.\<close>

lemma vlog_fields:
  fixes k v rest :: bytes and t :: ValueType
  defines "bs \<equiv> vlog_record k v t @ rest"
  shows "DecodeFixed32 bs = CRC32 (vlog_payload k v t) 0" "bs ! 4 = t"
    "drop 5 bs = EncodeFixed32 (u32_of (length k)) @ k @ EncodeFixed32 (u32_of (length v)) @ v @ rest"
    "drop 9 bs = k @ EncodeFixed32 (u32_of (length v)) @ v @ rest"
    "drop 4 bs = vlog_payload k v t @ rest"
  unfolding bs_def
  by (simp_all add: vlog_record_layout vlog_payload_layout nth_append drop_Cons')

lemma vlog_decode_record:
  assumes "vlog_valid (k, v, t)"
  shows "vlog_decode (vlog_record k v t @ rest) = Some ((k, v, t), rest)"
proof -
  let ?bs = "vlog_record k v t @ rest"
  note f = vlog_fields [of k v t rest]
  from assms have n: "unat (u32_of (length k)) = length k" "unat (u32_of (length v)) = length v"
    by (simp_all add: vlog_valid_def)
  have d: "drop (9 + length k) ?bs = drop (length k) (drop 9 ?bs)"
    "drop (13 + length k) ?bs = drop (4 + length k) (drop 9 ?bs)"
    "drop (13 + length k + length v) ?bs = drop (4 + length k + length v) (drop 9 ?bs)"
    by (simp_all add: add.commute add.left_commute)
  have klen: "unat (DecodeFixed32 (drop 5 ?bs)) = length k"
    unfolding f by (simp only: DecodeFixed32_EncodeFixed32 n)
  have vlen: "unat (DecodeFixed32 (drop (9 + length k) ?bs)) = length v"
    unfolding d f by (simp add: n)
  have "take (9 + length k + length v) (drop 4 ?bs) = vlog_payload k v t"
    unfolding f by (simp add: length_vlog_payload)
  moreover have "take (length k) (drop 9 ?bs) = k" unfolding f by simp
  moreover have "take (length v) (drop (13 + length k) ?bs) = v" unfolding d f by simp
  moreover have "drop (13 + length k + length v) ?bs = rest" unfolding d f by simp
  ultimately show ?thesis
    unfolding vlog_decode_def Let_def klen vlen f(1,2) by (simp add: length_vlog_payload)
qed

lemma vlog_decode_torn:
  assumes "vlog_valid (k, v, t)" and "strict_prefix p (vlog_record k v t)"
  shows "vlog_decode p = None"
proof (cases "length p < 13 + length k")
  case False
  from assms(1) have n: "unat (u32_of (length k)) = length k" "unat (u32_of (length v)) = length v"
    by (simp_all add: vlog_valid_def)
  from assms(2) obtain u where u: "p @ u = vlog_record k v t"
    by (auto simp: strict_prefix_def prefix_def)
  note f = vlog_fields [of k v t "[]", simplified, folded u]
  have "DecodeFixed32 (drop 5 p) = DecodeFixed32 (take 4 (drop 5 (p @ u)))"
    using False by simp
  then have klen: "unat (DecodeFixed32 (drop 5 p)) = length k"
    unfolding f by (simp add: n)
  have "DecodeFixed32 (drop (9 + length k) p) =
      DecodeFixed32 (take 4 (drop (length k) (drop 9 (p @ u))))"
    using False by (simp add: add.commute)
  then have "unat (DecodeFixed32 (drop (9 + length k) p)) = length v"
    unfolding f by (simp add: n)
  with klen prefix_length_less [OF assms(2)] show ?thesis
    by (simp add: vlog_decode_def Let_def)
next
  case True
  show ?thesis
  proof (cases "length p < 9")
    case False
    from assms(1) have n: "unat (u32_of (length k)) = length k" by (simp add: vlog_valid_def)
    from assms(2) obtain u where u: "p @ u = vlog_record k v t"
      by (auto simp: strict_prefix_def prefix_def)
    have "DecodeFixed32 (drop 5 p) = DecodeFixed32 (take 4 (drop 5 (p @ u)))"
      using False by simp
    then have "unat (DecodeFixed32 (drop 5 p)) = length k"
      unfolding vlog_fields [of k v t "[]", simplified, folded u] by (simp add: n)
    with True show ?thesis by (simp add: vlog_decode_def Let_def)
  qed (simp add: vlog_decode_def Let_def)
qed

interpretation vlog_log: framed_log vlog_encode vlog_decode vlog_valid
proof
  show "vlog_encode r \<noteq> []" for r
    by (cases r) (simp add: vlog_encode_def vlog_record_layout)
  show "vlog_decode [] = None" by (simp add: vlog_decode_def)
  show "vlog_valid r \<Longrightarrow> vlog_decode (vlog_encode r @ rest) = Some (r, rest)" for r rest
    by (cases r) (simp add: vlog_encode_def vlog_decode_record)
  show "vlog_valid r \<Longrightarrow> strict_prefix t (vlog_encode r) \<Longrightarrow> vlog_decode t = None" for r t
    by (cases r) (auto simp: vlog_encode_def intro: vlog_decode_torn)
qed

section \<open>Reading by pointer\<close>

text \<open>A pointer that locates a put of a key and a value in the file it names.\<close>

definition vlog_at :: "fs \<Rightarrow> path \<Rightarrow> VLogPointer \<Rightarrow> bytes \<Rightarrow> bytes \<Rightarrow> bool" where
  "vlog_at fs db ptr k v \<longleftrightarrow>
     vlog_valid (k, v, kValue) \<and> ptr_value_size ptr = u32_of (length v) \<and>
     unat (ptr_offset ptr) + 9 < 2 ^ 64 \<and>
     (\<exists>pre post. content fs (vlog_file_path db (ptr_file_id ptr)) =
          Some (pre @ vlog_record k v kValue @ post) \<and> length pre = unat (ptr_offset ptr))"

lemma read_record_at:
  assumes "reliable fs" and "ra_file reader = Some (vlog_file_path db (ptr_file_id ptr))"
    and "vlog_at fs db ptr k v"
  shows "read_record ptr reader fs = (Status_OK, Some k, Some v)"
proof -
  from assms(3) obtain pre post
    where c: "file_bytes fs (vlog_file_path db (ptr_file_id ptr)) =
        pre @ vlog_record k v kValue @ post" and pre: "length pre = unat (ptr_offset ptr)"
      and vs: "ptr_value_size ptr = u32_of (length v)" and valid: "vlog_valid (k, v, kValue)"
      and off: "unat (ptr_offset ptr) + 9 < 2 ^ 64"
    by (auto simp: vlog_at_def file_bytes_Some)
  from valid have n: "unat (u32_of (length k)) = length k" "unat (u32_of (length v)) = length v"
    and sum: "length k + 4 + length v < 2 ^ 32"
    by (simp_all add: vlog_valid_def)
  have rem: "unat (u32_of (length k) + 4 + u32_of (length v)) = length k + 4 + length v"
    using unat_of_nat_32 [OF sum] by simp
  have off9: "unat (ptr_offset ptr + 9) = unat (ptr_offset ptr) + 9"
    using off unat_of_nat_64 [OF off] by (simp add: unat_plus_if')
  define hdr where "hdr = EncodeFixed32 (CRC32 (vlog_payload k v kValue) 0) @ kValue #
      EncodeFixed32 (u32_of (length k))"
  define dat where "dat = k @ EncodeFixed32 (u32_of (length v)) @ v"
  have rec: "vlog_record k v kValue = hdr @ dat" and lens: "length hdr = 9"
      "length dat = length k + 4 + length v"
    by (simp_all add: vlog_record_layout hdr_def dat_def)
  have r1: "Random_Read reader (unat (ptr_offset ptr)) kRecordHeaderSize fs = (Status_OK, hdr)"
    using assms(1,2) pre lens
    by (simp add: Random_Read_reliable c rec kRecordHeaderSize_def)
  have r2: "Random_Read reader (unat (ptr_offset ptr + 9)) (length k + 4 + length v) fs =
      (Status_OK, dat)"
    using assms(1,2) pre lens
    by (simp add: Random_Read_reliable c rec off9)
  have h: "DecodeFixed32 hdr = CRC32 (vlog_payload k v kValue) 0"
    "DecodeFixed32 (drop 5 hdr) = u32_of (length k)"
    "[hdr ! 4] @ take 4 (drop 5 hdr) @ dat = vlog_payload k v kValue"
    "hdr ! 4 # drop 5 hdr @ dat = vlog_payload k v kValue"
    by (simp_all add: hdr_def dat_def nth_append drop_Cons' vlog_payload_layout)
  have d: "take (length k) dat = k" "drop (length k) dat = EncodeFixed32 (u32_of (length v)) @ v"
    by (simp_all add: dat_def)
  show ?thesis
    unfolding read_record_def r1 Let_def prod.case h vs rem
    using lens by (simp add: kRecordHeaderSize_def r2 n d h(4))
qed

text \<open>The readers in the cache read the file they are filed under.\<close>

definition readers_ok :: "VLog \<Rightarrow> bool" where
  "readers_ok vl \<longleftrightarrow> (\<forall>i r. vl_readers vl i = Some r \<longrightarrow> ra_file r = Some (VLogFilePath vl i))"

lemma VLog_Read_at:
  assumes "reliable fs" and "readers_ok vl" and "vlog_at fs (vl_db_path vl) ptr k v"
  obtains vl' where "VLog_Read ptr vl fs = (Status_OK, Some k, Some v, vl')"
    and "readers_ok vl'" and "vl' = vl\<lparr>vl_readers := vl_readers vl'\<rparr>"
proof -
  define i where "i = ptr_file_id ptr"
  define vl' where "vl' = snd (OpenReader i vl fs)"
  have ex: "content fs (VLogFilePath vl i) \<noteq> None"
    using assms(3) by (auto simp: vlog_at_def VLogFilePath_def i_def)
  have o: "fst (OpenReader i vl fs) = Status_OK" "\<exists>r. vl_readers vl' i = Some r" "readers_ok vl'"
    "vl' = vl\<lparr>vl_readers := vl_readers vl'\<rparr>"
    using assms(1,2) ex
    by (auto simp: OpenReader_def Random_Open_def fopen_rb_def Let_def readers_ok_def vl'_def
        VLogFilePath_def split: option.splits)
  then obtain r where r: "vl_readers vl' i = Some r" by auto
  have db: "vl_db_path vl' = vl_db_path vl" using o(4) by (metis VLog.select_convs(1) VLog.surjective VLog.update_convs(6))
  have "ra_file r = Some (vlog_file_path (vl_db_path vl) i)"
    using o(3) r db by (auto simp: readers_ok_def VLogFilePath_def)
  then have "read_record ptr r fs = (Status_OK, Some k, Some v)"
    using assms(1,3) read_record_at by (simp add: i_def)
  moreover have "OpenReader i vl fs = (Status_OK, vl')"
    using o(1) by (simp add: prod_eq_iff vl'_def)
  ultimately have "VLog_Read ptr vl fs = (Status_OK, Some k, Some v, vl')"
    using r by (simp add: VLog_Read_def i_def [symmetric])
  with o show ?thesis by (intro that) auto
qed

section \<open>The scan visits every record\<close>

text \<open>The callback applied to a list of records at their offsets, until it reports an error.\<close>

fun scan_run ::
  "(bytes \<Rightarrow> bytes \<Rightarrow> ValueType \<Rightarrow> u64 \<Rightarrow> 's \<Rightarrow> Status \<times> 's) \<Rightarrow> nat \<Rightarrow> vrec list \<Rightarrow> 's \<Rightarrow> Status \<times> 's"
where
  "scan_run callback offset [] st = (Status_OK, st)"
| "scan_run callback offset ((k, v, t) # rs) st =
     (let (s, st) = callback k v t (u64_of offset) st
      in if \<not> ok s then (s, st)
         else scan_run callback (offset + length (vlog_record k v t)) rs st)"

lemma NewReader_record_decode:
  assumes "reliable fs" and "sq_file reader = Some (p, off)" and "off \<le> length (file_bytes fs p)"
  shows "NewReader_record (length (file_bytes fs p)) off reader fs =
    (case vlog_decode (drop off (file_bytes fs p)) of
       None \<Rightarrow> Scan_Break
     | Some ((k, v, t), rest) \<Rightarrow>
         Scan_Record k v t (RecordSize (u32_of (length k)) (u32_of (length v)))
           (reader\<lparr>sq_file := Some (p, length (file_bytes fs p) - length rest)\<rparr>))"
proof -
  define bs where "bs = drop off (file_bytes fs p)"
  have size: "length (file_bytes fs p) = off + length bs" using assms(3) by (simp add: bs_def)
  have at: "reader\<lparr>sq_file := Some (p, off)\<rparr> = reader" using assms(2) by simp
  have rd: "Seq_Read (reader\<lparr>sq_file := Some (p, off + k)\<rparr>) n fs =
      (Status_OK, take n (drop k bs),
       reader\<lparr>sq_file := Some (p, off + k + length (take n (drop k bs)))\<rparr>)" for k n
    using assms(1) by (simp add: Seq_Read_reliable bs_def add.commute)
  define klen where "klen = DecodeFixed32 (drop 5 bs)"
  define vlen where "vlen = DecodeFixed32 (drop (9 + unat klen) bs)"
  show ?thesis
  proof (cases "length bs < 9")
    case True
    then show ?thesis
      by (simp add: NewReader_record_def size vlog_decode_def kRecordHeaderSize_def
          flip: bs_def)
  next
    case False
    obtain hdr where hdr: "hdr = take 9 bs" by simp
    have h: "length hdr = 9" "DecodeFixed32 hdr = DecodeFixed32 bs" "hdr ! 4 = bs ! 4"
      "DecodeFixed32 (drop 5 hdr) = klen" "take 4 (drop 5 hdr) = take 4 (drop 5 bs)"
      using False by (simp_all add: hdr drop_take klen_def)
    have r1: "Seq_Read reader 9 fs = (Status_OK, hdr, reader\<lparr>sq_file := Some (p, off + 9)\<rparr>)"
      using rd [of 0 9] at False by (simp add: hdr)
    obtain kb where kb: "kb = take (unat klen) (drop 9 bs)" by simp
    have r2: "Seq_Read (reader\<lparr>sq_file := Some (p, off + 9)\<rparr>) (unat klen) fs =
        (Status_OK, kb, reader\<lparr>sq_file := Some (p, off + 9 + length kb)\<rparr>)"
      unfolding kb by (rule rd)
    note start = NewReader_record_def size kRecordHeaderSize_def r1 r2 h Let_def
    show ?thesis
    proof (cases "length bs < 9 + unat klen")
      case True
      with False have "length kb < unat klen" by (auto simp: kb)
      moreover from True have "vlog_decode bs = None"
        by (simp add: vlog_decode_def Let_def flip: klen_def)
      ultimately show ?thesis
        using False unfolding bs_def [symmetric] by (simp add: start)
    next
      case f2: False
      then have lk: "length kb = unat klen" by (auto simp: kb)
      obtain vb where vb: "vb = take 4 (drop (9 + unat klen) bs)" by simp
      have r3: "Seq_Read (reader\<lparr>sq_file := Some (p, off + 9 + unat klen)\<rparr>) 4 fs =
          (Status_OK, vb, reader\<lparr>sq_file := Some (p, off + 9 + unat klen + length vb)\<rparr>)"
        using rd [of "9 + unat klen" 4] by (simp add: vb add.assoc)
      show ?thesis
      proof (cases "length bs < 13 + unat klen")
        case True
        with f2 have "length vb < 4" by (auto simp: vb)
        moreover from True have "vlog_decode bs = None"
          by (simp add: vlog_decode_def Let_def flip: klen_def)
        ultimately show ?thesis
          using False unfolding bs_def [symmetric] by (simp add: start lk r3)
      next
        case f3: False
        then have lv: "length vb = 4" "DecodeFixed32 vb = vlen" "take 4 vb = vb"
          by (auto simp: vb vlen_def)
        obtain val where val: "val = take (unat vlen) (drop (13 + unat klen) bs)" by simp
        have r4: "Seq_Read (reader\<lparr>sq_file := Some (p, 13 + (off + unat klen))\<rparr>) (unat vlen) fs =
            (Status_OK, val, reader\<lparr>sq_file := Some (p, 13 + (off + unat klen) + length val)\<rparr>)"
          using rd [of "13 + unat klen" "unat vlen"] by (simp only: val ac_simps)
        have dec: "vlog_decode bs =
            (if length bs < 13 + unat klen + unat vlen \<or>
                CRC32 (take (9 + unat klen + unat vlen) (drop 4 bs)) 0 \<noteq> DecodeFixed32 bs
             then None
             else Some ((kb, val, bs ! 4), drop (13 + unat klen + unat vlen) bs))"
          using False f3 by (simp add: vlog_decode_def Let_def kb val flip: klen_def vlen_def)
        show ?thesis
        proof (cases "length bs < 13 + unat klen + unat vlen")
          case True
          with f3 have "length val < unat vlen" by (auto simp: val)
          with True show ?thesis
            using False unfolding bs_def [symmetric] by (simp add: start lk r3 r4 lv dec)
        next
          case f4: False
          then have lval: "length val = unat vlen" by (auto simp: val)
          have "drop 4 bs = bs ! 4 # drop 5 bs"
            using False Cons_nth_drop_Suc [of 4 bs] by simp
          also have "drop 5 bs = take 4 (drop 5 bs) @ drop 9 bs"
            using drop_split [of 5 bs 4] by simp
          also have "drop 9 bs = kb @ vb @ val @ drop (13 + unat klen + unat vlen) bs"
            using drop_split [of 9 bs "unat klen"] drop_split [of "9 + unat klen" bs 4]
              drop_split [of "13 + unat klen" bs "unat vlen"] by (simp add: kb vb val)
          finally have eq: "drop 4 bs = (bs ! 4 # take 4 (drop 5 bs) @ kb @ vb @ val) @
              drop (13 + unat klen + unat vlen) bs" by simp
          have pay: "take (9 + unat klen + unat vlen) (drop 4 bs) =
              bs ! 4 # take 4 (drop 5 bs) @ kb @ vb @ val"
            unfolding eq using False lk lv(1) lval by (intro take_append_exact) simp
          have us: "u32_of (length kb) = klen" "u32_of (length val) = vlen"
            by (simp_all add: lk lval)
          show ?thesis
            using False f3 f4 unfolding bs_def [symmetric]
            by (simp add: start lk r3 r4 lv lval dec pay us)
        qed
      qed
    qed
  qed
qed

lemma vlog_decode_rest:
  "vlog_decode bs = Some ((k, v, t), rest) \<Longrightarrow>
    length (vlog_record k v t) \<le> length bs \<and> rest = drop (length (vlog_record k v t)) bs"
  by (auto simp: vlog_decode_def Let_def min_def split: if_splits)

lemma RecordSize_valid:
  assumes "vlog_valid (k, v, t)"
  shows "unat (RecordSize (u32_of (length k)) (u32_of (length v))) = length (vlog_record k v t)"
proof -
  have "RecordSize (u32_of (length k)) (u32_of (length v)) = u32_of (13 + length k + length v)"
    by (simp add: RecordSize_def)
  moreover have "13 + length k + length v < 2 ^ 32"
    using assms by (simp add: vlog_valid_def)
  ultimately show ?thesis
    by (simp only: unat_of_nat_32 length_vlog_record)
qed

lemma NewReader_loop_scan:
  assumes "reliable fs" and "sq_file reader = Some (p, off)" and "off \<le> length (file_bytes fs p)"
    and "list_all vlog_valid (scan_log vlog_decode (drop off (file_bytes fs p)))"
  shows "NewReader_loop callback (length (file_bytes fs p)) off reader fs st =
    scan_run callback off (scan_log vlog_decode (drop off (file_bytes fs p))) st"
  using assms(2-)
proof (induction "length (file_bytes fs p) - off" arbitrary: off reader st rule: less_induct)
  case less
  let ?c = "file_bytes fs p"
  note unfold = NewReader_loop.simps [of _ _ off] scan_log.simps [of _ "drop off ?c"]
    NewReader_record_decode [OF assms(1) less.prems(1,2)]
  show ?case
  proof (cases "vlog_decode (drop off ?c)")
    case None
    then show ?thesis by (simp add: unfold)
  next
    case (Some x)
    then obtain k v t rest where dec: "vlog_decode (drop off ?c) = Some ((k, v, t), rest)"
      by (cases x) auto
    define n where "n = length (vlog_record k v t)"
    have n: "0 < n" "off + n \<le> length ?c" and rest: "rest = drop (off + n) ?c"
      using vlog_decode_rest [OF dec] less.prems(2) by (auto simp: n_def add.commute)
    then have lt: "length rest < length (drop off ?c)" and lr: "length ?c - length rest = off + n"
      by auto
    with dec have scan: "scan_log vlog_decode (drop off ?c) = (k, v, t) # scan_log vlog_decode rest"
      by (simp add: scan_log.simps [of _ "drop off ?c"])
    with less.prems(3) have valid: "vlog_valid (k, v, t)"
      "list_all vlog_valid (scan_log vlog_decode rest)" by simp_all
    have "NewReader_loop callback (length ?c) (off + n) (reader\<lparr>sq_file := Some (p, off + n)\<rparr>) fs st' =
        scan_run callback (off + n) (scan_log vlog_decode rest) st'" for st'
      using less.hyps [of "off + n"] n valid rest by simp
    with n dec show ?thesis
      unfolding scan
      by (simp add: NewReader_loop.simps [of _ _ off] lr RecordSize_valid [OF valid(1)]
          NewReader_record_decode [OF assms(1) less.prems(1,2)] n_def [symmetric]
          del: length_vlog_record split: prod.split)
  qed
qed

lemma NewReader_scan:
  assumes "reliable fs" and "content fs (VLogFilePath vl i) = Some c" and "length c < 2 ^ 64"
    and "list_all vlog_valid (scan_log vlog_decode c)"
  shows "NewReader i 0 callback vl fs st = scan_run callback 0 (scan_log vlog_decode c) st"
  using assms NewReader_loop_scan
      [of fs "SequentialFileReader_new\<lparr>sq_file := Some (VLogFilePath vl i, 0)\<rparr>" "VLogFilePath vl i" 0]
  by (simp add: NewReader_def Seq_Open_def fopen_rb_def FileSize_def file_bytes_Some)

section \<open>Appending\<close>

text \<open>
  The invariant of an open value log: its writer is open on the file of the current id,
  whose size is the current offset, and no file has a larger id.
\<close>

definition vl_ok :: "VLog \<Rightarrow> fs \<Rightarrow> bool" where
  "vl_ok vl fs \<longleftrightarrow>
     (\<exists>w c. vl_writer vl = Some w \<and> open_on w (VLogFilePath vl (vl_current_file_id vl)) \<and>
        content fs (VLogFilePath vl (vl_current_file_id vl)) = Some c \<and>
        length c = unat (vl_current_offset vl)) \<and>
     unat (vl_current_offset vl) < 2 ^ 63 \<and> vlog_file_size_limit (vl_options vl) < 2 ^ 63 \<and>
     readers_ok vl \<and>
     (\<forall>i. content fs (VLogFilePath vl i) \<noteq> None \<longrightarrow> i \<le> vl_current_file_id vl)"

text \<open>A file system in which files have only grown.\<close>

definition grown :: "fs \<Rightarrow> fs \<Rightarrow> bool" where
  "grown fs fs' \<longleftrightarrow> (\<forall>p c. content fs p = Some c \<longrightarrow> (\<exists>d. content fs' p = Some (c @ d)))"

lemma grown_refl [simp]: "grown fs fs"
  by (simp add: grown_def)

lemma grown_trans: "grown a b \<Longrightarrow> grown b c \<Longrightarrow> grown a c"
  by (fastforce simp: grown_def)

lemma vlog_at_grown: "grown fs fs' \<Longrightarrow> vlog_at fs db ptr k v \<Longrightarrow> vlog_at fs' db ptr k v"
  by (fastforce simp: grown_def vlog_at_def)

lemma vlog_file_path_inj [simp]: "vlog_file_path db i = vlog_file_path db j \<longleftrightarrow> i = j"
  by (auto simp: vlog_file_path_def dest!: pad5_inj simp: word_unat_eq_iff)

lemma RotateFile_reliable:
  assumes "reliable fs" and "vl_ok vl fs" and "vl_current_file_id vl + 1 \<noteq> 0"
  defines "i \<equiv> vl_current_file_id vl + 1"
  obtains w fs' where "RotateFile vl fs =
      (Status_OK, vl\<lparr>vl_writer := Some w, vl_current_file_id := i, vl_current_offset := 0\<rparr>, fs')"
    and "open_on w (VLogFilePath vl i)" and "reliable fs'"
    and "content fs' = (content fs)(VLogFilePath vl i \<mapsto> [])"
proof -
  let ?p = "VLogFilePath vl (vl_current_file_id vl)"
  from assms(2) obtain w c where w: "vl_writer vl = Some w" "open_on w ?p" "content fs ?p = Some c"
    by (auto simp: vl_ok_def)
  have "content fs = (content fs)(?p \<mapsto> c)" using w(3) by auto
  then have upd: "(content fs)(?p \<mapsto> c, q \<mapsto> []) = (content fs)(q \<mapsto> [])" for q
    by metis
  show ?thesis
    by (rule that [of "SequentialFileWriter_new\<lparr>wr_file :=
          Some \<lparr>file_path = VLogFilePath vl i, file_buf = []\<rparr>, wr_offset := 0\<rparr>"
          "snd (snd (RotateFile vl fs))"])
      (use assms w upd in \<open>auto simp: RotateFile_def open_on_def reliable_io Let_def Writer_Open_def
        i_def VLogFilePath_def file_bytes_Some\<close>)
qed

lemma VLog_write_reliable:
  assumes "reliable fs" and "vl_writer vl = Some w" and "open_on w p" and "content fs p = Some c"
  obtains w' fs' where "VLog_write k v t vl fs =
      (Status_OK,
       Some \<lparr>ptr_file_id = vl_current_file_id vl, ptr_offset = vl_current_offset vl,
         ptr_value_size = u32_of (length v)\<rparr>,
       vl\<lparr>vl_writer := Some w',
         vl_current_offset := vl_current_offset vl + u64_of (length (vlog_record k v t))\<rparr>, fs')"
    and "open_on w' p" and "reliable fs'" and "content fs' = (content fs)(p \<mapsto> c @ vlog_record k v t)"
proof -
  let ?r = "VLog_write k v t vl fs"
  show ?thesis
    by (rule that [of "the (vl_writer (fst (snd (snd ?r))))" "snd (snd (snd ?r))"])
      (use assms in \<open>auto simp: VLog_write_def open_on_def reliable_io Let_def file_bytes_Some
        simp del: length_vlog_record\<close>)
qed

text \<open>A pointer whose record the scan reaches, and files that are records to their end.\<close>

definition vlog_scan_at :: "fs \<Rightarrow> path \<Rightarrow> VLogPointer \<Rightarrow> bytes \<Rightarrow> bytes \<Rightarrow> bool" where
  "vlog_scan_at fs db ptr k v \<longleftrightarrow>
     (\<exists>rs post. list_all vlog_valid rs \<and>
        content fs (vlog_file_path db (ptr_file_id ptr)) =
          Some (vlog_log.log_of rs @ vlog_record k v kValue @ post) \<and>
        length (vlog_log.log_of rs) = unat (ptr_offset ptr))"

definition vlogs_clean :: "fs \<Rightarrow> path \<Rightarrow> bool" where
  "vlogs_clean fs db \<longleftrightarrow>
     (\<forall>i c. content fs (vlog_file_path db i) = Some c \<longrightarrow>
        length c < 2 ^ 64 \<and> (\<exists>rs. list_all vlog_valid rs \<and> c = vlog_log.log_of rs))"

definition vlog_stored :: "fs \<Rightarrow> path \<Rightarrow> VLogPointer \<Rightarrow> bytes \<Rightarrow> bytes \<Rightarrow> bool" where
  "vlog_stored fs db ptr k v \<longleftrightarrow> vlog_at fs db ptr k v \<and> vlog_scan_at fs db ptr k v"

lemma vlog_scan_at_grown: "grown fs fs' \<Longrightarrow> vlog_scan_at fs db ptr k v \<Longrightarrow> vlog_scan_at fs' db ptr k v"
  by (fastforce simp: grown_def vlog_scan_at_def)

lemma vlog_stored_grown: "grown fs fs' \<Longrightarrow> vlog_stored fs db ptr k v \<Longrightarrow> vlog_stored fs' db ptr k v"
  by (auto simp: vlog_stored_def intro: vlog_at_grown vlog_scan_at_grown)

text \<open>Both depend on the files of the value log only.\<close>

lemma vlog_stored_cong:
  "content fs' (vlog_file_path db (ptr_file_id ptr)) = content fs (vlog_file_path db (ptr_file_id ptr)) \<Longrightarrow>
    vlog_stored fs' db ptr k v = vlog_stored fs db ptr k v"
  by (simp add: vlog_stored_def vlog_at_def vlog_scan_at_def)

lemma vlogs_clean_cong:
  "(\<And>i. content fs' (vlog_file_path db i) = content fs (vlog_file_path db i)) \<Longrightarrow>
    vlogs_clean fs' db = vlogs_clean fs db"
  by (simp add: vlogs_clean_def)

text \<open>What a successful append does: the new pointer locates the record, and nothing else changes.\<close>

definition appended ::
  "bytes \<Rightarrow> bytes \<Rightarrow> VLog \<Rightarrow> fs \<Rightarrow> VLogPointer \<Rightarrow> VLog \<Rightarrow> fs \<Rightarrow> bool" where
  "appended k v vl fs ptr vl' fs' \<longleftrightarrow>
     reliable fs' \<and> vl_ok vl' fs' \<and> vl_db_path vl' = vl_db_path vl \<and>
     vl_options vl' = vl_options vl \<and> grown fs fs' \<and>
     (\<forall>q. (\<forall>i. q \<noteq> VLogFilePath vl i) \<longrightarrow> content fs' q = content fs q) \<and>
     vlog_at fs' (vl_db_path vl) ptr k v \<and> ptr_file_id ptr = vl_current_file_id vl' \<and>
     vl_current_file_id vl \<le> vl_current_file_id vl' \<and>
     unat (vl_current_file_id vl') \<le> Suc (unat (vl_current_file_id vl)) \<and>
     (vlogs_clean fs (vl_db_path vl) \<longrightarrow>
        vlog_scan_at fs' (vl_db_path vl) ptr k v \<and> vlogs_clean fs' (vl_db_path vl))"

lemma VLog_write_appended:
  assumes rel: "reliable fs" and ok: "vl_ok vl fs" and valid: "vlog_valid (k, v, kValue)"
    and room: "unat (vl_current_offset vl) + length (vlog_record k v kValue) < 2 ^ 63"
  shows "\<exists>ptr vl' fs'. VLog_write k v kValue vl fs = (Status_OK, Some ptr, vl', fs') \<and>
    appended k v vl fs ptr vl' fs' \<and> vl_current_file_id vl' = vl_current_file_id vl"
proof -
  let ?i = "vl_current_file_id vl" and ?o = "vl_current_offset vl"
  let ?p = "VLogFilePath vl ?i" and ?n = "length (vlog_record k v kValue)"
  let ?ptr = "\<lparr>ptr_file_id = ?i, ptr_offset = ?o, ptr_value_size = u32_of (length v)\<rparr>"
  from ok obtain w c where w: "vl_writer vl = Some w" "open_on w ?p" "content fs ?p = Some c"
    and len: "length c = unat ?o"
    by (auto simp: vl_ok_def)
  obtain w' fs' where wr: "VLog_write k v kValue vl fs = (Status_OK, Some ?ptr,
      vl\<lparr>vl_writer := Some w', vl_current_offset := ?o + u64_of ?n\<rparr>, fs')"
    and w': "open_on w' ?p" and fs': "reliable fs'"
    and con: "content fs' = (content fs)(?p \<mapsto> c @ vlog_record k v kValue)"
    using rel w by (rule VLog_write_reliable)
  have off: "unat (?o + u64_of ?n) = unat ?o + ?n"
    using room by (simp add: unat_plus_if' unat_of_nat)
  let ?vl' = "vl\<lparr>vl_writer := Some w', vl_current_offset := ?o + u64_of ?n\<rparr>"
  have "vl_ok ?vl' fs'"
    using ok w' con len off room by (auto simp: vl_ok_def VLogFilePath_def readers_ok_def)
  moreover have "vlog_at fs' (vl_db_path vl) ?ptr k v"
    unfolding vlog_at_def
    by (intro conjI exI [of _ c] exI [of _ "[]"]) (use valid len room con in \<open>auto simp: VLogFilePath_def\<close>)
  moreover have "grown fs fs'" using con w(3) by (auto simp: grown_def)
  moreover have "vlog_scan_at fs' (vl_db_path vl) ?ptr k v \<and> vlogs_clean fs' (vl_db_path vl)"
    if cl: "vlogs_clean fs (vl_db_path vl)"
  proof -
    from cl w(3) obtain rs where rs: "list_all vlog_valid rs" "c = vlog_log.log_of rs"
      by (auto simp: vlogs_clean_def VLogFilePath_def)
    have "c @ vlog_record k v kValue = vlog_log.log_of (rs @ [(k, v, kValue)])"
      by (simp add: rs)
    with con have c': "content fs' ?p = Some (vlog_log.log_of (rs @ [(k, v, kValue)]))" by simp
    have "vlog_scan_at fs' (vl_db_path vl) ?ptr k v"
      unfolding vlog_scan_at_def
      by (intro exI [of _ rs] exI [of _ "[]"]) (use rs len c' in \<open>auto simp: VLogFilePath_def\<close>)
    moreover have "vlogs_clean fs' (vl_db_path vl)"
      unfolding vlogs_clean_def
    proof (intro allI impI)
      fix i d assume d: "content fs' (vlog_file_path (vl_db_path vl) i) = Some d"
      show "length d < 2 ^ 64 \<and> (\<exists>rs. list_all vlog_valid rs \<and> d = vlog_log.log_of rs)"
      proof (cases "i = ?i")
        case True
        with d c' have "d = vlog_log.log_of (rs @ [(k, v, kValue)])" by (simp add: VLogFilePath_def)
        moreover have "d = c @ vlog_record k v kValue" using d con True by (simp add: VLogFilePath_def)
        then have "length d < 2 ^ 64" using len room by simp
        ultimately show ?thesis using rs(1) valid by (intro conjI exI [of _ "rs @ [(k, v, kValue)]"]) auto
      next
        case False
        with d con cl show ?thesis by (simp add: vlogs_clean_def VLogFilePath_def)
      qed
    qed
    ultimately show ?thesis ..
  qed
  ultimately have "appended k v vl fs ?ptr ?vl' fs'"
    using fs' con by (auto simp: appended_def)
  with wr show ?thesis by fastforce
qed

lemma VLog_Append_appended:
  assumes rel: "reliable fs" and ok: "vl_ok vl fs" and valid: "vlog_valid (k, v, kValue)"
    and ids: "vl_current_file_id vl + 1 \<noteq> 0"
  obtains ptr vl' fs' where "VLog_Append k v kValue vl fs = (Status_OK, Some ptr, vl', fs')"
    and "appended k v vl fs ptr vl' fs'"
proof -
  let ?rs = "RecordSize (u32_of (length k)) (u32_of (length v))"
  let ?n = "length (vlog_record k v kValue)"
  have rs: "unat ?rs = ?n" using valid by (rule RecordSize_valid)
  have n: "?n < 2 ^ 32" using valid by (simp add: vlog_valid_def)
  have open_w: "vl_writer vl \<noteq> None" using ok by (auto simp: vl_ok_def)
  show ?thesis
  proof (cases "needs_rotation ?rs vl")
    case False
    have "unat (vl_current_offset vl + ucast ?rs) = unat (vl_current_offset vl) + ?n"
      using ok rs n by (simp add: unat_plus_if' vl_ok_def)
    with False ok n have "unat (vl_current_offset vl) + ?n < 2 ^ 63"
      by (auto simp: needs_rotation_def vl_ok_def word_gt_0)
    from VLog_write_appended [OF rel ok valid this] False open_w that show ?thesis
      by (auto simp: VLog_Append_def Let_def)
  next
    case True
    let ?i = "vl_current_file_id vl + 1"
    obtain w fs1 where rot: "RotateFile vl fs =
        (Status_OK, vl\<lparr>vl_writer := Some w, vl_current_file_id := ?i, vl_current_offset := 0\<rparr>, fs1)"
      and w: "open_on w (VLogFilePath vl ?i)" and fs1: "reliable fs1"
      and con: "content fs1 = (content fs)(VLogFilePath vl ?i \<mapsto> [])"
      using rel ok ids by (rule RotateFile_reliable)
    let ?vl1 = "vl\<lparr>vl_writer := Some w, vl_current_file_id := ?i, vl_current_offset := 0\<rparr>"
    have lt: "vl_current_file_id vl < ?i" using ids by (rule less_Suc_nonzero)
    then have new: "content fs (VLogFilePath vl ?i) = None"
      using ok by (fastforce simp: vl_ok_def)
    have ok1: "vl_ok ?vl1 fs1"
      using ok w con lt by (auto simp: vl_ok_def VLogFilePath_def readers_ok_def)
    from VLog_write_appended [OF fs1 ok1 valid] n obtain ptr vl' fs'
      where wr: "VLog_write k v kValue ?vl1 fs1 = (Status_OK, Some ptr, vl', fs')"
        and app: "appended k v ?vl1 fs1 ptr vl' fs'" and i': "vl_current_file_id vl' = ?i"
      by auto
    have "grown fs fs1" using con new by (auto simp: grown_def)
    then have g: "grown fs fs'" using app by (auto simp: appended_def intro: grown_trans)
    have cl: "vlogs_clean fs1 (vl_db_path vl)" if "vlogs_clean fs (vl_db_path vl)"
      using that con by (auto simp: vlogs_clean_def VLogFilePath_def intro!: exI [of _ "[]"])
    have "appended k v vl fs ptr vl' fs'"
      using app g con lt cl i' unat_Suc_nonzero [OF ids] by (auto simp: appended_def VLogFilePath_def)
    with rot wr True open_w that show ?thesis
      by (auto simp: VLog_Append_def Let_def)
  qed
qed

text \<open>The invariant depends on the value log's own files only.\<close>

lemma vl_ok_cong:
  "(\<And>i. content fs' (VLogFilePath vl i) = content fs (VLogFilePath vl i)) \<Longrightarrow> vl_ok vl fs' = vl_ok vl fs"
  by (simp add: vl_ok_def)

section \<open>Properties\<close>

text \<open>
  C16: appending a value succeeds, rotating to a new file when the current one is full, and the
  returned pointer reads back the key and the value; every pointer that read a value before
  still reads the same one.
\<close>
theorem vlog_append_read:
  assumes "reliable fs" and "vl_ok vl fs" and "vlog_valid (k, v, kValue)"
    and "vl_current_file_id vl + 1 \<noteq> 0"
  shows "\<exists>ptr vl' fs'. VLog_Append k v kValue vl fs = (Status_OK, Some ptr, vl', fs') \<and> vl_ok vl' fs' \<and>
    fst (VLog_Read ptr vl' fs') = Status_OK \<and> fst (snd (snd (VLog_Read ptr vl' fs'))) = Some v \<and>
    (\<forall>ptr0 k0 v0. vlog_at fs (vl_db_path vl) ptr0 k0 v0 \<longrightarrow>
       fst (VLog_Read ptr0 vl' fs') = Status_OK \<and> fst (snd (snd (VLog_Read ptr0 vl' fs'))) = Some v0)"
proof -
  obtain ptr vl' fs' where app: "VLog_Append k v kValue vl fs = (Status_OK, Some ptr, vl', fs')"
    and a: "appended k v vl fs ptr vl' fs'"
    by (rule VLog_Append_appended [OF assms])
  from a have rel: "reliable fs'" and ok: "vl_ok vl' fs'" and g: "grown fs fs'"
    and db: "vl_db_path vl' = vl_db_path vl" and at: "vlog_at fs' (vl_db_path vl) ptr k v"
    by (simp_all add: appended_def)
  have rd: "fst (VLog_Read q vl' fs') = Status_OK \<and> fst (snd (snd (VLog_Read q vl' fs'))) = Some w"
    if "vlog_at fs' (vl_db_path vl) q j w" for q j w
    by (rule VLog_Read_at [OF rel, of vl' q j w]) (use that ok db in \<open>auto simp: vl_ok_def\<close>)
  show ?thesis
    using app ok rd [OF at] rd [OF vlog_at_grown [OF g]] by blast
qed

lemma VLog_Open_empty:
  assumes "vlog_file_size_limit opts < 2 ^ 63"
  obtains vl fs where "VLog_Open (VLog_new dbp opts) empty_fs = (Status_OK, vl, fs)"
    and "reliable fs" and "vl_ok vl fs" and "vl_current_file_id vl = 1"
proof -
  let ?r = "VLog_Open (VLog_new dbp opts) empty_fs"
  have ch: "GetChildren dbp empty_fs = (Status_OK, [])"
    by (simp add: GetChildren_def empty_fs_def map_filter_def)
  show ?thesis
    by (rule that [of "fst (snd ?r)" "snd (snd ?r)"])
      (use assms ch in \<open>auto simp: VLog_Open_def RecoverFileIds_def VLog_new_def Let_def FileExists_def
        Writer_Open_def vl_ok_def open_on_def readers_ok_def VLogFilePath_def file_bytes_def
        SequentialFileWriter_new_def split: if_splits\<close>)
qed

theorem vlog_append_read_witness:
  "case VLog_Open (VLog_new (str ''db'') (default_Options (\<lambda>_ _. True))) empty_fs of (s, vl, fs) \<Rightarrow>
     ok s \<and> (\<exists>ptr vl' fs'. VLog_Append [1] [2, 3] kValue vl fs = (Status_OK, Some ptr, vl', fs') \<and>
       fst (snd (snd (VLog_Read ptr vl' fs'))) = Some [2, 3])"
proof -
  obtain vl fs where o: "VLog_Open (VLog_new (str ''db'') (default_Options (\<lambda>_ _. True))) empty_fs = (Status_OK, vl, fs)"
    "reliable fs" "vl_ok vl fs" "vl_current_file_id vl = 1"
    by (rule VLog_Open_empty [of "default_Options (\<lambda>_ _. True)" "str ''db''"]) (simp add: default_Options_def)
  show ?thesis
    using vlog_append_read [OF o(2,3), of "[1]" "[2, 3]"] o(1,4) by (auto simp: vlog_valid_def)
qed

text \<open>
  C23: scanning a file that holds whole records followed by a torn one calls the callback on
  exactly the whole records, in order, each with its offset in the file, and reports success.
\<close>
theorem vlog_scan_correct:
  assumes "reliable fs" and "content fs (VLogFilePath vl i) = Some (concat (map vlog_encode rs) @ torn)"
    and "list_all vlog_valid (rs @ [r])" and "strict_prefix torn (vlog_encode r)"
    and "length (concat (map vlog_encode rs) @ torn) < 2 ^ 64"
  shows "NewReader i 0 callback vl fs st = scan_run callback 0 rs st"
proof -
  have "scan_log vlog_decode (vlog_log.log_of rs @ torn) = rs"
    using assms(3,4) by (rule vlog_log.scan_torn)
  with NewReader_scan [OF assms(1,2,5)] assms(3) show ?thesis
    by (simp add: vlog_log.log_of_def list_all_iff)
qed

theorem vlog_scan_correct_witness:
  defines "cb \<equiv> \<lambda>k v t off (st :: (bytes \<times> u64) list). (Status_OK, (k, off) # st)"
  shows "NewReader 1 0 cb (VLog_new [] (default_Options (\<lambda>_ _. True)))
     (set_content (vlog_file_path [] 1) (vlog_record [1] [2] kValue) empty_fs) [] = (Status_OK, [([1], 0)])"
  using vlog_scan_correct [of "set_content (vlog_file_path [] 1) (vlog_record [1] [2] kValue) empty_fs"
      "VLog_new [] (default_Options (\<lambda>_ _. True))" 1 "[([1], [2], kValue)]" "[]" "([1], [2], kValue)" cb "[]"]
  by (simp add: VLogFilePath_def VLog_new_def vlog_valid_def strict_prefix_def cb_def
      vlog_log.enc_nonempty [of "([1], [2], kValue)", simplified, symmetric])

end
