(* ===== verification/Bloom_Filter.thy ===== *)
theory Bloom_Filter
  imports Coding
begin

text \<open>
  The Bloom filter of \<open>bloom_filter.h\<close>/\<open>bloom_filter.cpp\<close>, with its
  MurmurHash3-style hash at 32 bits and the double-hashed bit positions at 64 bits, as in
  the source. \<open>membership_filter\<close> is the contract an SSTable relies on: a key that was
  put into the filter is never reported absent, so that skipping a file on a negative
  answer loses nothing.
\<close>

section \<open>Definitions\<close>

record BloomFilter =
  bits_per_key :: nat
  num_hashes :: nat
  filter_data :: bytes

text \<open>
  \<open>static_cast<size_t>(bits_per_key * 0.6931471805599453)\<close>, computed with the decimal
  literal. Below 44 the product is at least 1/100 away from every integer it could be
  rounded across (\<open>hash_count_margin\<close>), far more than the rounding error of the
  \<open>double\<close> product; from 44 on the result is capped at 30 either way.
\<close>

definition hash_count :: "nat \<Rightarrow> nat" where
  "hash_count bits = bits * 6931471805599453 div 10 ^ 16"

definition BloomFilter_new :: "nat \<Rightarrow> BloomFilter" where
  "BloomFilter_new bits =
     (let k = hash_count bits;
          k = (if k < 1 then 1 else k);
          k = (if 30 < k then 30 else k)
      in \<lparr>bits_per_key = bits, num_hashes = k, filter_data = []\<rparr>)"

definition rotl32 :: "nat \<Rightarrow> u32 \<Rightarrow> u32" where
  "rotl32 n k = push_bit n k OR drop_bit (32 - n) k"

definition hash_c1 :: u32 where "hash_c1 = 0xcc9e2d51"
definition hash_c2 :: u32 where "hash_c2 = 0x1b873593"

text \<open>One round of the body: \<open>memcpy\<close> of four bytes reads a little-endian word.\<close>

definition hash_block :: "u32 \<Rightarrow> u32 \<Rightarrow> u32" where
  "hash_block h k = rotl32 13 (h XOR rotl32 15 (k * hash_c1) * hash_c2) * 5 + 0xe6546b64"

fun hash_body :: "u32 \<Rightarrow> bytes \<Rightarrow> u32 \<times> bytes" where
  "hash_body h (a # b # c # d # rest) = hash_body (hash_block h (DecodeFixed32 [a, b, c, d])) rest"
| "hash_body h tail = (h, tail)"

definition hash_tail :: "u32 \<Rightarrow> bytes \<Rightarrow> u32" where
  "hash_tail h tail =
     (let k1 = (if 3 \<le> length tail then push_bit 16 (ucast (tail ! 2)) else 0);
          k1 = k1 XOR (if 2 \<le> length tail then push_bit 8 (ucast (tail ! 1)) else 0)
      in if 1 \<le> length tail
         then h XOR rotl32 15 ((k1 XOR ucast (tail ! 0)) * hash_c1) * hash_c2
         else h)"

definition hash_final :: "u32 \<Rightarrow> nat \<Rightarrow> u32" where
  "hash_final h len =
     (let h = h XOR u32_of len;
          h = h XOR drop_bit 16 h;
          h = h * 0x85ebca6b;
          h = h XOR drop_bit 13 h;
          h = h * 0xc2b2ae35
      in h XOR drop_bit 16 h)"

definition Hash :: "bytes \<Rightarrow> u32 \<Rightarrow> u32" where
  "Hash key seed = (case hash_body seed key of (h, tail) \<Rightarrow> hash_final (hash_tail h tail) (length key))"

definition bit_pos :: "u64 \<Rightarrow> u32 \<Rightarrow> u32 \<Rightarrow> nat \<Rightarrow> u32" where
  "bit_pos num_bits h1 h2 i = ucast ((ucast h1 + u64_of i * ucast h2) mod num_bits)"

definition set_bit_at :: "bytes \<Rightarrow> u32 \<Rightarrow> bytes" where
  "set_bit_at data pos =
     (let j = unat (pos div 8) in data[j := data ! j OR push_bit (unat (pos mod 8)) 1])"

definition add_key :: "nat \<Rightarrow> u64 \<Rightarrow> bytes \<Rightarrow> bytes \<Rightarrow> bytes" where
  "add_key nhashes num_bits data key =
     (let h1 = Hash key 0xbc9f1d34; h2 = Hash key 0xef017832
      in foldl (\<lambda>data i. set_bit_at data (bit_pos num_bits h1 h2 i)) data [0..<nhashes])"

definition CreateFilter :: "BloomFilter \<Rightarrow> bytes list \<Rightarrow> BloomFilter" where
  "CreateFilter bf keys =
     (if length keys = 0 then bf\<lparr>filter_data := []\<rparr>
      else
        (let num_bits = u64_of (length keys) * u64_of (bits_per_key bf);
             num_bits = (if num_bits < 64 then 64 else num_bits);
             num_bytes = (num_bits + 7) div 8;
             num_bits = num_bytes * 8
         in bf\<lparr>filter_data :=
              foldl (add_key (num_hashes bf) num_bits) (replicate (unat num_bytes) 0) keys\<rparr>))"

definition SetRawData :: "BloomFilter \<Rightarrow> bytes \<Rightarrow> nat \<Rightarrow> BloomFilter" where
  "SetRawData bf data nhashes = bf\<lparr>filter_data := data, num_hashes := nhashes\<rparr>"

definition test_bit_at :: "bytes \<Rightarrow> u32 \<Rightarrow> bool" where
  "test_bit_at data pos \<longleftrightarrow> data ! unat (pos div 8) AND push_bit (unat (pos mod 8)) 1 \<noteq> 0"

definition MayContain :: "BloomFilter \<Rightarrow> bytes \<Rightarrow> bool" where
  "MayContain bf key =
     (if filter_data bf = [] then False
      else
        (let num_bits = u64_of (length (filter_data bf)) * 8;
             h1 = Hash key 0xbc9f1d34;
             h2 = Hash key 0xef017832
         in list_all (\<lambda>i. test_bit_at (filter_data bf) (bit_pos num_bits h1 h2 i))
              [0..<num_hashes bf]))"

section \<open>The contract\<close>

locale membership_filter =
  fixes build :: "'k list \<Rightarrow> 'f"
    and may_contain :: "'f \<Rightarrow> 'k \<Rightarrow> bool"
    and admissible :: "'k list \<Rightarrow> bool"
  assumes no_false_negative: "admissible ks \<Longrightarrow> k \<in> set ks \<Longrightarrow> may_contain (build ks) k"
begin

text \<open>A lookup guarded by the filter is the lookup.\<close>

lemma guarded_lookup:
  assumes "admissible (map fst es)"
  shows "(if may_contain (build (map fst es)) k then map_of es k else None) = map_of es k"
proof (cases "k \<in> set (map fst es)")
  case True
  with assms show ?thesis by (simp add: no_false_negative)
next
  case False
  then have "map_of es k = None" by (simp add: map_of_eq_None_iff)
  then show ?thesis by simp
qed

end

section \<open>No false negatives\<close>

lemma hash_count_margin:
  "\<forall>n \<in> {1..<44}. 10 ^ 14 < n * 6931471805599453 mod 10 ^ 16 \<and>
     n * 6931471805599453 mod 10 ^ 16 < 10 ^ 16 - (10 ^ 14 :: nat)"
  by (simp add: atLeastLessThan_nat_numeral)

lemma num_hashes_bounds: "1 \<le> num_hashes (BloomFilter_new b)" "num_hashes (BloomFilter_new b) \<le> 30"
  by (simp_all add: BloomFilter_new_def Let_def)

lemma bits_per_key_new [simp]: "bits_per_key (BloomFilter_new b) = b"
  by (simp add: BloomFilter_new_def Let_def)

lemma length_set_bit_at [simp]: "length (set_bit_at data p) = length data"
  by (simp add: set_bit_at_def Let_def)

lemma length_add_key [simp]: "length (add_key n m data k) = length data"
proof -
  have "length (foldl (\<lambda>d i. set_bit_at d (f i)) data is) = length data" for f :: "nat \<Rightarrow> u32" and "is"
    by (induction "is" arbitrary: data) simp_all
  then show ?thesis by (simp add: add_key_def Let_def)
qed

lemma length_add_keys [simp]: "length (foldl (add_key n m) data ks) = length data"
  by (induction ks arbitrary: data) simp_all

lemma test_bit_at_iff: "test_bit_at data p \<longleftrightarrow> bit (data ! (unat p div 8)) (unat p mod 8)"
  by (simp add: test_bit_at_def unat_div unat_mod and_exp_eq_0_iff_not_bit)

lemma set_bit_at_test:
  assumes "unat p div 8 < length data"
  shows "test_bit_at (set_bit_at data p) q \<longleftrightarrow> q = p \<or> test_bit_at data q"
proof -
  have b: "bit (2 ^ (unat p mod 8) :: byte) n \<longleftrightarrow> n = unat p mod 8" for n
    by (auto simp: bit_exp_iff)
  have "q = p \<longleftrightarrow> unat q div 8 = unat p div 8 \<and> unat q mod 8 = unat p mod 8"
    by (metis div_mult_mod_eq word_unat_eq_iff)
  then show ?thesis
    using assms
    by (cases "unat q div 8 = unat p div 8")
      (auto simp: test_bit_at_iff set_bit_at_def Let_def unat_div unat_mod bit_or_iff b)
qed

lemma bit_pos_in_range:
  assumes "unat num_bits = 8 * n" and "0 < n"
  shows "unat (bit_pos num_bits h1 h2 i) div 8 < n"
proof -
  let ?x = "(ucast h1 + u64_of i * ucast h2) mod num_bits"
  have "unat (ucast ?x :: u32) \<le> unat ?x"
    by (simp add: unsigned_ucast_eq take_bit_eq_mod)
  also have "unat ?x < 8 * n"
    using assms by (simp add: unat_mod)
  finally show ?thesis by (simp add: bit_pos_def less_mult_imp_div_less mult.commute)
qed

lemma add_key_test:
  assumes "unat num_bits = 8 * length data" and "data \<noteq> []"
  shows "test_bit_at (add_key n num_bits data key) q \<longleftrightarrow>
    test_bit_at data q \<or>
    (\<exists>i < n. q = bit_pos num_bits (Hash key 0xbc9f1d34) (Hash key 0xef017832) i)"
proof -
  let ?p = "bit_pos num_bits (Hash key 0xbc9f1d34) (Hash key 0xef017832)"
  have "test_bit_at (foldl (\<lambda>d i. set_bit_at d (?p i)) d is) q \<longleftrightarrow>
      test_bit_at d q \<or> (\<exists>i \<in> set is. q = ?p i)" if "length d = length data" for d "is"
    using that
  proof (induction "is" arbitrary: d)
    case (Cons i "is")
    have "unat (?p i) div 8 < length d"
      using assms Cons.prems by (simp add: bit_pos_in_range)
    with Cons show ?case by (auto simp: set_bit_at_test)
  qed simp
  then show ?thesis by (auto simp: add_key_def Let_def)
qed

lemma add_keys_test:
  assumes "unat num_bits = 8 * length data" and "data \<noteq> []" and "key \<in> set keys" and "i < n"
  shows "test_bit_at (foldl (add_key n num_bits) data keys)
    (bit_pos num_bits (Hash key 0xbc9f1d34) (Hash key 0xef017832) i)"
proof -
  have mono: "test_bit_at d q \<Longrightarrow> test_bit_at (foldl (add_key n num_bits) d ks) q"
    if "length d = length data" for d q ks
    using that
  proof (induction ks arbitrary: d)
    case (Cons k ks)
    from Cons.prems assms(2) have "d \<noteq> []" by auto
    with Cons.prems assms(1) have "test_bit_at (add_key n num_bits d k) q"
      by (simp add: add_key_test)
    with Cons show ?case by simp
  qed simp
  from assms(3) obtain xs ys where keys: "keys = xs @ key # ys"
    by (meson split_list)
  let ?d = "foldl (add_key n num_bits) data xs"
  have "?d \<noteq> []" using assms(2) by (metis length_0_conv length_add_keys)
  then have "test_bit_at (add_key n num_bits ?d key)
      (bit_pos num_bits (Hash key 0xbc9f1d34) (Hash key 0xef017832) i)"
    using assms(1,4) by (subst add_key_test) auto
  then show ?thesis by (simp add: keys mono)
qed

text \<open>The filter has at least eight bytes and its bit count does not wrap around.\<close>

lemma CreateFilter_data:
  assumes "keys \<noteq> []" and "length keys * bits_per_key bf + 7 < 2 ^ 64"
  obtains num_bits :: u64 and n where "0 < n" and "unat num_bits = 8 * n"
    and "num_bits = u64_of n * 8"
    and "filter_data (CreateFilter bf keys) =
      foldl (add_key (num_hashes bf) num_bits) (replicate n 0) keys"
proof -
  define m where "m = max 64 (length keys * bits_per_key bf)"
  define b :: u64 where "b = u64_of (length keys) * u64_of (bits_per_key bf)"
  have ub: "unat b = length keys * bits_per_key bf"
    using assms(2) unfolding b_def of_nat_mult [symmetric] by (intro unat_of_nat_64) simp
  define c where "c = (if b < 64 then 64 else b)"
  have uc: "unat c = m"
    by (auto simp: c_def m_def ub word_less_nat_alt)
  have m: "m + 7 < 2 ^ 64" using assms(2) by (simp add: m_def)
  have "unat (c + 7) = m + 7"
    using uc m by (subst unat_word_ariths(1)) simp
  then have un: "unat ((c + 7) div 8) = (m + 7) div 8"
    by (simp add: unat_div)
  have lt: "8 * ((m + 7) div 8) < 2 ^ 64" using m by linarith
  show ?thesis
  proof (rule that [where n = "(m + 7) div 8" and num_bits = "(c + 7) div 8 * 8"])
    show "0 < (m + 7) div 8" by (simp add: m_def)
    show "unat ((c + 7) div 8 * 8) = 8 * ((m + 7) div 8)"
      using un lt by (subst unat_word_ariths(2)) simp
    show "(c + 7) div 8 * 8 = u64_of ((m + 7) div 8) * 8"
      by (simp add: un [symmetric])
    show "filter_data (CreateFilter bf keys) =
      foldl (add_key (num_hashes bf) ((c + 7) div 8 * 8)) (replicate ((m + 7) div 8) 0) keys"
      using assms(1) un by (simp add: CreateFilter_def Let_def b_def [symmetric] c_def [symmetric])
  qed
qed

lemma num_hashes_CreateFilter [simp]: "num_hashes (CreateFilter bf keys) = num_hashes bf"
  by (simp add: CreateFilter_def Let_def)

lemma filter_data_length:
  "8 * length (filter_data (CreateFilter bf keys)) \<le> max 64 (length keys * bits_per_key bf) + 7"
proof (cases "keys = []")
  case False
  define b :: u64 where "b = u64_of (length keys) * u64_of (bits_per_key bf)"
  define c where "c = (if b < 64 then 64 else b)"
  have fold: "length (foldl (add_key n m) data ks) = length data" for n m data ks
    by (induction ks arbitrary: data) simp_all
  have "unat b \<le> length keys * bits_per_key bf"
    unfolding b_def of_nat_mult [symmetric] unat_of_nat by simp
  then have "unat c \<le> max 64 (length keys * bits_per_key bf)" by (auto simp: c_def)
  moreover have "unat (c + 7) \<le> unat c + 7" by (subst unat_word_ariths(1)) simp
  moreover have "length (filter_data (CreateFilter bf keys)) = unat (c + 7) div 8"
    using False by (simp add: CreateFilter_def Let_def b_def [symmetric] c_def [symmetric] fold unat_div)
  ultimately show ?thesis by linarith
qed (simp add: CreateFilter_def)

lemma MayContain_CreateFilter:
  assumes "length keys * bits_per_key bf + 7 < 2 ^ 64" and "key \<in> set keys"
  shows "MayContain (CreateFilter bf keys) key"
proof -
  from assms(2) have "keys \<noteq> []" by auto
  from CreateFilter_data [OF this assms(1)] obtain nb :: u64 and n
    where n: "0 < n" and nb: "unat nb = 8 * n" "nb = u64_of n * 8"
      and data: "filter_data (CreateFilter bf keys) =
        foldl (add_key (num_hashes bf) nb) (replicate n 0) keys" .
  have len: "length (filter_data (CreateFilter bf keys)) = n" by (simp add: data)
  with n have "filter_data (CreateFilter bf keys) \<noteq> []" by auto
  moreover have "test_bit_at (filter_data (CreateFilter bf keys))
      (bit_pos nb (Hash key 0xbc9f1d34) (Hash key 0xef017832) i)" if "i < num_hashes bf" for i
    unfolding data using that n nb assms(2) by (intro add_keys_test) auto
  ultimately show ?thesis
    by (simp add: MayContain_def Let_def len nb(2) list_all_iff)
qed

text \<open>The answer depends on the bit array and the number of hashes only, so a filter
  reloaded from its serialised form answers as the original.\<close>

lemma MayContain_SetRawData:
  "MayContain (SetRawData bf (filter_data bf') (num_hashes bf')) key = MayContain bf' key"
  by (simp add: MayContain_def SetRawData_def)

lemma filter_data_nonempty:
  assumes "keys \<noteq> []" and "length keys * bits_per_key bf + 7 < 2 ^ 64"
  shows "filter_data (CreateFilter bf keys) \<noteq> []"
  using CreateFilter_data [OF assms] by (metis length_add_keys length_replicate length_0_conv less_irrefl_nat)

interpretation bloom: membership_filter
  "CreateFilter (BloomFilter_new bits)" MayContain "\<lambda>keys. length keys * bits + 7 < 2 ^ 64"
  for bits
  by unfold_locales (simp add: MayContain_CreateFilter)

section \<open>Properties\<close>

text \<open>
  C22: a bloom filter never rejects a key it was built from, also after its bytes and its
  number of hashes have been stored and loaded again with \<open>SetRawData\<close>.
\<close>
theorem bloom_no_false_negative:
  assumes "length keys * bits + 7 < 2 ^ 64" and "key \<in> set keys"
  shows "MayContain (SetRawData (BloomFilter_new n)
      (filter_data (CreateFilter (BloomFilter_new bits) keys))
      (num_hashes (CreateFilter (BloomFilter_new bits) keys))) key"
  using bloom.no_false_negative [OF assms] by (simp only: MayContain_SetRawData)

theorem bloom_no_false_negative_witness:
  "MayContain (SetRawData (BloomFilter_new 0)
      (filter_data (CreateFilter (BloomFilter_new 10) [[1], [2]]))
      (num_hashes (CreateFilter (BloomFilter_new 10) [[1], [2]]))) [2]"
  by (rule bloom_no_false_negative) simp_all

end
