(* ===== verification/Sstable.thy ===== *)
theory Sstable
  imports Vlog Bloom_Filter
begin

text \<open>
  The sorted tables of \<open>sstable.h\<close>/\<open>sstable.cpp\<close>: the writer that lays out data
  block, sparse index, Bloom filter and footer, the reader with its point lookup, and the
  iterator that compaction uses.

  A null \<open>writer_\<close> (no \<open>Open\<close> before \<open>Add\<close> or \<open>Finish\<close>) is undefined
  behaviour in the source and an error in the model. Offsets inside a data block are
  natural numbers: they are below the end of the block plus one entry, which wraps for no
  file a disk can hold.
\<close>

section \<open>SSTableWriter\<close>

definition kMagicNumber :: u64 where
  "kMagicNumber = 0x53706C69744B5600"

record SSTableWriter =
  sw_path :: path
  sw_options :: Options
  sw_writer :: "SequentialFileWriter option"
  sw_num_entries :: u64
  sw_data_offset :: u64
  sw_smallest_key :: bytes
  sw_largest_key :: bytes
  sw_sparse_index :: "(bytes \<times> u64) list"
  sw_since_index :: nat
  sw_key_storage :: "bytes list"
  sw_finished :: bool

definition SSTableWriter_new :: "path \<Rightarrow> Options \<Rightarrow> SSTableWriter" where
  "SSTableWriter_new p options =
     \<lparr>sw_path = p, sw_options = options, sw_writer = None, sw_num_entries = 0,
      sw_data_offset = 0, sw_smallest_key = [], sw_largest_key = [], sw_sparse_index = [],
      sw_since_index = 0, sw_key_storage = [], sw_finished = False\<rparr>"

definition SSTableWriter_Open :: "SSTableWriter \<Rightarrow> fs \<Rightarrow> Status \<times> SSTableWriter \<times> fs" where
  "SSTableWriter_Open sw fs =
     (let (s, w, fs) = Writer_Open (sw_path sw) False SequentialFileWriter_new fs
      in (s, sw\<lparr>sw_writer := Some w\<rparr>, fs))"

definition sst_entry :: "bytes \<Rightarrow> InternalEntry \<Rightarrow> bytes" where
  "sst_entry key entry =
     (let buf = PutVarint32 [] (u32_of (length key));
          buf = buf @ key;
          buf = buf @ [entry_type entry];
          buf = PutFixed64 buf (entry_seq entry)
      in buf @ VLogPointer_Encode (vlog_ptr entry))"

definition null_writer :: Status where
  "null_writer = IOError (str ''writer_ is null'')"

text \<open>The bookkeeping of \<open>Add\<close>: filter keys, key range and sparse index.\<close>

definition Add_track :: "bytes \<Rightarrow> SSTableWriter \<Rightarrow> SSTableWriter" where
  "Add_track key sw =
     (let sw = sw\<lparr>sw_key_storage := sw_key_storage sw @ [key]\<rparr>;
          sw = (if sw_num_entries sw = 0 then sw\<lparr>sw_smallest_key := key\<rparr> else sw);
          sw = sw\<lparr>sw_largest_key := key\<rparr>
      in if sw_num_entries sw = 0 \<or> sparse_index_interval (sw_options sw) \<le> sw_since_index sw
         then sw\<lparr>sw_sparse_index := sw_sparse_index sw @ [(key, sw_data_offset sw)],
                 sw_since_index := 0\<rparr>
         else sw)"

definition SSTableWriter_Add ::
  "bytes \<Rightarrow> InternalEntry \<Rightarrow> SSTableWriter \<Rightarrow> fs \<Rightarrow> Status \<times> SSTableWriter" where
  "SSTableWriter_Add key entry sw fs =
     (if sw_finished sw then (InvalidArgument (str ''SSTableWriter already finished''), sw)
      else
        (let sw = Add_track key sw;
             buf = sst_entry key entry
         in case sw_writer sw of
              None \<Rightarrow> (null_writer, sw)
            | Some w \<Rightarrow>
                (let (s, w) = Writer_Append w buf fs;
                     sw = sw\<lparr>sw_writer := Some w\<rparr>
                 in if \<not> ok s then (s, sw)
                    else (Status_OK,
                          sw\<lparr>sw_data_offset := sw_data_offset sw + u64_of (length buf),
                             sw_num_entries := sw_num_entries sw + 1,
                             sw_since_index := sw_since_index sw + 1\<rparr>))))"

definition sst_index_entry :: "bytes \<times> u64 \<Rightarrow> bytes" where
  "sst_index_entry entry =
     PutFixed64 (PutVarint32 [] (u32_of (length (fst entry))) @ fst entry) (snd entry)"

definition sst_bloom :: "Options \<Rightarrow> bytes list \<Rightarrow> bytes" where
  "sst_bloom options keys =
     (let bloom = CreateFilter (BloomFilter_new (bloom_bits_per_key options)) keys
      in PutFixed32 [] (u32_of (num_hashes bloom)) @ filter_data bloom)"

definition sst_footer :: "u64 \<Rightarrow> u64 \<Rightarrow> u64 \<Rightarrow> u64 \<Rightarrow> u64 \<Rightarrow> bytes" where
  "sst_footer index_offset index_size bloom_offset bloom_size num_entries =
     PutFixed64 (PutFixed64 (PutFixed64 (PutFixed64 (PutFixed64 (PutFixed64 []
       index_offset) index_size) bloom_offset) bloom_size) num_entries) kMagicNumber"

text \<open>The three appends of \<open>Finish\<close> return at the first one that fails.\<close>

fun append_all ::
  "bytes list \<Rightarrow> SequentialFileWriter \<Rightarrow> fs \<Rightarrow> Status \<times> SequentialFileWriter" where
  "append_all [] w fs = (Status_OK, w)"
| "append_all (d # ds) w fs =
     (let (s, w) = Writer_Append w d fs
      in if \<not> ok s then (s, w) else append_all ds w fs)"

definition Finish :: "SSTableWriter \<Rightarrow> fs \<Rightarrow> Status \<times> SSTableWriter \<times> fs" where
  "Finish sw fs =
     (if sw_finished sw then (InvalidArgument (str ''SSTableWriter already finished''), sw, fs)
      else case sw_writer sw of
        None \<Rightarrow> (null_writer, sw, fs)
      | Some w \<Rightarrow>
        (let sparse_index_offset = sw_data_offset sw;
             index_buf = concat (map sst_index_entry (sw_sparse_index sw));
             sparse_index_size = u64_of (length index_buf);
             bloom_offset = sparse_index_offset + sparse_index_size;
             bloom_buf = sst_bloom (sw_options sw) (sw_key_storage sw);
             bloom_size = u64_of (length bloom_buf);
             footer = sst_footer sparse_index_offset sparse_index_size bloom_offset bloom_size
                        (sw_num_entries sw);
             (s, w) = append_all [index_buf, bloom_buf, footer] w fs
         in if \<not> ok s then (s, sw\<lparr>sw_writer := Some w\<rparr>, fs)
            else
              (let (s, w, fs) = Writer_Sync w fs
               in if \<not> ok s then (s, sw\<lparr>sw_writer := Some w\<rparr>, fs)
                  else
                    (let (s, w, fs) = Writer_Close w fs
                     in if \<not> ok s then (s, sw\<lparr>sw_writer := Some w\<rparr>, fs)
                        else (Status_OK, sw\<lparr>sw_writer := Some w, sw_finished := True\<rparr>, fs)))))"

definition Writer_FileSize :: "SSTableWriter \<Rightarrow> u64" where
  "Writer_FileSize sw = (case sw_writer sw of None \<Rightarrow> 0 | Some w \<Rightarrow> wr_offset w)"

section \<open>SSTableReader\<close>

record SSTableReader =
  rd_path :: path
  rd_options :: Options
  rd_file :: RandomAccessFileReader
  rd_bloom :: BloomFilter
  rd_sparse_index :: "(bytes \<times> u64) list"
  rd_num_entries :: u64
  rd_data_end_offset :: u64
  rd_smallest_key :: bytes
  rd_largest_key :: bytes

definition SSTableReader_new :: "path \<Rightarrow> Options \<Rightarrow> SSTableReader" where
  "SSTableReader_new p options =
     \<lparr>rd_path = p, rd_options = options, rd_file = RandomAccessFileReader_new,
      rd_bloom = BloomFilter_new 0, rd_sparse_index = [], rd_num_entries = 0,
      rd_data_end_offset = 0, rd_smallest_key = [], rd_largest_key = []\<rparr>"

text \<open>
  The limit of the parser is \<open>size\<close> bytes after the start of the buffer. When the file
  is too short for the index its footer announces, the source reads past the end of the
  buffer; the model stops there.
\<close>

function LoadSparseIndex_loop :: "bytes \<Rightarrow> Status \<times> (bytes \<times> u64) list" where
  "LoadSparseIndex_loop p =
     (if p = [] then (Status_OK, [])
      else (case DecodeVarint32 p of
        None \<Rightarrow> (Corruption (str ''Truncated sparse index key''), [])
      | Some (key_len, q) \<Rightarrow>
          if length q < unat key_len then (Corruption (str ''Truncated sparse index key''), [])
          else if length (drop (unat key_len) q) < 8
          then (Corruption (str ''Truncated sparse index offset''), [])
          else
            (let key = take (unat key_len) q;
                 r = drop (unat key_len) q;
                 (s, es) = LoadSparseIndex_loop (drop 8 r)
             in (s, (key, DecodeFixed64 r) # es))))"
  by pat_completeness auto
termination
  by (relation "measure length") (auto dest: DecodeVarint32_shorter)

declare LoadSparseIndex_loop.simps [simp del]

definition LoadSparseIndex ::
  "u64 \<Rightarrow> u64 \<Rightarrow> SSTableReader \<Rightarrow> fs \<Rightarrow> Status \<times> SSTableReader" where
  "LoadSparseIndex offset sz rd fs =
     (if sz = 0 then (Status_OK, rd)
      else
        (let (s, buf) = Random_Read (rd_file rd) (unat offset) (unat sz) fs
         in if \<not> ok s then (s, rd)
            else
              (let (s, es) = LoadSparseIndex_loop buf;
                   rd = rd\<lparr>rd_sparse_index := es\<rparr>
               in if \<not> ok s then (s, rd)
                  else if es \<noteq> []
                  then (Status_OK, rd\<lparr>rd_smallest_key := fst (hd es), rd_largest_key := fst (last es)\<rparr>)
                  else (Status_OK, rd))))"

definition LoadBloomFilter ::
  "u64 \<Rightarrow> u64 \<Rightarrow> SSTableReader \<Rightarrow> fs \<Rightarrow> Status \<times> SSTableReader" where
  "LoadBloomFilter offset sz rd fs =
     (if sz < 4 then (Status_OK, rd)
      else
        (let (s, buf) = Random_Read (rd_file rd) (unat offset) (unat sz) fs
         in if \<not> ok s then (s, rd)
            else
              (let n = DecodeFixed32 buf;
                   raw_data = drop 4 buf
               in (Status_OK, rd\<lparr>rd_bloom := SetRawData (rd_bloom rd) raw_data (unat n)\<rparr>))))"

definition LoadFooter :: "SSTableReader \<Rightarrow> fs \<Rightarrow> Status \<times> SSTableReader" where
  "LoadFooter rd fs =
     (case FileSize (rd_path rd) fs of
        (s, None) \<Rightarrow> (s, rd)
      | (_, Some file_size) \<Rightarrow>
          if file_size < 48 then (Corruption (str ''File too short to be an SSTable''), rd)
          else
            (let (s, p) = Random_Read (rd_file rd) (unat (file_size - 48)) 48 fs
             in if \<not> ok s then (s, rd)
                else
                  (let sparse_index_offset = DecodeFixed64 p;
                       sparse_index_size = DecodeFixed64 (drop 8 p);
                       bloom_offset = DecodeFixed64 (drop 16 p);
                       bloom_size = DecodeFixed64 (drop 24 p);
                       rd = rd\<lparr>rd_num_entries := DecodeFixed64 (drop 32 p)\<rparr>;
                       magic = DecodeFixed64 (drop 40 p)
                   in if magic \<noteq> kMagicNumber
                      then (Corruption (str ''Not an SSTable (magic number mismatch)''), rd)
                      else
                        (let rd = rd\<lparr>rd_data_end_offset := sparse_index_offset\<rparr>;
                             (s, rd) = LoadSparseIndex sparse_index_offset sparse_index_size rd fs
                         in if \<not> ok s then (s, rd)
                            else LoadBloomFilter bloom_offset bloom_size rd fs))))"

definition SSTableReader_Open ::
  "path \<Rightarrow> Options \<Rightarrow> fs \<Rightarrow> Status \<times> SSTableReader option" where
  "SSTableReader_Open p options fs =
     (let rd = SSTableReader_new p options;
          (s, file) = Random_Open p (rd_file rd) fs;
          rd = rd\<lparr>rd_file := file\<rparr>
      in if \<not> ok s then (s, None)
         else
           (let (s, rd) = LoadFooter rd fs
            in if \<not> ok s then (s, None) else (Status_OK, Some rd)))"

text \<open>
  The status of the first read is ignored when it is an error of the file system, which is
  the only kind of error a read reports. The length of the key is still 0 when a truncated
  varint makes the reader read 128 bytes instead of 64. On an error the caller's key and
  entry, which the source may have assigned in part, are not used.
\<close>

definition read_entry_header ::
  "SSTableReader \<Rightarrow> nat \<Rightarrow> fs \<Rightarrow> Status + bytes \<times> u32 \<times> bytes" where
  "read_entry_header rd offset fs =
     (let (s, buf) = Random_Read (rd_file rd) offset 64 fs
      in if \<not> ok s \<and> \<not> IsIOError s then Inl s
         else if buf = [] then Inl (NotFound (str ''EOF reached''))
         else (case DecodeVarint32 buf of
                 Some (key_len, q) \<Rightarrow> Inr (buf, key_len, q)
               | None \<Rightarrow>
                   (let (s, buf) = Random_Read (rd_file rd) offset 128 fs
                    in if \<not> ok s then Inl s
                       else (case DecodeVarint32 buf of
                               None \<Rightarrow> Inl (Corruption (str ''Truncated key length varint''))
                             | Some (key_len, q) \<Rightarrow> Inr (buf, key_len, q)))))"

definition ReadEntryAt ::
  "SSTableReader \<Rightarrow> nat \<Rightarrow> fs \<Rightarrow> Status \<times> (bytes \<times> InternalEntry \<times> nat) option" where
  "ReadEntryAt rd offset fs =
     (case read_entry_header rd offset fs of
        Inl s \<Rightarrow> (s, None)
      | Inr (buf, len, q) \<Rightarrow>
          (let key_len = unat len;
               varint_len = length buf - length q;
               total_len = varint_len + key_len + 1 + 8 + 16;
               (s, q) = (if length buf < total_len
                         then (let (s, buf) = Random_Read (rd_file rd) offset total_len fs
                               in (s, drop varint_len buf))
                         else (Status_OK, q))
           in if \<not> ok s then (s, None)
              else if length q < key_len then (Corruption (str ''Truncated key data''), None)
              else
                (let key = take key_len q; q = drop key_len q
                 in if length q < 25 then (Corruption (str ''Truncated entry metadata''), None)
                    else
                      (Status_OK,
                       Some (key,
                         \<lparr>vlog_ptr = \<lparr>ptr_file_id = DecodeFixed32 (drop 9 q),
                                     ptr_offset = DecodeFixed64 (drop 13 q),
                                     ptr_value_size = DecodeFixed32 (drop 21 q)\<rparr>,
                          entry_seq = DecodeFixed64 (drop 1 q),
                          entry_type = q ! 0\<rparr>,
                         offset + total_len)))))"

lemma ReadEntryAt_advances:
  "ReadEntryAt rd offset fs = (s, Some (k, e, next)) \<Longrightarrow> offset < next"
  by (auto simp: ReadEntryAt_def Let_def split: sum.splits prod.splits if_splits)

text \<open>
  The binary search over the sparse index. The bounds are C++ \<open>int\<close>s, so an index has
  below \<open>2 ^ 31\<close> entries.
\<close>

function block_search :: "(bytes \<times> u64) list \<Rightarrow> bytes \<Rightarrow> int \<Rightarrow> int \<Rightarrow> int \<Rightarrow> int" where
  "block_search idx key left right block_idx =
     (if left \<le> right
      then (let mid = left + (right - left) div 2; mkey = fst (idx ! nat mid)
            in if mkey = key then mid
               else if mkey < key then block_search idx key (mid + 1) right mid
               else block_search idx key left (mid - 1) block_idx)
      else block_idx)"
  by pat_completeness auto
termination
  by (relation "measure (\<lambda>(idx, key, left, right, block_idx). nat (right + 1 - left))") auto

declare block_search.simps [simp del]

definition find_block :: "(bytes \<times> u64) list \<Rightarrow> bytes \<Rightarrow> nat" where
  "find_block idx key = nat (block_search idx key 0 (int (length idx) - 1) 0)"

function Get_scan :: "SSTableReader \<Rightarrow> bytes \<Rightarrow> nat \<Rightarrow> nat \<Rightarrow> fs \<Rightarrow> Status \<times> InternalEntry option" where
  "Get_scan rd key offset end_offset fs =
     (if offset < end_offset
      then (case ReadEntryAt rd offset fs of
              (s, None) \<Rightarrow> (s, None)
            | (_, Some (parsed_key, parsed_entry, next_offset)) \<Rightarrow>
                if parsed_key = key then (Status_OK, Some parsed_entry)
                else if key < parsed_key then (NotFound (str ''Key not found in block''), None)
                else Get_scan rd key next_offset end_offset fs)
      else (NotFound (str ''Key not found in block''), None))"
  by pat_completeness auto
termination
  by (relation "measure (\<lambda>(rd, key, offset, end_offset, fs). end_offset - offset)")
    (auto dest!: ReadEntryAt_advances [OF sym])

declare Get_scan.simps [simp del]

definition SSTable_Get :: "SSTableReader \<Rightarrow> bytes \<Rightarrow> fs \<Rightarrow> Status \<times> InternalEntry option" where
  "SSTable_Get rd key fs =
     (if filter_data (rd_bloom rd) \<noteq> [] \<and> \<not> MayContain (rd_bloom rd) key
      then (NotFound (str ''Not in bloom filter''), None)
      else if rd_sparse_index rd = [] then (NotFound (str ''Empty sparse index''), None)
      else
        (let idx = rd_sparse_index rd;
             block_idx = find_block idx key;
             offset = snd (idx ! block_idx);
             end_offset = (if block_idx + 1 < length idx then snd (idx ! (block_idx + 1))
                           else rd_data_end_offset rd)
         in Get_scan rd key (unat offset) (unat end_offset) fs))"

section \<open>SSTableReader::Iterator\<close>

record SSTableIterator =
  it_key :: bytes
  it_entry :: InternalEntry
  it_offset :: nat
  it_data_end :: nat
  it_valid :: bool

definition NewIterator :: "SSTableReader \<Rightarrow> SSTableIterator" where
  "NewIterator rd =
     \<lparr>it_key = [], it_entry = \<lparr>vlog_ptr = null_ptr, entry_seq = 0, entry_type = kValue\<rparr>,
      it_offset = 0, it_data_end = unat (rd_data_end_offset rd), it_valid = False\<rparr>"

definition Iter_ReadEntryAt ::
  "SSTableReader \<Rightarrow> nat \<Rightarrow> SSTableIterator \<Rightarrow> fs \<Rightarrow> Status \<times> SSTableIterator" where
  "Iter_ReadEntryAt rd offset it fs =
     (if it_data_end it \<le> offset
      then (NotFound (str ''Reached end of data blocks''), it\<lparr>it_valid := False\<rparr>)
      else (case ReadEntryAt rd offset fs of
              (s, None) \<Rightarrow> (s, it\<lparr>it_valid := False\<rparr>)
            | (_, Some (key, entry, next_offset)) \<Rightarrow>
                (Status_OK, it\<lparr>it_key := key, it_entry := entry, it_offset := next_offset,
                               it_valid := True\<rparr>)))"

definition SeekToFirst :: "SSTableReader \<Rightarrow> SSTableIterator \<Rightarrow> fs \<Rightarrow> Status \<times> SSTableIterator" where
  "SeekToFirst rd it fs = Iter_ReadEntryAt rd 0 (it\<lparr>it_offset := 0\<rparr>) fs"

definition Iter_Next :: "SSTableReader \<Rightarrow> SSTableIterator \<Rightarrow> fs \<Rightarrow> Status \<times> SSTableIterator" where
  "Iter_Next rd it fs =
     (if \<not> it_valid it then (NotFound (str ''Invalid iterator''), it)
      else Iter_ReadEntryAt rd (it_offset it) it fs)"

lemma read_entry_header_Inl: "read_entry_header rd offset fs = Inl s \<Longrightarrow> \<not> ok s"
  by (auto simp: read_entry_header_def Let_def split: prod.splits if_splits option.splits)

lemma ReadEntryAt_None: "ReadEntryAt rd offset fs = (s, None) \<Longrightarrow> \<not> ok s"
  by (auto simp: ReadEntryAt_def Let_def split: sum.splits prod.splits if_splits
      dest: read_entry_header_Inl)

lemma Iter_ReadEntryAt_advances:
  "Iter_ReadEntryAt rd off it fs = (s, it') \<Longrightarrow> ok s \<Longrightarrow>
    off < it_offset it' \<and> it_data_end it' = it_data_end it"
  by (auto simp: Iter_ReadEntryAt_def split: if_splits option.splits prod.splits
      dest: ReadEntryAt_advances ReadEntryAt_None)

function Seek_scan ::
  "SSTableReader \<Rightarrow> bytes \<Rightarrow> SSTableIterator \<Rightarrow> fs \<Rightarrow> Status \<times> SSTableIterator" where
  "Seek_scan rd target it fs =
     (if it_offset it < it_data_end it
      then (case Iter_ReadEntryAt rd (it_offset it) it fs of
              (s, it') \<Rightarrow>
                if \<not> ok s then (s, it')
                else if target \<le> it_key it' then (Status_OK, it')
                else Seek_scan rd target it' fs)
      else (NotFound (str ''Reached EOF''), it\<lparr>it_valid := False\<rparr>))"
  by pat_completeness auto
termination
  by (relation "measure (\<lambda>(rd, target, it, fs). it_data_end it - it_offset it)")
    (auto dest!: Iter_ReadEntryAt_advances [OF sym])

declare Seek_scan.simps [simp del]

definition Seek ::
  "SSTableReader \<Rightarrow> bytes \<Rightarrow> SSTableIterator \<Rightarrow> fs \<Rightarrow> Status \<times> SSTableIterator" where
  "Seek rd target it fs =
     (if rd_sparse_index rd = [] then (NotFound (str ''Empty index''), it\<lparr>it_valid := False\<rparr>)
      else
        (let block_idx = find_block (rd_sparse_index rd) target
         in Seek_scan rd target
              (it\<lparr>it_offset := unat (snd (rd_sparse_index rd ! block_idx))\<rparr>) fs))"

section \<open>The layout of a table\<close>

type_synonym sst_entries = "(bytes \<times> InternalEntry) list"

definition sst_data :: "sst_entries \<Rightarrow> bytes" where
  "sst_data es = concat (map (\<lambda>(k, e). sst_entry k e) es)"

lemma sst_data_simps [simp]:
  "sst_data [] = []" "sst_data ((k, e) # es) = sst_entry k e @ sst_data es"
  "sst_data (es @ es') = sst_data es @ sst_data es'"
  by (simp_all add: sst_data_def)

lemma length_sst_entry:
  "length (sst_entry k e) = length (EncodeVarint32 (u32_of (length k))) + length k + 25"
  by (simp add: sst_entry_def Let_def PutVarint32_def PutFixed64_def)

lemma sst_entry_layout:
  "sst_entry k e = EncodeVarint32 (u32_of (length k)) @ k @ entry_type e # EncodeFixed64 (entry_seq e) @
     EncodeFixed32 (ptr_file_id (vlog_ptr e)) @ EncodeFixed64 (ptr_offset (vlog_ptr e)) @
     EncodeFixed32 (ptr_value_size (vlog_ptr e))"
  by (simp add: sst_entry_def Let_def PutVarint32_def PutFixed64_def PutFixed32_def
      VLogPointer_Encode_def)

text \<open>One entry is read back from where it was written.\<close>

lemma ReadEntryAt_entry:
  assumes "reliable fs" and "ra_file (rd_file rd) = Some p" and "length k < 2 ^ 32"
    and "file_bytes fs p = pre @ sst_entry k e @ post" and "length pre = off"
  shows "ReadEntryAt rd off fs = (Status_OK, Some (k, e, off + length (sst_entry k e)))"
proof -
  define vi where "vi = EncodeVarint32 (u32_of (length k))"
  define meta where "meta = entry_type e # EncodeFixed64 (entry_seq e) @
     EncodeFixed32 (ptr_file_id (vlog_ptr e)) @ EncodeFixed64 (ptr_offset (vlog_ptr e)) @
     EncodeFixed32 (ptr_value_size (vlog_ptr e))"
  have ent: "sst_entry k e = vi @ k @ meta" and lm: "length meta = 25"
    by (simp_all add: sst_entry_layout vi_def meta_def)
  have vi: "1 \<le> length vi" "length vi \<le> 5" "DecodeVarint32 (vi @ r) = Some (u32_of (length k), r)" for r
    using length_EncodeVarint32 by (simp_all add: vi_def)
  have klen: "unat (u32_of (length k)) = length k" using assms(3) by simp
  have rd: "Random_Read (rd_file rd) off n fs = (Status_OK, take n (vi @ k @ meta @ post))" for n
    using assms(1,2,4,5) by (simp add: Random_Read_reliable ent)
  define q where "q = take (64 - length vi) (k @ meta @ post)"
  have "take 64 (vi @ k @ meta @ post) = vi @ q" using vi by (simp add: q_def)
  then have hdr: "read_entry_header rd off fs = Inr (vi @ q, u32_of (length k), q)"
    using vi by (auto simp: read_entry_header_def rd Let_def)
  define total where "total = length vi + length k + 25"
  obtain rest where rest: "(if length (vi @ q) < total
      then (let (s, buf) = Random_Read (rd_file rd) off total fs in (s, drop (length vi) buf))
      else (Status_OK, q)) = (Status_OK, k @ meta @ rest)"
  proof (cases "length (vi @ q) < total")
    case True
    have "take total (vi @ k @ meta @ post) = vi @ k @ meta" using lm by (simp add: total_def)
    with True show ?thesis by (intro that [of "[]"]) (simp add: rd)
  next
    case False
    then have "length k + length meta \<le> 64 - length vi"
      using lm vi by (simp add: q_def total_def min_def split: if_splits)
    then have "q = k @ meta @ take (64 - length vi - length k - length meta) post"
      by (simp add: q_def diff_diff_left)
    with False show ?thesis by (intro that) simp
  qed
  have dec: "(meta @ rest) ! 0 = entry_type e" "DecodeFixed64 (drop 1 (meta @ rest)) = entry_seq e"
    "DecodeFixed32 (drop 9 (meta @ rest)) = ptr_file_id (vlog_ptr e)"
    "DecodeFixed64 (drop 13 (meta @ rest)) = ptr_offset (vlog_ptr e)"
    "DecodeFixed32 (drop 21 (meta @ rest)) = ptr_value_size (vlog_ptr e)"
    by (simp_all add: meta_def drop_Cons')
  have tot: "length vi + length k + 1 + 8 + 16 = total" by (simp add: total_def)
  have vl: "length (vi @ q) - length q = length vi" by simp
  have "ReadEntryAt rd off fs = (Status_OK, Some (k, e, off + total))"
    unfolding ReadEntryAt_def hdr sum.case prod.case Let_def klen vl tot rest [unfolded Let_def]
    using lm dec by simp
  then show ?thesis by (simp add: total_def ent lm)
qed

section \<open>The binary search\<close>

text \<open>
  The loop invariant: keys left of \<open>left\<close> are smaller, keys right of \<open>right\<close> larger,
  and the block is the last one known to be smaller.
\<close>

definition search_inv :: "(bytes \<times> u64) list \<Rightarrow> bytes \<Rightarrow> int \<Rightarrow> int \<Rightarrow> int \<Rightarrow> bool" where
  "search_inv idx key l r b \<longleftrightarrow>
     0 \<le> l \<and> l \<le> int (length idx) \<and> r < int (length idx) \<and> b = max 0 (l - 1) \<and>
     (\<forall>i. int i < l \<longrightarrow> fst (idx ! i) < key) \<and>
     (\<forall>i < length idx. r < int i \<longrightarrow> key < fst (idx ! i))"

lemma sorted_idx:
  "sorted_wrt (<) (map fst idx) \<Longrightarrow> i < j \<Longrightarrow> j < length idx \<Longrightarrow> fst (idx ! i) < fst (idx ! j)"
  by (simp add: sorted_wrt_iff_nth_less)

lemma search_inv_step:
  assumes sorted: "sorted_wrt (<) (map fst idx)" and inv: "search_inv idx key l r b" and lr: "l \<le> r"
  defines "mid \<equiv> l + (r - l) div 2"
  shows "fst (idx ! nat mid) < key \<Longrightarrow> search_inv idx key (mid + 1) r mid"
    and "key < fst (idx ! nat mid) \<Longrightarrow> search_inv idx key l (mid - 1) b"
    and "l \<le> mid" and "mid \<le> r"
proof -
  show m: "l \<le> mid" "mid \<le> r" using lr by (auto simp: mid_def)
  have lt: "nat mid < length idx" using m inv by (auto simp: search_inv_def)
  have le: "fst (idx ! i) \<le> fst (idx ! nat mid)" if "int i \<le> mid" for i
  proof -
    from that have "i = nat mid \<or> i < nat mid" by linarith
    then show ?thesis using sorted_idx [OF sorted, of i "nat mid"] lt by auto
  qed
  have ge: "fst (idx ! nat mid) \<le> fst (idx ! i)" if "mid \<le> int i" "i < length idx" for i
  proof -
    from that have "i = nat mid \<or> nat mid < i" by linarith
    then show ?thesis using sorted_idx [OF sorted, of "nat mid" i] that by auto
  qed
  show "search_inv idx key (mid + 1) r mid" if a: "fst (idx ! nat mid) < key"
  proof -
    have "fst (idx ! i) < key" if "int i < mid + 1" for i
      using le [of i] a that by (simp add: le_less_trans)
    then show ?thesis using inv m by (auto simp: search_inv_def)
  qed
  show "search_inv idx key l (mid - 1) b" if a: "key < fst (idx ! nat mid)"
  proof -
    have "key < fst (idx ! i)" if "mid - 1 < int i" "i < length idx" for i
      using ge [of i] a that by (simp add: less_le_trans)
    then show ?thesis using inv m by (auto simp: search_inv_def)
  qed
qed

lemma block_search_correct:
  assumes sorted: "sorted_wrt (<) (map fst idx)" and "idx \<noteq> []" and "search_inv idx key l r b"
  defines "res \<equiv> nat (block_search idx key l r b)"
  shows "res < length idx \<and> (\<forall>i < length idx. res < i \<longrightarrow> key < fst (idx ! i)) \<and>
    (res = 0 \<or> fst (idx ! res) \<le> key)"
  using assms(3) unfolding res_def
proof (induction "nat (r + 1 - l)" arbitrary: l r b rule: less_induct)
  case less
  define mid where "mid = l + (r - l) div 2"
  note unfold = block_search.simps [of idx key l r b] mid_def [symmetric] Let_def
  show ?case
  proof (cases "l \<le> r")
    case False
    then have "block_search idx key l r b = b" by (simp add: block_search.simps)
    with False less.prems assms(2) show ?thesis
      by (auto simp: search_inv_def max_def less_imp_le)
  next
    case True
    note step = search_inv_step [OF sorted less.prems True, folded mid_def]
    consider "fst (idx ! nat mid) = key" | "fst (idx ! nat mid) < key" | "key < fst (idx ! nat mid)"
      by fastforce
    then show ?thesis
    proof cases
      case 1
      with True have "block_search idx key l r b = mid" by (simp add: unfold)
      with 1 step(3,4) less.prems sorted_idx [OF sorted, of "nat mid"] show ?thesis
        by (auto simp: search_inv_def)
    next
      case 2
      with True step(3,4) less.hyps [OF _ step(1) [OF 2]] show ?thesis
        by (simp add: unfold)
    next
      case 3
      with True step(3,4) less.hyps [OF _ step(2) [OF 3]] show ?thesis
        by (auto simp add: unfold)
    qed
  qed
qed

lemma find_block_correct:
  fixes idx :: "(bytes \<times> u64) list" and key :: bytes
  assumes "sorted_wrt (<) (map fst idx)" and "idx \<noteq> []"
  defines "b \<equiv> find_block idx key"
  shows "b < length idx" and "b < i \<Longrightarrow> i < length idx \<Longrightarrow> key < fst (idx ! i)"
    and "b = 0 \<or> fst (idx ! b) \<le> key"
  using block_search_correct [OF assms(1,2), of key 0 "int (length idx) - 1" 0]
  by (auto simp: b_def find_block_def search_inv_def)

section \<open>Scanning a block\<close>

definition keys_sorted :: "sst_entries \<Rightarrow> bool" where
  "keys_sorted es \<longleftrightarrow> sorted_wrt (<) (map fst es)"

definition keys_fit :: "sst_entries \<Rightarrow> bool" where
  "keys_fit es \<longleftrightarrow> (\<forall>k \<in> fst ` set es. length k < 2 ^ 32)"

lemma map_of_above: "keys_sorted es \<Longrightarrow> (\<And>k. k \<in> fst ` set es \<Longrightarrow> key < k) \<Longrightarrow> map_of es key = None"
  by (auto simp: map_of_eq_None_iff)

lemma Get_scan_entries:
  assumes "reliable fs" and "ra_file (rd_file rd) = Some p"
  shows "keys_sorted es \<Longrightarrow> keys_fit es \<Longrightarrow> file_bytes fs p = pre @ sst_data es @ post \<Longrightarrow>
    Get_scan rd key (length pre) (length pre + length (sst_data es)) fs =
      (case map_of es key of
         Some e \<Rightarrow> (Status_OK, Some e)
       | None \<Rightarrow> (NotFound (str ''Key not found in block''), None))"
proof (induction es arbitrary: pre)
  case Nil
  then show ?case by (simp add: Get_scan.simps)
next
  case (Cons ke es)
  obtain k e where ke: "ke = (k, e)" by force
  have rd: "ReadEntryAt rd (length pre) fs =
      (Status_OK, Some (k, e, length (pre @ sst_entry k e)))"
    using ReadEntryAt_entry [OF assms, of k pre e "sst_data es @ post"] Cons.prems ke
    by (simp add: keys_fit_def)
  have IH: "Get_scan rd key (length (pre @ sst_entry k e))
      (length (pre @ sst_entry k e) + length (sst_data es)) fs =
      (case map_of es key of
         Some e \<Rightarrow> (Status_OK, Some e)
       | None \<Rightarrow> (NotFound (str ''Key not found in block''), None))"
    using Cons.prems ke by (intro Cons.IH) (auto simp: keys_sorted_def keys_fit_def)
  have "map_of es key = None" if "key < k"
    using Cons.prems(1) ke that by (intro map_of_above) (force simp: keys_sorted_def)+
  moreover have "0 < length (sst_entry k e)" by (simp add: length_sst_entry)
  ultimately show ?case
    using rd IH ke
    by (subst Get_scan.simps) (auto simp: add.assoc)
qed

section \<open>The sparse index\<close>

definition entry_offset :: "sst_entries \<Rightarrow> nat \<Rightarrow> nat" where
  "entry_offset es i = length (sst_data (take i es))"

text \<open>Every \<open>n\<close>-th entry is indexed, starting with the first; an interval of 0 indexes all.\<close>

definition index_positions :: "nat \<Rightarrow> nat \<Rightarrow> nat list" where
  "index_positions n m = filter (\<lambda>i. i mod max 1 n = 0) [0..<m]"

definition sst_index :: "nat \<Rightarrow> sst_entries \<Rightarrow> (bytes \<times> u64) list" where
  "sst_index n es =
     map (\<lambda>i. (fst (es ! i), u64_of (entry_offset es i))) (index_positions n (length es))"

lemma index_positions_props:
  "sorted_wrt (<) (index_positions n m)" "i \<in> set (index_positions n m) \<Longrightarrow> i < m"
  "0 < m \<Longrightarrow> index_positions n m \<noteq> [] \<and> index_positions n m ! 0 = 0"
proof -
  show "sorted_wrt (<) (index_positions n m)"
    unfolding index_positions_def by (intro sorted_wrt_filter sorted_wrt_upt)
  show "i \<in> set (index_positions n m) \<Longrightarrow> i < m" by (simp add: index_positions_def)
  show "0 < m \<Longrightarrow> index_positions n m \<noteq> [] \<and> index_positions n m ! 0 = 0"
    by (simp add: index_positions_def upt_conv_Cons)
qed

lemma sst_data_split: "i \<le> j \<Longrightarrow>
    sst_data es = sst_data (take i es) @ sst_data (take (j - i) (drop i es)) @ sst_data (drop j es)"
  by (metis append_take_drop_id drop_drop le_add_diff_inverse2 sst_data_simps(3))

lemma entry_offset_block:
  "i \<le> j \<Longrightarrow> entry_offset es j = entry_offset es i + length (sst_data (take (j - i) (drop i es)))"
  by (metis entry_offset_def le_add_diff_inverse length_append sst_data_simps(3) take_add)

lemma entry_offset_le: "entry_offset es i \<le> length (sst_data es)"
  by (metis append_take_drop_id entry_offset_def le_add1 length_append sst_data_simps(3))

lemma map_of_block:
  assumes "keys_sorted es" and "i \<le> j" and "0 < i \<Longrightarrow> i < length es \<and> fst (es ! i) \<le> key"
    and "j < length es \<Longrightarrow> key < fst (es ! j)"
  shows "map_of (take (j - i) (drop i es)) key = map_of es key"
proof -
  have lt: "a < b \<Longrightarrow> b < length es \<Longrightarrow> fst (es ! a) < fst (es ! b)" for a b
    using assms(1) by (simp add: keys_sorted_def sorted_wrt_iff_nth_less)
  have "map_of (take i es) key = None"
  proof (rule ccontr)
    assume "map_of (take i es) key \<noteq> None"
    then have "key \<in> fst ` set (take i es)" by (simp add: map_of_eq_None_iff)
    then obtain a where "a < i" "a < length es" "fst (es ! a) = key"
      by (auto simp: in_set_conv_nth)
    with lt [of a i] assms(3) show False by auto
  qed
  moreover have "map_of (drop j es) key = None"
  proof (rule ccontr)
    assume "map_of (drop j es) key \<noteq> None"
    then have "key \<in> fst ` set (drop j es)" by (simp add: map_of_eq_None_iff)
    then obtain a where "a < length (drop j es)" "fst (drop j es ! a) = key"
      by (metis imageE in_set_conv_nth)
    then have "j + a < length es" "fst (es ! (j + a)) = key" by auto
    with lt [of j "j + a"] assms(4) show False by (cases a) auto
  qed
  moreover have "map_of es = map_of (take i es @ take (j - i) (drop i es) @ drop j es)"
    using assms(2) by (metis append_take_drop_id drop_drop le_add_diff_inverse2)
  ultimately show ?thesis by (simp add: map_add_def split: option.splits)
qed

lemma sst_index_nth:
  "b < length (index_positions n (length es)) \<Longrightarrow> sst_index n es ! b =
    (fst (es ! (index_positions n (length es) ! b)),
     u64_of (entry_offset es (index_positions n (length es) ! b)))"
  by (simp add: sst_index_def)

lemma length_sst_index [simp]: "length (sst_index n es) = length (index_positions n (length es))"
  by (simp add: sst_index_def)

lemma sst_index_sorted: "keys_sorted es \<Longrightarrow> sorted_wrt (<) (map fst (sst_index n es))"
  using index_positions_props(1,2) [where n = n and m = "length es"]
  by (auto simp: sst_index_def keys_sorted_def sorted_wrt_iff_nth_less o_def)

text \<open>The lookup from the block the search finds.\<close>

lemma Get_block:
  fixes n :: nat
  assumes "reliable fs" and "ra_file (rd_file rd) = Some p" and "keys_sorted es" and "keys_fit es"
    and "file_bytes fs p = sst_data es @ post" and "length (sst_data es) < 2 ^ 64" and "es \<noteq> []"
  defines "idx \<equiv> sst_index n es"
  shows "Get_scan rd key (unat (snd (idx ! find_block idx key)))
      (unat (if find_block idx key + 1 < length idx then snd (idx ! (find_block idx key + 1))
             else u64_of (length (sst_data es)))) fs =
    (case map_of es key of
       Some e \<Rightarrow> (Status_OK, Some e)
     | None \<Rightarrow> (NotFound (str ''Key not found in block''), None))"
proof -
  define ps where "ps = index_positions n (length es)"
  define b where "b = find_block idx key"
  define i where "i = ps ! b"
  define j where "j = (if b + 1 < length ps then ps ! (b + 1) else length es)"
  note ps = index_positions_props [where n = n and m = "length es", folded ps_def]
  have ps0: "ps \<noteq> []" "ps ! 0 = 0" using ps(3) assms(7) by auto
  have "idx \<noteq> []" "length idx = length ps" using ps0 by (auto simp: idx_def sst_index_def ps_def)
  note fb = find_block_correct [OF sst_index_sorted [OF assms(3), of n, folded idx_def] \<open>idx \<noteq> []\<close>,
      of key, folded b_def]
  have nth: "a < length ps \<Longrightarrow> idx ! a = (fst (es ! (ps ! a)), u64_of (entry_offset es (ps ! a)))" for a
    by (simp add: idx_def ps_def sst_index_nth)
  have b: "b < length ps" using fb(1) \<open>length idx = length ps\<close> by simp
  have i: "i < length es" using b ps(2) by (auto simp: i_def)
  have ij: "i \<le> j" using b i ps(1) by (auto simp: i_def j_def sorted_wrt_iff_nth_less less_imp_le)
  have jl: "j \<le> length es" using ps(2) by (auto simp: j_def less_imp_le)
  have small: "unat (u64_of (entry_offset es a)) = entry_offset es a" for a
    using entry_offset_le [of es a] assms(6) by simp
  have "map_of (take (j - i) (drop i es)) key = map_of es key"
  proof (rule map_of_block [OF assms(3) ij])
    assume "0 < i"
    then have "b \<noteq> 0" using ps0 by (cases b) (auto simp: i_def)
    with fb(3) nth [OF b] i show "i < length es \<and> fst (es ! i) \<le> key" by (auto simp: i_def)
  next
    assume "j < length es"
    then have "b + 1 < length ps" by (auto simp: j_def split: if_splits)
    with fb(2) [of "b + 1"] nth [of "b + 1"] \<open>length idx = length ps\<close>
    show "key < fst (es ! j)" by (simp add: j_def)
  qed
  moreover have "keys_sorted (take (j - i) (drop i es))" "keys_fit (take (j - i) (drop i es))"
    using assms(3,4)
    by (auto simp: keys_sorted_def keys_fit_def sorted_wrt_take sorted_wrt_drop take_map [symmetric]
        drop_map [symmetric] dest!: in_set_takeD in_set_dropD)
  moreover have "file_bytes fs p = sst_data (take i es) @ sst_data (take (j - i) (drop i es)) @
      (sst_data (drop j es) @ post)"
    using assms(5) sst_data_split [OF ij, of es] by simp
  ultimately have "Get_scan rd key (entry_offset es i) (entry_offset es j) fs =
    (case map_of es key of
       Some e \<Rightarrow> (Status_OK, Some e)
     | None \<Rightarrow> (NotFound (str ''Key not found in block''), None))"
    using Get_scan_entries [OF assms(1,2), of "take (j - i) (drop i es)"]
    by (simp add: entry_offset_block [OF ij] entry_offset_def [of es i])
  moreover have "unat (snd (idx ! b)) = entry_offset es i"
    using nth [OF b] small by (simp add: i_def)
  moreover have "unat (if b + 1 < length idx then snd (idx ! (b + 1))
      else u64_of (length (sst_data es))) = entry_offset es j"
    using nth [of "b + 1"] small assms(6) \<open>length idx = length ps\<close>
    by (auto simp: j_def entry_offset_def)
  ultimately show ?thesis unfolding b_def [symmetric] by (simp only:)
qed

section \<open>Table files\<close>

definition sst_file :: "Options \<Rightarrow> sst_entries \<Rightarrow> bytes" where
  "sst_file opts es =
     (let data = sst_data es;
          index = concat (map sst_index_entry (sst_index (sparse_index_interval opts) es));
          bloom = sst_bloom opts (map fst es)
      in data @ index @ bloom @
         sst_footer (u64_of (length data)) (u64_of (length index))
           (u64_of (length data) + u64_of (length index)) (u64_of (length bloom))
           (u64_of (length es)))"

text \<open>Entries a table can hold: sorted, with keys and a size that fit their fields.\<close>

definition sst_ok :: "Options \<Rightarrow> sst_entries \<Rightarrow> bool" where
  "sst_ok opts es \<longleftrightarrow>
     es \<noteq> [] \<and> keys_sorted es \<and> keys_fit es \<and> length (sst_file opts es) < 2 ^ 63 \<and>
     length es * bloom_bits_per_key opts + 7 < 2 ^ 64"

lemma length_sst_index_block:
  "length (concat (map sst_index_entry (sst_index n es))) \<le> length (sst_data es)"
proof -
  have ent: "length (sst_index_entry (k, off)) \<le> length (sst_entry k e)" for k off e
    by (simp add: sst_index_entry_def PutVarint32_def PutFixed64_def length_sst_entry)
  have "sum_list (map (\<lambda>i. length (sst_index_entry (fst (es ! i), off i))) (filter P [0..<length es])) \<le>
      sum_list (map (\<lambda>i. length (sst_entry (fst (es ! i)) (snd (es ! i)))) [0..<length es])" for P off
  proof -
    have "sum_list (map (\<lambda>i. length (sst_index_entry (fst (es ! i), off i))) (filter P is)) \<le>
        sum_list (map (\<lambda>i. length (sst_entry (fst (es ! i)) (snd (es ! i)))) is)" for "is"
      by (induction "is") (auto intro: add_mono ent trans_le_add2)
    then show ?thesis .
  qed
  moreover have "length (sst_data es) =
      sum_list (map (\<lambda>i. length (sst_entry (fst (es ! i)) (snd (es ! i)))) [0..<length es])"
  proof -
    have "map (\<lambda>i. length (sst_entry (fst (es ! i)) (snd (es ! i)))) [0..<length es] =
        map (length \<circ> (\<lambda>(k, e). sst_entry k e)) es"
      by (intro nth_equalityI) (auto split: prod.split)
    then show ?thesis by (simp add: sst_data_def length_concat)
  qed
  ultimately show ?thesis
    by (simp add: length_concat sst_index_def index_positions_def comp_def)
qed

text \<open>Any sorted list of entries of a reasonable size makes a table.\<close>

lemma sst_ok_small:
  assumes "es \<noteq> []" and "keys_sorted es" and "keys_fit es"
    and "length (sst_data es) < 2 ^ 60" and "length es * bloom_bits_per_key opts < 2 ^ 60"
  shows "sst_ok opts es"
proof -
  let ?bf = "BloomFilter_new (bloom_bits_per_key opts)"
  have "length (sst_bloom opts (map fst es)) = 4 + length (filter_data (CreateFilter ?bf (map fst es)))"
    by (simp add: sst_bloom_def Let_def PutFixed32_def)
  moreover have "8 * length (filter_data (CreateFilter ?bf (map fst es))) \<le> 2 ^ 60 + 7"
    using filter_data_length [of ?bf "map fst es"] assms(5) by simp
  moreover have "length (sst_file opts es) = length (sst_data es) +
      length (concat (map sst_index_entry (sst_index (sparse_index_interval opts) es))) +
      length (sst_bloom opts (map fst es)) + 48"
    by (simp add: sst_file_def Let_def sst_footer_def PutFixed64_def)
  ultimately show ?thesis
    using assms length_sst_index_block [of "sparse_index_interval opts" es] by (simp add: sst_ok_def)
qed

text \<open>The reader that \<open>SSTableReader::Open\<close> makes of such a file.\<close>

definition sst_reader :: "path \<Rightarrow> Options \<Rightarrow> Options \<Rightarrow> sst_entries \<Rightarrow> SSTableReader" where
  "sst_reader p ropts opts es =
     (let idx = sst_index (sparse_index_interval opts) es;
          bloom = CreateFilter (BloomFilter_new (bloom_bits_per_key opts)) (map fst es)
      in \<lparr>rd_path = p, rd_options = ropts, rd_file = \<lparr>ra_file = Some p\<rparr>,
          rd_bloom = SetRawData (BloomFilter_new 0) (filter_data bloom) (num_hashes bloom),
          rd_sparse_index = idx, rd_num_entries = u64_of (length es),
          rd_data_end_offset = u64_of (length (sst_data es)),
          rd_smallest_key = fst (hd idx), rd_largest_key = fst (last idx)\<rparr>)"

lemma LoadSparseIndex_loop_entries:
  "\<forall>(k, n) \<in> set idx. length k < 2 ^ 32 \<Longrightarrow>
    LoadSparseIndex_loop (concat (map sst_index_entry idx)) = (Status_OK, idx)"
proof (induction idx)
  case (Cons kn idx)
  obtain k n where kn: "kn = (k, n)" by force
  let ?r = "concat (map sst_index_entry idx)"
  have e: "concat (map sst_index_entry (kn # idx)) =
      EncodeVarint32 (u32_of (length k)) @ k @ EncodeFixed64 n @ ?r"
    by (simp add: kn sst_index_entry_def PutVarint32_def PutFixed64_def)
  have "EncodeVarint32 (u32_of (length k)) \<noteq> []"
    using length_EncodeVarint32(1) [of "u32_of (length k)"] by auto
  with Cons show ?case
    unfolding e by (subst LoadSparseIndex_loop.simps) (simp add: kn)
qed (simp add: LoadSparseIndex_loop.simps)

lemma length_sst_bloom: "4 \<le> length (sst_bloom opts keys)"
  by (simp add: sst_bloom_def Let_def PutFixed32_def)

lemma length_sst_footer [simp]: "length (sst_footer a b c d n) = 48"
  by (simp add: sst_footer_def PutFixed64_def)

lemma sst_footer_decode:
  "DecodeFixed64 (sst_footer a b c d n) = a" "DecodeFixed64 (drop 8 (sst_footer a b c d n)) = b"
  "DecodeFixed64 (drop 16 (sst_footer a b c d n)) = c"
  "DecodeFixed64 (drop 24 (sst_footer a b c d n)) = d"
  "DecodeFixed64 (drop 32 (sst_footer a b c d n)) = n"
  "DecodeFixed64 (drop 40 (sst_footer a b c d n)) = kMagicNumber"
  by (simp_all add: sst_footer_def PutFixed64_def)

lemma Random_Read_middle:
  assumes "reliable fs" and "ra_file r = Some p" and "file_bytes fs p = pre @ mid @ post"
    and "length pre = off" and "length mid = n"
  shows "Random_Read r off n fs = (Status_OK, mid)"
  using assms by (simp add: Random_Read_reliable)

theorem SSTableReader_Open_file:
  assumes "reliable fs" and "content fs p = Some (sst_file opts es)" and "sst_ok opts es"
  shows "SSTableReader_Open p ropts fs = (Status_OK, Some (sst_reader p ropts opts es))"
proof -
  define data where "data = sst_data es"
  define idx where "idx = sst_index (sparse_index_interval opts) es"
  define index where "index = concat (map sst_index_entry idx)"
  define bloom where "bloom = sst_bloom opts (map fst es)"
  define footer where "footer = sst_footer (u64_of (length data)) (u64_of (length index))
      (u64_of (length data) + u64_of (length index)) (u64_of (length bloom)) (u64_of (length es))"
  have c: "sst_file opts es = data @ index @ bloom @ footer"
    by (simp add: sst_file_def Let_def data_def idx_def index_def bloom_def footer_def)
  note fb = file_bytes_Some [OF assms(2), unfolded c]
  have size: "length data + length index + length bloom + 48 < 2 ^ 63"
    using assms(3) by (simp add: sst_ok_def c footer_def)
  have lens: "unat (u64_of (length data)) = length data" "unat (u64_of (length index)) = length index"
    "unat (u64_of (length data) + u64_of (length index)) = length data + length index"
    "unat (u64_of (length bloom)) = length bloom"
    using size by (simp_all flip: of_nat_add)
  let ?rd = "\<lparr>rd_path = p, rd_options = ropts, rd_file = \<lparr>ra_file = Some p\<rparr>,
      rd_bloom = BloomFilter_new 0, rd_sparse_index = [], rd_num_entries = u64_of (length es),
      rd_data_end_offset = u64_of (length data), rd_smallest_key = [], rd_largest_key = []\<rparr>"
  let ?rd' = "?rd\<lparr>rd_sparse_index := idx, rd_smallest_key := fst (hd idx),
      rd_largest_key := fst (last idx)\<rparr>"
  have ne: "idx \<noteq> []"
    using assms(3) index_positions_props(3) [of "length es"]
    by (simp add: idx_def sst_index_def sst_ok_def)
  have "\<forall>(k, n) \<in> set idx. length k < 2 ^ 32"
    using assms(3) index_positions_props(2)
    by (auto simp: idx_def sst_index_def sst_ok_def keys_fit_def)
  then have loop: "LoadSparseIndex_loop index = (Status_OK, idx)"
    unfolding index_def by (rule LoadSparseIndex_loop_entries)
  have "index \<noteq> []" using ne loop by (auto simp: LoadSparseIndex_loop.simps)
  then have n0: "u64_of (length index) \<noteq> 0" using lens(2) by (metis length_0_conv unat_0)
  have idx: "LoadSparseIndex (u64_of (length data)) (u64_of (length index)) ?rd fs = (Status_OK, ?rd')"
    using Random_Read_middle [OF assms(1), of "rd_file ?rd" p data index "bloom @ footer"] fb
    by (simp add: LoadSparseIndex_def n0 lens loop ne)
  let ?bf = "CreateFilter (BloomFilter_new (bloom_bits_per_key opts)) (map fst es)"
  have bl: "DecodeFixed32 bloom = u32_of (num_hashes ?bf)" "drop 4 bloom = filter_data ?bf"
    "unat (u32_of (num_hashes ?bf)) = num_hashes ?bf"
    using num_hashes_bounds(2) [of "bloom_bits_per_key opts"]
    by (simp_all add: bloom_def sst_bloom_def Let_def PutFixed32_def)
  have "\<not> u64_of (length bloom) < 4"
    using lens(4) length_sst_bloom [of opts "map fst es"]
    by (simp add: word_less_nat_alt bloom_def)
  then have blo: "LoadBloomFilter (u64_of (length data) + u64_of (length index)) (u64_of (length bloom))
      ?rd' fs = (Status_OK, ?rd'\<lparr>rd_bloom := SetRawData (BloomFilter_new 0) (filter_data ?bf) (num_hashes ?bf)\<rparr>)"
    using Random_Read_middle [OF assms(1), of "rd_file ?rd" p "data @ index" bloom footer] fb
    by (simp add: LoadBloomFilter_def lens bl bl(3) [unfolded num_hashes_CreateFilter])
  have total: "length (sst_file opts es) = length data + length index + length bloom + 48"
    by (simp add: c footer_def)
  have "u64_of (length (sst_file opts es)) - 48 = u64_of (length data + length index + length bloom)"
    by (simp add: total)
  moreover have "length data + length index + length bloom < 2 ^ 64" using size by simp
  ultimately have fsz1: "unat (u64_of (length (sst_file opts es)) - 48) =
      length data + length index + length bloom"
    by (simp only: unat_of_nat_64)
  have "length (sst_file opts es) < 2 ^ 64" using size total by simp
  then have fsz2: "\<not> u64_of (length (sst_file opts es)) < 48"
    using total by (simp only: word_less_nat_alt unat_of_nat_64) simp
  have "Random_Read (rd_file ?rd) (length data + length index + length bloom) 48 fs = (Status_OK, footer)"
    using Random_Read_middle [OF assms(1), of "rd_file ?rd" p "data @ index @ bloom" footer "[]"] fb
    by (simp add: footer_def)
  then have "LoadFooter (?rd\<lparr>rd_num_entries := 0, rd_data_end_offset := 0\<rparr>) fs =
      (Status_OK, ?rd'\<lparr>rd_bloom := SetRawData (BloomFilter_new 0) (filter_data ?bf) (num_hashes ?bf)\<rparr>)"
    using assms(1,2) idx blo
    by (simp add: LoadFooter_def FileSize_def fsz1 fsz2 footer_def sst_footer_decode)
  then show ?thesis
    using assms(1,2)
    by (simp add: SSTableReader_Open_def Random_Open_def fopen_rb_def SSTableReader_new_def
        RandomAccessFileReader_new_def sst_reader_def Let_def idx_def data_def)
qed

section \<open>Point lookup\<close>

text \<open>
  The contract a database relies on: a reader stands for a sorted list of entries that the
  file holds, and a lookup is the lookup in that list.
\<close>

definition is_table :: "fs \<Rightarrow> SSTableReader \<Rightarrow> sst_entries \<Rightarrow> bool" where
  "is_table fs rd es \<longleftrightarrow>
     (\<exists>opts. sst_ok opts es \<and> content fs (rd_path rd) = Some (sst_file opts es) \<and>
        rd = sst_reader (rd_path rd) (rd_options rd) opts es)"

lemma is_table_reader:
  "sst_ok opts es \<Longrightarrow> content fs p = Some (sst_file opts es) \<Longrightarrow> is_table fs (sst_reader p ropts opts es) es"
  by (auto simp: is_table_def sst_reader_def Let_def)

lemma is_table_cong: "content fs' (rd_path rd) = content fs (rd_path rd) \<Longrightarrow> is_table fs' rd es = is_table fs rd es"
  by (simp add: is_table_def)

lemma is_table_data:
  assumes "is_table fs rd es"
  obtains post where "file_bytes fs (rd_path rd) = sst_data es @ post"
    and "ra_file (rd_file rd) = Some (rd_path rd)" and "length (sst_data es) < 2 ^ 63"
    and "unat (rd_data_end_offset rd) = length (sst_data es)"
    and "keys_sorted es" and "keys_fit es" and "es \<noteq> []"
proof -
  from assms obtain opts where o: "sst_ok opts es" "content fs (rd_path rd) = Some (sst_file opts es)"
    "rd = sst_reader (rd_path rd) (rd_options rd) opts es"
    by (auto simp: is_table_def)
  obtain post where post: "sst_file opts es = sst_data es @ post"
    by (simp add: sst_file_def Let_def)
  with o(1) have len: "length (sst_data es) < 2 ^ 63" by (simp add: sst_ok_def)
  have "rd_file rd = \<lparr>ra_file = Some (rd_path rd)\<rparr>" "rd_data_end_offset rd = u64_of (length (sst_data es))"
    using o(3) by (metis SSTableReader.select_convs sst_reader_def)+
  then show ?thesis
    using o(1,2) post len by (intro that) (simp_all add: file_bytes_Some sst_ok_def)
qed

theorem SSTable_Get_table:
  assumes "reliable fs" and "is_table fs rd es"
  shows "\<exists>msg. SSTable_Get rd key fs =
    (case map_of es key of Some e \<Rightarrow> (Status_OK, Some e) | None \<Rightarrow> (NotFound msg, None))"
proof -
  from assms(2) obtain opts where o: "sst_ok opts es"
    "rd = sst_reader (rd_path rd) (rd_options rd) opts es" by (auto simp: is_table_def)
  let ?idx = "sst_index (sparse_index_interval opts) es"
  let ?bf = "CreateFilter (BloomFilter_new (bloom_bits_per_key opts)) (map fst es)"
  have f: "rd_sparse_index rd = ?idx" "rd_data_end_offset rd = u64_of (length (sst_data es))"
    "rd_bloom rd = SetRawData (BloomFilter_new 0) (filter_data ?bf) (num_hashes ?bf)"
    using o(2) by (metis SSTableReader.select_convs sst_reader_def)+
  obtain post where d: "file_bytes fs (rd_path rd) = sst_data es @ post"
    "ra_file (rd_file rd) = Some (rd_path rd)" "length (sst_data es) < 2 ^ 63"
    "keys_sorted es" "keys_fit es" "es \<noteq> []"
    using assms(2) by (rule is_table_data)
  have ne: "?idx \<noteq> []"
    using d(6) index_positions_props(3) [of "length es"] by (simp add: sst_index_def)
  have bits: "length (map fst es) * bloom_bits_per_key opts + 7 < 2 ^ 64"
    using o(1) by (simp add: sst_ok_def)
  have may: "MayContain (rd_bloom rd) key = MayContain ?bf key"
    by (simp only: f MayContain_SetRawData)
  have "filter_data ?bf \<noteq> []"
    using d(6) bits by (intro filter_data_nonempty) simp_all
  then have raw: "filter_data (rd_bloom rd) \<noteq> []"
    by (simp only: f SetRawData_def) simp
  show ?thesis
  proof (cases "MayContain (rd_bloom rd) key")
    case False
    then have "map_of es key = None"
      using bloom.guarded_lookup [OF bits, of key] by (simp add: may)
    with False raw show ?thesis by (auto simp: SSTable_Get_def)
  next
    case True
    have "SSTable_Get rd key fs = Get_scan rd key (unat (snd (?idx ! find_block ?idx key)))
        (unat (if find_block ?idx key + 1 < length ?idx then snd (?idx ! (find_block ?idx key + 1))
               else u64_of (length (sst_data es)))) fs"
      unfolding SSTable_Get_def Let_def f(1,2) using True ne by (simp only: simp_thms if_False)
    also have "\<dots> = (case map_of es key of
        Some e \<Rightarrow> (Status_OK, Some e) | None \<Rightarrow> (NotFound (str ''Key not found in block''), None))"
      by (rule Get_block [OF assms(1) d(2,4,5,1) _ d(6)]) (use d(3) in simp)
    finally have "SSTable_Get rd key fs = (case map_of es key of
        Some e \<Rightarrow> (Status_OK, Some e) | None \<Rightarrow> (NotFound (str ''Key not found in block''), None))" .
    then show ?thesis by auto
  qed
qed

section \<open>The writer produces the layout\<close>

text \<open>A writer open on an empty file that has been given the entries \<open>es\<close>.\<close>

definition sw_has :: "SSTableWriter \<Rightarrow> path \<Rightarrow> Options \<Rightarrow> sst_entries \<Rightarrow> bool" where
  "sw_has sw p opts es \<longleftrightarrow>
     sw_path sw = p \<and> sw_options sw = opts \<and> \<not> sw_finished sw \<and>
     sw_writer sw = Some \<lparr>wr_file = Some \<lparr>file_path = p, file_buf = sst_data es\<rparr>,
       wr_offset = u64_of (length (sst_data es))\<rparr> \<and>
     sw_num_entries sw = u64_of (length es) \<and>
     sw_data_offset sw = u64_of (length (sst_data es)) \<and>
     sw_smallest_key sw = (if es = [] then [] else fst (hd es)) \<and>
     sw_largest_key sw = (if es = [] then [] else fst (last es)) \<and>
     sw_sparse_index sw = sst_index (sparse_index_interval opts) es \<and>
     sw_since_index sw =
       (if es = [] then 0 else Suc ((length es - 1) mod max 1 (sparse_index_interval opts))) \<and>
     sw_key_storage sw = map fst es"

lemma length_sst_data_ge: "26 * length es \<le> length (sst_data es)"
proof (induction es)
  case (Cons ke es)
  obtain k e where "ke = (k, e)" by force
  with Cons length_EncodeVarint32(1) [of "u32_of (length k)"] show ?case
    by (simp add: length_sst_entry)
qed simp

lemma sst_index_snoc:
  "sst_index n (es @ [(k, e)]) =
     sst_index n es @ (if length es mod max 1 n = 0 then [(k, u64_of (length (sst_data es)))] else [])"
proof -
  have "map (\<lambda>i. (fst ((es @ [(k, e)]) ! i), u64_of (entry_offset (es @ [(k, e)]) i)))
      (index_positions n (length es)) = sst_index n es"
    unfolding sst_index_def
    by (rule map_cong [OF refl])
      (auto simp: nth_append entry_offset_def dest: index_positions_props(2))
  then show ?thesis
    by (simp add: sst_index_def index_positions_def nth_append entry_offset_def)
qed

text \<open>The counter reaches the interval exactly at its multiples.\<close>

lemma since_index_due:
  fixes n m :: nat
  assumes "0 < m"
  shows "n \<le> Suc ((m - 1) mod max 1 n) \<longleftrightarrow> m mod max 1 n = 0"
    and "m mod max 1 n \<noteq> 0 \<Longrightarrow> Suc ((m - 1) mod max 1 n) = m mod max 1 n"
proof -
  define x where "x = (m - 1) mod max 1 n"
  have "x < max 1 n" by (simp add: x_def)
  moreover have suc: "m mod max 1 n = (if Suc x = max 1 n then 0 else Suc x)"
    using mod_Suc [of "m - 1" "max 1 n"] assms by (simp add: x_def)
  ultimately show "n \<le> Suc ((m - 1) mod max 1 n) \<longleftrightarrow> m mod max 1 n = 0"
    unfolding suc x_def [symmetric] by (auto simp: max_def split: if_splits)
  show "m mod max 1 n \<noteq> 0 \<Longrightarrow> Suc ((m - 1) mod max 1 n) = m mod max 1 n"
    unfolding suc x_def [symmetric] by (auto split: if_splits)
qed

lemma SSTableWriter_Open_has:
  assumes "reliable fs"
  obtains sw fs' where "SSTableWriter_Open (SSTableWriter_new p opts) fs = (Status_OK, sw, fs')"
    and "sw_has sw p opts []" and "reliable fs'" and "content fs' = (content fs)(p \<mapsto> [])"
proof -
  let ?r = "SSTableWriter_Open (SSTableWriter_new p opts) fs"
  show ?thesis
    by (rule that [of "fst (snd ?r)" "snd (snd ?r)"])
      (use assms in \<open>auto simp: SSTableWriter_Open_def SSTableWriter_new_def Writer_Open_def
        SequentialFileWriter_new_def sw_has_def sst_index_def index_positions_def Let_def\<close>)
qed

lemma Add_track_fields:
  "sw_path (Add_track k sw) = sw_path sw" "sw_options (Add_track k sw) = sw_options sw"
  "sw_writer (Add_track k sw) = sw_writer sw" "sw_finished (Add_track k sw) = sw_finished sw"
  "sw_num_entries (Add_track k sw) = sw_num_entries sw"
  "sw_data_offset (Add_track k sw) = sw_data_offset sw"
  "sw_key_storage (Add_track k sw) = sw_key_storage sw @ [k]"
  "sw_largest_key (Add_track k sw) = k"
  "sw_smallest_key (Add_track k sw) = (if sw_num_entries sw = 0 then k else sw_smallest_key sw)"
  by (simp_all add: Add_track_def Let_def)

lemma Add_track_index:
  assumes "sw_num_entries sw = 0 \<or> sparse_index_interval (sw_options sw) \<le> sw_since_index sw \<longleftrightarrow> due"
  shows "sw_sparse_index (Add_track k sw) =
      sw_sparse_index sw @ (if due then [(k, sw_data_offset sw)] else [])"
    and "sw_since_index (Add_track k sw) = (if due then 0 else sw_since_index sw)"
  using assms by (auto simp: Add_track_def Let_def)

lemma SSTableWriter_Add_has:
  assumes "reliable fs" and "sw_has sw p opts es" and "length (sst_data es) < 2 ^ 63"
  obtains sw' where "SSTableWriter_Add k e sw fs = (Status_OK, sw')"
    and "sw_has sw' p opts (es @ [(k, e)])"
proof -
  let ?n = "sparse_index_interval opts"
  have "length es < 2 ^ 64" using length_sst_data_ge [of es] assms(3) by simp
  then have zero: "u64_of (length es) = 0 \<longleftrightarrow> es = []"
    by (simp only: u64_of_eq_0 length_0_conv)
  note has = assms(2) [unfolded sw_has_def]
  have z: "sw_num_entries sw = 0 \<longleftrightarrow> es = []" using has zero by simp
  have due: "sw_num_entries sw = 0 \<or> sparse_index_interval (sw_options sw) \<le> sw_since_index sw \<longleftrightarrow>
      length es mod max 1 ?n = 0"
    using has z since_index_due(1) [of "length es" ?n] by auto
  let ?sw = "snd (SSTableWriter_Add k e sw fs)"
  have add: "SSTableWriter_Add k e sw fs = (Status_OK, ?sw)"
    using assms(1) has by (simp add: SSTableWriter_Add_def Let_def Add_track_fields reliable_io)
  have "sw_has ?sw p opts (es @ [(k, e)])"
    using assms(1) has since_index_due(2) [of "length es" ?n] z
    by (auto simp: SSTableWriter_Add_def Let_def Add_track_fields Add_track_index [OF due] reliable_io
        sw_has_def sst_index_snoc)
  with add show ?thesis by (rule that)
qed

text \<open>Adding a list of entries, as \<open>FlushMemTable\<close> does.\<close>

fun Add_entries :: "sst_entries \<Rightarrow> SSTableWriter \<Rightarrow> fs \<Rightarrow> Status \<times> SSTableWriter" where
  "Add_entries [] sw fs = (Status_OK, sw)"
| "Add_entries ((k, e) # es) sw fs =
     (let (s, sw) = SSTableWriter_Add k e sw fs
      in if \<not> ok s then (s, sw) else Add_entries es sw fs)"

lemma Add_entries_has:
  assumes "reliable fs"
  shows "sw_has sw p opts es0 \<Longrightarrow> length (sst_data (es0 @ es)) < 2 ^ 63 \<Longrightarrow>
    \<exists>sw'. Add_entries es sw fs = (Status_OK, sw') \<and> sw_has sw' p opts (es0 @ es)"
proof (induction es arbitrary: sw es0)
  case (Cons ke es)
  obtain k e where ke: "ke = (k, e)" by force
  obtain sw1 where sw1: "SSTableWriter_Add k e sw fs = (Status_OK, sw1)"
    "sw_has sw1 p opts (es0 @ [(k, e)])"
    by (rule SSTableWriter_Add_has [OF assms Cons.prems(1)]) (use Cons.prems(2) in simp_all)
  then show ?case using Cons.IH [OF sw1(2)] Cons.prems(2) ke by simp
qed simp

lemma Finish_has:
  assumes "reliable fs" and "sw_has sw p opts es" and "content fs p = Some []"
  obtains sw' fs' where "Finish sw fs = (Status_OK, sw', fs')" and "reliable fs'"
    and "content fs' = (content fs)(p \<mapsto> sst_file opts es)"
    and "Writer_FileSize sw' = u64_of (length (sst_file opts es))"
    and "sw_num_entries sw' = u64_of (length es)"
    and "sw_smallest_key sw' = sw_smallest_key sw" and "sw_largest_key sw' = sw_largest_key sw"
proof -
  note has = assms(2) [unfolded sw_has_def]
  let ?r = "Finish sw fs"
  show ?thesis
    by (rule that [of "fst (snd ?r)" "snd (snd ?r)"])
      (use assms(1,3) has in \<open>simp_all add: Finish_def Let_def reliable_io file_bytes_Some
        sst_file_def Writer_FileSize_def add.assoc\<close>)
qed

section \<open>Iteration\<close>

text \<open>An iterator whose current and remaining entries are \<open>es\<close>.\<close>

definition iter_on :: "fs \<Rightarrow> SSTableReader \<Rightarrow> SSTableIterator \<Rightarrow> sst_entries \<Rightarrow> bool" where
  "iter_on fs rd it es \<longleftrightarrow>
     (case es of
        [] \<Rightarrow> \<not> it_valid it
      | (k, e) # r \<Rightarrow>
          it_valid it \<and> it_key it = k \<and> it_entry it = e \<and>
          (\<exists>pre post. file_bytes fs (rd_path rd) = pre @ sst_data r @ post \<and>
             length pre = it_offset it \<and> it_data_end it = length pre + length (sst_data r)))"

lemma Iter_ReadEntryAt_on:
  assumes "reliable fs" and "ra_file (rd_file rd) = Some (rd_path rd)" and "keys_fit es"
    and "file_bytes fs (rd_path rd) = pre @ sst_data es @ post" and "length pre = off"
    and "it_data_end it = length pre + length (sst_data es)"
  obtains s it' where "Iter_ReadEntryAt rd off it fs = (s, it')" and "iter_on fs rd it' es"
    and "ok s \<longleftrightarrow> es \<noteq> []" and "IsNotFound s \<longleftrightarrow> es = []" and "it_data_end it' = it_data_end it"
proof (cases es)
  case Nil
  with assms(5,6) show ?thesis
    by (intro that [of "NotFound (str ''Reached end of data blocks'')" "it\<lparr>it_valid := False\<rparr>"])
      (simp_all add: Iter_ReadEntryAt_def iter_on_def)
next
  case (Cons ke r)
  obtain k e where ke: "ke = (k, e)" by force
  have "length k < 2 ^ 32" using assms(3) Cons ke by (simp add: keys_fit_def)
  then have rd: "ReadEntryAt rd off fs = (Status_OK, Some (k, e, off + length (sst_entry k e)))"
    using assms(4,5) Cons ke
    by (intro ReadEntryAt_entry [OF assms(1,2), of k pre e "sst_data r @ post"]) simp_all
  have lt: "off < it_data_end it" using assms(5,6) Cons ke by (simp add: length_sst_entry)
  let ?it = "it\<lparr>it_key := k, it_entry := e, it_offset := off + length (sst_entry k e), it_valid := True\<rparr>"
  have "iter_on fs rd ?it es"
    unfolding iter_on_def Cons ke list.case prod.case
    by (intro conjI exI [of _ "pre @ sst_entry k e"] exI [of _ post])
      (use assms(4-6) Cons ke in simp_all)
  then show ?thesis
    using rd lt Cons by (intro that [of Status_OK ?it]) (simp_all add: Iter_ReadEntryAt_def)
qed

lemma SeekToFirst_on:
  assumes "reliable fs" and "is_table fs rd es"
  obtains s it where "SeekToFirst rd (NewIterator rd) fs = (s, it)" and "ok s" and "iter_on fs rd it es"
proof -
  obtain post where d: "file_bytes fs (rd_path rd) = sst_data es @ post"
    "ra_file (rd_file rd) = Some (rd_path rd)" "unat (rd_data_end_offset rd) = length (sst_data es)"
    "keys_fit es" "es \<noteq> []"
    using assms(2) by (rule is_table_data)
  show ?thesis
    by (rule Iter_ReadEntryAt_on [OF assms(1) d(2,4), of "[]" post 0 "(NewIterator rd)\<lparr>it_offset := 0\<rparr>"])
      (use d that in \<open>auto simp: SeekToFirst_def NewIterator_def\<close>)
qed

lemma Iter_Next_on:
  assumes "reliable fs" and "ra_file (rd_file rd) = Some (rd_path rd)" and "keys_fit es"
    and "iter_on fs rd it (ke # es)"
  obtains s it' where "Iter_Next rd it fs = (s, it')" and "iter_on fs rd it' es"
    and "ok s \<longleftrightarrow> es \<noteq> []" and "IsNotFound s \<longleftrightarrow> es = []"
proof -
  obtain k e where ke: "ke = (k, e)" by force
  from assms(4) obtain pre post where p: "it_valid it"
    "file_bytes fs (rd_path rd) = pre @ sst_data es @ post" "length pre = it_offset it"
    "it_data_end it = length pre + length (sst_data es)"
    by (auto simp: iter_on_def ke)
  show ?thesis
    by (rule Iter_ReadEntryAt_on [OF assms(1,2,3) p(2,3,4)]) (use p(1) that in \<open>auto simp: Iter_Next_def\<close>)
qed

text \<open>\<open>Seek\<close> stops at the first key that is not below the target.\<close>

lemma Seek_scan_on:
  assumes "reliable fs" and "ra_file (rd_file rd) = Some (rd_path rd)"
  shows "keys_fit es \<Longrightarrow> file_bytes fs (rd_path rd) = pre @ sst_data es @ post \<Longrightarrow>
    length pre = it_offset it \<Longrightarrow> it_data_end it = length pre + length (sst_data es) \<Longrightarrow>
    \<exists>s it'. Seek_scan rd target it fs = (s, it') \<and>
      iter_on fs rd it' (dropWhile (\<lambda>(k, _). k < target) es) \<and>
      (ok s \<longleftrightarrow> dropWhile (\<lambda>(k, _). k < target) es \<noteq> [])"
proof (induction es arbitrary: it pre post)
  case Nil
  then show ?case by (subst Seek_scan.simps) (simp add: iter_on_def)
next
  case (Cons ke es)
  obtain k e where ke: "ke = (k, e)" by force
  obtain s it1 where r: "Iter_ReadEntryAt rd (it_offset it) it fs = (s, it1)" and ok: "ok s"
    and on: "iter_on fs rd it1 (ke # es)" and ed: "it_data_end it1 = it_data_end it"
    by (rule Iter_ReadEntryAt_on [OF assms Cons.prems]) auto
  have lt: "it_offset it < it_data_end it"
    using Cons.prems(3,4) ke by (simp add: length_sst_entry)
  show ?case
  proof (cases "target \<le> k")
    case True
    with r ok on lt ke show ?thesis
      by (subst Seek_scan.simps) (auto simp: iter_on_def)
  next
    case False
    from on obtain pre1 post1 where p: "file_bytes fs (rd_path rd) = pre1 @ sst_data es @ post1"
      "length pre1 = it_offset it1" "it_data_end it1 = length pre1 + length (sst_data es)" "it_key it1 = k"
      by (auto simp: iter_on_def ke)
    have fit: "keys_fit es" using Cons.prems(1) by (simp add: keys_fit_def)
    note IH = Cons.IH [OF fit p(1-3)]
    have "(k < target) = True" "(target \<le> k) = False" using False by auto
    with r ok lt p(4) ke show ?thesis
      by (subst Seek_scan.simps) (simp add: IH del: dropWhile_eq_Nil_conv)
  qed
qed

lemma Seek_on:
  assumes "reliable fs" and "is_table fs rd es"
  shows "\<exists>s it. Seek rd target (NewIterator rd) fs = (s, it) \<and>
    iter_on fs rd it (dropWhile (\<lambda>(k, _). k < target) es) \<and>
    (ok s \<longleftrightarrow> dropWhile (\<lambda>(k, _). k < target) es \<noteq> [])"
proof -
  from assms(2) obtain opts where o: "rd = sst_reader (rd_path rd) (rd_options rd) opts es"
    by (auto simp: is_table_def)
  define idx where "idx = sst_index (sparse_index_interval opts) es"
  define ps where "ps = index_positions (sparse_index_interval opts) (length es)"
  define b where "b = find_block idx target"
  define i where "i = ps ! b"
  have f: "rd_sparse_index rd = idx"
    using o unfolding idx_def by (metis SSTableReader.select_convs(5) sst_reader_def)
  obtain post where d: "file_bytes fs (rd_path rd) = sst_data es @ post"
    "ra_file (rd_file rd) = Some (rd_path rd)" "length (sst_data es) < 2 ^ 63"
    "unat (rd_data_end_offset rd) = length (sst_data es)" "keys_sorted es" "keys_fit es" "es \<noteq> []"
    using assms(2) by (rule is_table_data)
  note ps = index_positions_props [where n = "sparse_index_interval opts" and m = "length es", folded ps_def]
  have ps0: "ps \<noteq> []" "ps ! 0 = 0" using ps(3) d(7) by auto
  have ne: "idx \<noteq> []" and len: "length idx = length ps"
    using ps0 by (auto simp: idx_def sst_index_def ps_def)
  note fb = find_block_correct [OF sst_index_sorted [OF d(5), of "sparse_index_interval opts", folded idx_def] ne, of target, folded b_def]
  have nth: "idx ! b = (fst (es ! i), u64_of (entry_offset es i))"
    using fb(1) len by (simp add: idx_def ps_def i_def sst_index_nth)
  have i: "i < length es" using fb(1) len ps(2) by (auto simp: i_def)
  have "k < target" if "(k, e) \<in> set (take i es)" for k e
  proof -
    from that obtain a where a: "a < i" "a < length es" "es ! a = (k, e)" by (auto simp: in_set_conv_nth)
    then have "b \<noteq> 0" using ps0 by (cases b) (auto simp: i_def)
    moreover have "fst (es ! a) < fst (es ! i)"
      using d(5) a(1) i by (simp add: keys_sorted_def sorted_wrt_iff_nth_less)
    ultimately show ?thesis using fb(3) nth a(3) by auto
  qed
  then have dw: "dropWhile (\<lambda>(k, _). k < target) es = dropWhile (\<lambda>(k, _). k < target) (drop i es)"
    by (metis (mono_tags, lifting) append_take_drop_id case_prodI2 dropWhile_append2)
  have off: "unat (snd (idx ! b)) = length (sst_data (take i es))"
    using nth entry_offset_le [of es i] d(3) by (simp add: entry_offset_def)
  let ?it = "(NewIterator rd)\<lparr>it_offset := unat (snd (idx ! b))\<rparr>"
  have spl: "sst_data es = sst_data (take i es) @ sst_data (drop i es)"
    by (metis append_take_drop_id sst_data_simps(3))
  have "\<exists>s it'. Seek_scan rd target ?it fs = (s, it') \<and>
      iter_on fs rd it' (dropWhile (\<lambda>(k, _). k < target) (drop i es)) \<and>
      (ok s \<longleftrightarrow> dropWhile (\<lambda>(k, _). k < target) (drop i es) \<noteq> [])"
    using d spl off
    by (intro Seek_scan_on [OF assms(1) d(2), of "drop i es" "sst_data (take i es)" post])
      (auto simp: NewIterator_def keys_fit_def dest: in_set_dropD)
  then show ?thesis
    unfolding dw Seek_def f b_def [symmetric] Let_def using ne by simp
qed

section \<open>Properties\<close>

text \<open>
  C17: a point lookup in an opened table, through the bloom filter, the binary search of the
  sparse index and the scan of one block, gives what the sorted list of its entries holds for
  the key, and \<open>NotFound\<close> otherwise.
\<close>
theorem sst_get_correct:
  assumes "reliable fs" and "content fs p = Some (sst_file opts es)" and "sst_ok opts es"
  shows "\<exists>rd. SSTableReader_Open p opts fs = (Status_OK, Some rd) \<and>
    (\<forall>key. \<exists>msg. SSTable_Get rd key fs =
       (case map_of es key of Some e \<Rightarrow> (Status_OK, Some e) | None \<Rightarrow> (NotFound msg, None)))"
  using SSTableReader_Open_file [OF assms] SSTable_Get_table [OF assms(1) is_table_reader [OF assms(3,2)]]
  by blast

theorem sst_get_correct_witness:
  defines "es \<equiv> [([1], \<lparr>vlog_ptr = null_ptr, entry_seq = 7, entry_type = kDeletion\<rparr>)]"
    and "opts \<equiv> default_Options (\<lambda>_ _. True)"
  shows "\<exists>rd. SSTableReader_Open [47] opts (set_content [47] (sst_file opts es) empty_fs) = (Status_OK, Some rd) \<and>
    SSTable_Get rd [1] (set_content [47] (sst_file opts es) empty_fs) = (Status_OK, Some (snd (hd es)))"
proof -
  have "sst_ok opts es"
    by (rule sst_ok_small) (use length_EncodeVarint32(2) [of 1] in
      \<open>simp_all add: es_def opts_def default_Options_def keys_sorted_def keys_fit_def length_sst_entry\<close>)
  then obtain rd where "SSTableReader_Open [47] opts (set_content [47] (sst_file opts es) empty_fs) = (Status_OK, Some rd)"
    and get: "\<exists>msg. SSTable_Get rd [1] (set_content [47] (sst_file opts es) empty_fs) =
      (case map_of es [1] of Some e \<Rightarrow> (Status_OK, Some e) | None \<Rightarrow> (NotFound msg, None))"
    using sst_get_correct [of "set_content [47] (sst_file opts es) empty_fs" "[47]" opts es] by auto
  then show ?thesis by (auto simp: es_def)
qed



text \<open>
  C25: seeking an iterator of a table places it on the first entry whose key is not below the
  target, with all the later entries still to come, and it reports \<open>ok\<close> exactly when there is
  such an entry.
\<close>
theorem sst_seek_correct:
  assumes "reliable fs" and "is_table fs rd es"
  shows "\<exists>s it. Seek rd target (NewIterator rd) fs = (s, it) \<and>
    iter_on fs rd it (dropWhile (\<lambda>(k, _). k < target) es) \<and>
    (ok s \<longleftrightarrow> dropWhile (\<lambda>(k, _). k < target) es \<noteq> [])"
  using assms by (rule Seek_on)

theorem sst_seek_correct_witness:
  defines "es \<equiv> [([1], \<lparr>vlog_ptr = null_ptr, entry_seq = 7, entry_type = kDeletion\<rparr>)]"
    and "opts \<equiv> default_Options (\<lambda>_ _. True)"
  shows "\<exists>s it. Seek (sst_reader [47] opts opts es) [2] (NewIterator (sst_reader [47] opts opts es))
      (set_content [47] (sst_file opts es) empty_fs) = (s, it) \<and> \<not> ok s"
proof -
  have "sst_ok opts es"
    by (rule sst_ok_small) (use length_EncodeVarint32(2) [of 1] in
      \<open>simp_all add: es_def opts_def default_Options_def keys_sorted_def keys_fit_def length_sst_entry\<close>)
  then have "is_table (set_content [47] (sst_file opts es) empty_fs) (sst_reader [47] opts opts es) es"
    by (rule is_table_reader) simp
  from sst_seek_correct [OF _ this, of "[2]"] show ?thesis by (auto simp: es_def)
qed

text \<open>
  C32: a file that is too short for a footer or whose last eight bytes are not the magic number
  is refused with \<open>Corruption\<close> and no reader.
\<close>
theorem sst_open_rejects:
  assumes "reliable fs" and "content fs p = Some c" and "length c < 2 ^ 63"
    and "length c < 48 \<or> DecodeFixed64 (drop (length c - 8) c) \<noteq> kMagicNumber"
  shows "IsCorruption (fst (SSTableReader_Open p opts fs)) \<and> snd (SSTableReader_Open p opts fs) = None"
proof -
  have fb: "file_bytes fs p = c" using assms(2) by (rule file_bytes_Some)
  have sz: "unat (u64_of (length c)) = length c" using assms(3) by simp
  have lt: "u64_of (length c) < 48 \<longleftrightarrow> length c < 48" by (simp add: word_less_nat_alt sz)
  have off: "unat (u64_of (length c) - 48) = length c - 48" if "48 \<le> length c"
    using that sz by (subst unat_sub) (simp_all add: word_le_nat_alt)
  show ?thesis
    using assms off
    by (auto simp: SSTableReader_Open_def SSTableReader_new_def Random_Open_def fopen_rb_def LoadFooter_def
        FileSize_def lt Let_def reliable_io fb RandomAccessFileReader_new_def)
qed

theorem sst_open_rejects_witness:
  "IsCorruption (fst (SSTableReader_Open [7] (default_Options (\<lambda>_ _. True)) (set_content [7] [1, 2] empty_fs)))"
  using sst_open_rejects [of "set_content [7] [1, 2] empty_fs" "[7]" "[1, 2]"] by simp

end
