(* ===== verification/Manifest.thy ===== *)
theory Manifest
  imports Sstable
begin

text \<open>
  The table metadata of \<open>sstable.h\<close> and the manifest text that \<open>DBImpl::SaveManifest\<close>
  writes and \<open>DBImpl::LoadManifest\<close> reads: one line with the next file id and one line
  of five blank-separated fields per table.

  The reader goes through \<open>std::istringstream\<close>: an extraction skips white space, takes
  the longest prefix its type allows and fails on an empty or out-of-range one; after a
  failure nothing more is extracted.
\<close>

section \<open>Metadata\<close>

record SSTableMeta =
  meta_file_id :: u32
  meta_level :: int
  meta_smallest_key :: bytes
  meta_largest_key :: bytes
  meta_num_entries :: u64
  meta_file_size :: u64

record SSTableInfo =
  info_meta :: SSTableMeta
  info_reader :: SSTableReader

section \<open>Writing\<close>

definition show_int :: "int \<Rightarrow> bytes" where
  "show_int i = (if i < 0 then 45 # show_nat (nat (- i)) else show_nat (nat i))"

definition newline :: byte where "newline = 10"
definition blank :: byte where "blank = 32"

definition manifest_line :: "SSTableMeta \<Rightarrow> bytes" where
  "manifest_line meta =
     show_nat (unat (meta_file_id meta)) @ [blank] @
     show_int (meta_level meta) @ [blank] @
     show_nat (unat (meta_num_entries meta)) @ [blank] @
     meta_smallest_key meta @ [blank] @
     meta_largest_key meta @ [newline]"

definition manifest_text :: "u32 \<Rightarrow> SSTableInfo list list \<Rightarrow> bytes" where
  "manifest_text next_id levels =
     show_nat (unat next_id) @ [newline] @
     concat (map (\<lambda>info. manifest_line (info_meta info)) (concat levels))"

section \<open>Extraction\<close>

definition is_space :: "byte \<Rightarrow> bool" where
  "is_space b \<longleftrightarrow> b = 32 \<or> (9 \<le> b \<and> b \<le> 13)"

definition skip_ws :: "bytes \<Rightarrow> bytes" where
  "skip_ws s = dropWhile is_space s"

text \<open>An optional sign and the digits after it.\<close>

definition scan_number :: "bytes \<Rightarrow> bool \<times> bytes \<times> bytes" where
  "scan_number s =
     (let s = skip_ws s;
          neg = (s \<noteq> [] \<and> hd s = 45);
          s = (if s \<noteq> [] \<and> (hd s = 45 \<or> hd s = 43) then tl s else s)
      in (neg, takeWhile is_digit s, dropWhile is_digit s))"

text \<open>
  \<open>is >> n\<close> for an unsigned type with the largest value \<open>mx\<close>: the value that is
  stored, whether the extraction succeeded, and the rest of the stream.
\<close>

definition read_uint :: "nat \<Rightarrow> bytes \<Rightarrow> nat \<times> bool \<times> bytes" where
  "read_uint mx s =
     (case scan_number s of
        (neg, ds, rest) \<Rightarrow>
          if ds = [] then (0, False, rest)
          else if mx < dec_val ds then (mx, False, rest)
          else (if neg \<and> 0 < dec_val ds then mx + 1 - dec_val ds else dec_val ds, True, rest))"

definition read_int :: "bytes \<Rightarrow> int \<times> bool \<times> bytes" where
  "read_int s =
     (case scan_number s of
        (neg, ds, rest) \<Rightarrow>
          (let n = (if neg then - int (dec_val ds) else int (dec_val ds))
           in if ds = [] then (0, False, rest)
              else if 2 ^ 31 - 1 < n then (2 ^ 31 - 1, False, rest)
              else if n < - (2 ^ 31) then (- (2 ^ 31), False, rest)
              else (n, True, rest)))"

definition read_word :: "bytes \<Rightarrow> bytes \<times> bool \<times> bytes" where
  "read_word s =
     (let s = skip_ws s; w = takeWhile (\<lambda>b. \<not> is_space b) s
      in (w, w \<noteq> [], dropWhile (\<lambda>b. \<not> is_space b) s))"

text \<open>\<open>iss >> file_id >> level >> num_entries >> smallest >> largest\<close>.\<close>

definition read_line :: "bytes \<Rightarrow> (u32 \<times> int \<times> u64 \<times> bytes \<times> bytes \<times> bytes) option" where
  "read_line s =
     (let (file_id, ok1, s) = read_uint (2 ^ 32 - 1) s;
          (level, ok2, s) = read_int s;
          (num_entries, ok3, s) = read_uint (2 ^ 64 - 1) s;
          (smallest, ok4, s) = read_word s;
          (largest, ok5, s) = read_word s
      in if ok1 \<and> ok2 \<and> ok3 \<and> ok4 \<and> ok5
         then Some (u32_of file_id, level, u64_of num_entries, smallest, largest, s)
         else None)"

lemma length_skip_ws: "length (skip_ws s) \<le> length s"
  by (simp add: skip_ws_def length_dropWhile_le)

lemma scan_number_shorter: "scan_number s = (neg, ds, rest) \<Longrightarrow> length rest \<le> length s"
proof -
  assume a: "scan_number s = (neg, ds, rest)"
  let ?t = "if skip_ws s \<noteq> [] \<and> (hd (skip_ws s) = 45 \<or> hd (skip_ws s) = 43)
    then tl (skip_ws s) else skip_ws s"
  have "rest = dropWhile is_digit ?t" using a by (auto simp: scan_number_def Let_def)
  then have "length rest \<le> length ?t" by (simp only: length_dropWhile_le)
  also have "\<dots> \<le> length s" using length_skip_ws [of s] by auto
  finally show ?thesis .
qed

lemma read_word_shorter:
  assumes "read_word s = (w, good, rest)"
  shows "length rest \<le> length s" and "good \<Longrightarrow> length rest < length s"
proof -
  have w: "w = takeWhile (\<lambda>b. \<not> is_space b) (skip_ws s)" and good: "good \<longleftrightarrow> w \<noteq> []"
    and rest: "rest = dropWhile (\<lambda>b. \<not> is_space b) (skip_ws s)"
    using assms by (auto simp: read_word_def Let_def)
  have "length w + length rest = length (skip_ws s)"
    unfolding w rest by (metis length_append takeWhile_dropWhile_id)
  then have len: "length w + length rest \<le> length s" using length_skip_ws [of s] by simp
  then show "length rest \<le> length s" by simp
  show "length rest < length s" if good
  proof -
    from that good have "0 < length w" by simp
    with len show ?thesis by linarith
  qed
qed

lemma read_line_shorter:
  assumes "read_line s = Some (i, l, n, a, b, rest)"
  shows "length rest < length s"
proof -
  obtain i1 g1 s1 where 1: "read_uint (2 ^ 32 - 1) s = (i1, g1, s1)" by (metis surj_pair)
  obtain i2 g2 s2 where 2: "read_int s1 = (i2, g2, s2)" by (metis surj_pair)
  obtain i3 g3 s3 where 3: "read_uint (2 ^ 64 - 1) s2 = (i3, g3, s3)" by (metis surj_pair)
  obtain i4 g4 s4 where 4: "read_word s3 = (i4, g4, s4)" by (metis surj_pair)
  obtain i5 g5 s5 where 5: "read_word s4 = (i5, g5, s5)" by (metis surj_pair)
  have le: "read_uint m t = (v, g, r) \<Longrightarrow> length r \<le> length t" for m t v g r
    by (auto simp: read_uint_def dest: scan_number_shorter split: prod.splits if_splits)
  have li: "read_int t = (v, g, r) \<Longrightarrow> length r \<le> length t" for t v g r
    by (auto simp: read_int_def Let_def dest: scan_number_shorter split: prod.splits if_splits)
  have r: "rest = s5" "g5" using assms unfolding read_line_def 1 2 3 4 5 Let_def prod.case
    by (simp_all split: if_splits)
  show ?thesis
    using le [OF 1] li [OF 2] le [OF 3] read_word_shorter [OF 4] read_word_shorter [OF 5] r by simp
qed

end
