(* ===== verification/Write_Batch.thy ===== *)
theory Write_Batch
  imports Status_Slice
begin

text \<open>
  The write batch of \<open>write_batch.h\<close>/\<open>write_batch.cpp\<close>: the ordered list of the
  updates that \<open>DBImpl::Write\<close> applies.
\<close>

datatype EntryType = kPut | kDelete

record Entry =
  batch_type :: EntryType
  batch_key :: bytes
  batch_value :: bytes

type_synonym WriteBatch = "Entry list"

definition WriteBatch_new :: WriteBatch where
  "WriteBatch_new = []"

definition WriteBatch_Put :: "WriteBatch \<Rightarrow> bytes \<Rightarrow> bytes \<Rightarrow> WriteBatch" where
  "WriteBatch_Put batch key val =
     batch @ [\<lparr>batch_type = kPut, batch_key = key, batch_value = val\<rparr>]"

definition WriteBatch_Delete :: "WriteBatch \<Rightarrow> bytes \<Rightarrow> WriteBatch" where
  "WriteBatch_Delete batch key =
     batch @ [\<lparr>batch_type = kDelete, batch_key = key, batch_value = []\<rparr>]"

definition WriteBatch_Clear :: "WriteBatch \<Rightarrow> WriteBatch" where
  "WriteBatch_Clear batch = []"

definition WriteBatch_Count :: "WriteBatch \<Rightarrow> nat" where
  "WriteBatch_Count batch = length batch"

text \<open>What a batch means: the updates of a map from keys to values, in order.\<close>

fun apply_entry :: "Entry \<Rightarrow> (bytes \<rightharpoonup> bytes) \<Rightarrow> (bytes \<rightharpoonup> bytes)" where
  "apply_entry e m =
     (case batch_type e of
        kPut \<Rightarrow> m(batch_key e \<mapsto> batch_value e)
      | kDelete \<Rightarrow> m(batch_key e := None))"

definition apply_batch :: "WriteBatch \<Rightarrow> (bytes \<rightharpoonup> bytes) \<Rightarrow> (bytes \<rightharpoonup> bytes)" where
  "apply_batch batch m = fold apply_entry batch m"

lemma apply_batch_Put:
  "apply_batch (WriteBatch_Put batch key val) m = (apply_batch batch m)(key \<mapsto> val)"
  by (simp add: apply_batch_def WriteBatch_Put_def)

lemma apply_batch_Delete:
  "apply_batch (WriteBatch_Delete batch key) m = (apply_batch batch m)(key := None)"
  by (simp add: apply_batch_def WriteBatch_Delete_def)

end
