(* ===== verification/Db_Impl.thy ===== *)
theory Db_Impl
  imports Manifest Write_Batch
begin

text \<open>
  \<open>DBImpl\<close> of \<open>db_impl.h\<close>/\<open>db_impl.cpp\<close>: state, write path, read path, flush
  and the manifest. The mutexes make the blocks between lock and unlock atomic: \<open>Write\<close>
  holds \<open>memtable_mutex_\<close> from its first to its last access, so it is one function; the
  functions here are those blocks, and the state they share is passed explicitly.

  Before \<open>Open\<close> the pointers \<open>memtable_\<close>, \<open>vlog_\<close> and \<open>wal_\<close> are null.
  The only test of it is in the destructor (\<open>memtable_ && memtable_->Count() > 0\<close>), and
  the model has an empty memtable and closed logs there, which it treats alike.
\<close>

section \<open>State and paths\<close>

record DBImpl =
  db_options :: Options
  db_path :: path
  db_vlog :: VLog
  db_wal :: WAL
  db_wal_id :: u64
  db_memtable :: MemTable
  db_immutables :: "MemTable list"
  db_levels :: "SSTableInfo list list"
  db_next_sstable_id :: u32
  db_sequence_number :: u64

definition DBImpl_new :: "Options \<Rightarrow> path \<Rightarrow> DBImpl" where
  "DBImpl_new options dbp =
     \<lparr>db_options = options, db_path = dbp, db_vlog = VLog_new dbp options, db_wal = WAL_new dbp,
      db_wal_id = 0, db_memtable = MemTable_new (memtable_size_limit options), db_immutables = [],
      db_levels = replicate (max_sstable_levels options) [], db_next_sstable_id = 1,
      db_sequence_number = 1\<rparr>"

definition ManifestPath :: "path \<Rightarrow> path" where
  "ManifestPath dbp = dbp @ str ''/MANIFEST''"

definition SSTableFilePath :: "path \<Rightarrow> u32 \<Rightarrow> path" where
  "SSTableFilePath dbp file_id = dbp @ str ''/sst_'' @ pad5 (show_nat (unat file_id)) @ str ''.sst''"

section \<open>The manifest file\<close>

text \<open>On an error the writer's destructor still flushes what \<open>fwrite\<close> took.\<close>

definition SaveManifest :: "DBImpl \<Rightarrow> fs \<Rightarrow> Status \<times> fs" where
  "SaveManifest db fs =
     (let tmp_path = ManifestPath (db_path db) @ str ''.tmp'';
          (s, w, fs) = Writer_Open tmp_path False SequentialFileWriter_new fs in
      if \<not> ok s then (s, Writer_destroy w fs)
      else let oss = manifest_text (db_next_sstable_id db) (db_levels db);
               (s, w) = Writer_Append w oss fs in
      if \<not> ok s then (s, Writer_destroy w fs)
      else let (s, w, fs) = Writer_Sync w fs in
      if \<not> ok s then (s, Writer_destroy w fs)
      else let (s, w, fs) = Writer_Close w fs in
      if \<not> ok s then (s, Writer_destroy w fs)
      else RenameFile tmp_path (ManifestPath (db_path db)) fs)"

text \<open>
  A line with a level outside \<open>levels_\<close> makes the source write out of bounds; the model
  leaves the levels as they are.
\<close>

definition load_line ::
  "Options \<Rightarrow> path \<Rightarrow> fs \<Rightarrow> u32 \<Rightarrow> int \<Rightarrow> u64 \<Rightarrow> bytes \<Rightarrow> bytes \<Rightarrow>
    SSTableInfo list list \<Rightarrow> SSTableInfo list list" where
  "load_line options dbp fs file_id level num_entries smallest largest levels =
     (let p = SSTableFilePath dbp file_id
      in case FileSize p fs of
           (_, None) \<Rightarrow> levels
         | (_, Some sz) \<Rightarrow>
             (case SSTableReader_Open p options fs of
                (_, None) \<Rightarrow> levels
              | (_, Some r) \<Rightarrow>
                  (let meta = \<lparr>meta_file_id = file_id, meta_level = level,
                         meta_smallest_key = smallest, meta_largest_key = largest,
                         meta_num_entries = num_entries, meta_file_size = sz\<rparr>
                   in levels[nat level := levels ! nat level @ [\<lparr>info_meta = meta, info_reader = r\<rparr>]])))"

function load_lines ::
  "Options \<Rightarrow> path \<Rightarrow> fs \<Rightarrow> bytes \<Rightarrow> SSTableInfo list list \<Rightarrow> SSTableInfo list list" where
  "load_lines options dbp fs s levels =
     (case read_line s of
        None \<Rightarrow> levels
      | Some (file_id, level, num_entries, smallest, largest, rest) \<Rightarrow>
          load_lines options dbp fs rest
            (load_line options dbp fs file_id level num_entries smallest largest levels))"
  by pat_completeness auto
termination
  by (relation "measure (\<lambda>(_, _, _, s, _). length s)") (auto dest: read_line_shorter)

declare load_lines.simps [simp del]

text \<open>When the first number cannot be read the stream is in a failed state and no line is.\<close>

definition LoadManifest :: "DBImpl \<Rightarrow> fs \<Rightarrow> Status \<times> DBImpl" where
  "LoadManifest db fs =
     (let mp = ManifestPath (db_path db) in
      if \<not> FileExists mp fs then (NotFound (str ''Manifest not found''), db)
      else let (s, reader) = Seq_Open mp SequentialFileReader_new fs in
      if \<not> ok s then (s, db)
      else (case FileSize mp fs of
              (s, None) \<Rightarrow> (s, db)
            | (_, Some sz) \<Rightarrow>
                (let (s, text_buf, reader) = Seq_Read reader (unat sz) fs
                 in if \<not> ok s then (s, db)
                    else
                      (let (next_id, good, rest) = read_uint (2 ^ 32 - 1) text_buf;
                           db = db\<lparr>db_next_sstable_id := u32_of next_id\<rparr>
                       in (Status_OK,
                           if good
                           then db\<lparr>db_levels := load_lines (db_options db) (db_path db) fs rest (db_levels db)\<rparr>
                           else db)))))"

section \<open>Writes\<close>

definition MaybeScheduleFlush :: "DBImpl \<Rightarrow> fs \<Rightarrow> Status \<times> DBImpl \<times> fs" where
  "MaybeScheduleFlush db fs =
     (if ShouldFlush (db_memtable db)
      then
        (let db = db\<lparr>db_immutables := db_immutables db @ [db_memtable db],
                     db_memtable := MemTable_new (memtable_size_limit (db_options db)),
                     db_wal_id := db_wal_id db + 1\<rparr>;
             (s, wal, fs) = WAL_Create (db_wal_id db) (db_wal db) fs
         in (s, db\<lparr>db_wal := wal\<rparr>, fs))
      else (Status_OK, db, fs))"

definition Write_entry :: "Entry \<Rightarrow> DBImpl \<Rightarrow> fs \<Rightarrow> Status \<times> DBImpl \<times> fs" where
  "Write_entry entry db fs =
     (let seq = db_sequence_number db;
          db = db\<lparr>db_sequence_number := seq + 1\<rparr>;
          key = batch_key entry
      in case batch_type entry of
           kPut \<Rightarrow>
             (let (s, ptr, vl, fs) = VLog_Append key (batch_value entry) kValue (db_vlog db) fs;
                  db = db\<lparr>db_vlog := vl\<rparr>
              in if \<not> ok s then (s, db, fs)
                 else
                   (let rec = \<lparr>wal_type = kValue, wal_sequence = seq, wal_key = key,
                               wal_vlog_ptr = the ptr\<rparr>;
                        (s, wal, fs) = WAL_AddRecord rec (db_wal db) fs;
                        db = db\<lparr>db_wal := wal\<rparr>
                    in if \<not> ok s then (s, db, fs)
                       else (Status_OK,
                             db\<lparr>db_memtable := snd (MemTable_Put (db_memtable db) key (the ptr) seq)\<rparr>,
                             fs)))
         | kDelete \<Rightarrow>
             (let rec = \<lparr>wal_type = kDeletion, wal_sequence = seq, wal_key = key,
                         wal_vlog_ptr = null_ptr\<rparr>;
                  (s, wal, fs) = WAL_AddRecord rec (db_wal db) fs;
                  db = db\<lparr>db_wal := wal\<rparr>
              in if \<not> ok s then (s, db, fs)
                 else (Status_OK,
                       db\<lparr>db_memtable := snd (MemTable_Delete (db_memtable db) key seq)\<rparr>, fs)))"

fun Write_entries :: "WriteBatch \<Rightarrow> DBImpl \<Rightarrow> fs \<Rightarrow> Status \<times> DBImpl \<times> fs" where
  "Write_entries [] db fs = (Status_OK, db, fs)"
| "Write_entries (entry # batch) db fs =
     (let (s, db, fs) = Write_entry entry db fs
      in if \<not> ok s then (s, db, fs) else Write_entries batch db fs)"

text \<open>The statuses of the two syncs are dropped.\<close>

definition sync_logs :: "DBImpl \<Rightarrow> fs \<Rightarrow> DBImpl \<times> fs" where
  "sync_logs db fs =
     (let (_, wal, fs) = WAL_Sync (db_wal db) fs;
          (_, vl, fs) = VLog_Sync (db_vlog db) fs
      in (db\<lparr>db_wal := wal, db_vlog := vl\<rparr>, fs))"

definition DB_Write :: "WriteOptions \<Rightarrow> WriteBatch \<Rightarrow> DBImpl \<Rightarrow> fs \<Rightarrow> Status \<times> DBImpl \<times> fs" where
  "DB_Write options batch db fs =
     (let (s, db, fs) = Write_entries batch db fs
      in if \<not> ok s then (s, db, fs)
         else
           (let (db, fs) = (if sync options then sync_logs db fs else (db, fs))
            in MaybeScheduleFlush db fs))"

definition DB_Put :: "WriteOptions \<Rightarrow> bytes \<Rightarrow> bytes \<Rightarrow> DBImpl \<Rightarrow> fs \<Rightarrow> Status \<times> DBImpl \<times> fs" where
  "DB_Put options key val db fs = DB_Write options (WriteBatch_Put WriteBatch_new key val) db fs"

definition DB_Delete :: "WriteOptions \<Rightarrow> bytes \<Rightarrow> DBImpl \<Rightarrow> fs \<Rightarrow> Status \<times> DBImpl \<times> fs" where
  "DB_Delete options key db fs = DB_Write options (WriteBatch_Delete WriteBatch_new key) db fs"

section \<open>Reads\<close>

text \<open>
  The search for the latest entry of a key, which \<open>Get\<close> and both passes of \<open>RunGC\<close>
  contain: the memtable, the immutable memtables from the newest, level 0 from the newest,
  and the deeper levels in order, each table whose key range covers the key. A lookup that
  reports anything but \<open>OK\<close> counts as a miss.
\<close>

fun first_hit :: "('a \<Rightarrow> 'b option) \<Rightarrow> 'a list \<Rightarrow> 'b option" where
  "first_hit f [] = None"
| "first_hit f (x # xs) = (case f x of Some y \<Rightarrow> Some y | None \<Rightarrow> first_hit f xs)"

definition mem_hit :: "bytes \<Rightarrow> MemTable \<Rightarrow> InternalEntry option" where
  "mem_hit key mt = (let (s, e) = MemTable_Get mt key in if ok s then e else None)"

definition table_hit :: "fs \<Rightarrow> bytes \<Rightarrow> SSTableInfo \<Rightarrow> InternalEntry option" where
  "table_hit fs key info = (let (s, e) = SSTable_Get (info_reader info) key fs in if ok s then e else None)"

definition in_range :: "bytes \<Rightarrow> SSTableInfo \<Rightarrow> bool" where
  "in_range key info \<longleftrightarrow>
     meta_smallest_key (info_meta info) \<le> key \<and> key \<le> meta_largest_key (info_meta info)"

definition level_hit :: "fs \<Rightarrow> bytes \<Rightarrow> SSTableInfo list \<Rightarrow> InternalEntry option" where
  "level_hit fs key level = first_hit (\<lambda>info. if in_range key info then table_hit fs key info else None) level"

definition find_mem :: "DBImpl \<Rightarrow> bytes \<Rightarrow> InternalEntry option" where
  "find_mem db key = first_hit (mem_hit key) (db_memtable db # rev (db_immutables db))"

definition find_sst :: "DBImpl \<Rightarrow> fs \<Rightarrow> bytes \<Rightarrow> InternalEntry option" where
  "find_sst db fs key =
     (case first_hit (table_hit fs key) (rev (db_levels db ! 0)) of
        Some e \<Rightarrow> Some e
      | None \<Rightarrow> first_hit (level_hit fs key) (drop 1 (db_levels db)))"

definition find_latest :: "DBImpl \<Rightarrow> fs \<Rightarrow> bytes \<Rightarrow> InternalEntry option" where
  "find_latest db fs key =
     (case find_mem db key of Some e \<Rightarrow> Some e | None \<Rightarrow> find_sst db fs key)"

definition DB_Get :: "ReadOptions \<Rightarrow> bytes \<Rightarrow> DBImpl \<Rightarrow> fs \<Rightarrow> Status \<times> bytes option \<times> DBImpl" where
  "DB_Get options key db fs =
     (case find_latest db fs key of
        None \<Rightarrow> (NotFound (str ''Key not found''), None, db)
      | Some ie \<Rightarrow>
          if entry_type ie = kDeletion then (NotFound (str ''Key deleted''), None, db)
          else
            (let (s, _, val, vl) = VLog_Read (vlog_ptr ie) (db_vlog db) fs
             in (s, val, db\<lparr>db_vlog := vl\<rparr>)))"

section \<open>Flush\<close>

definition SSTableWriter_destroy :: "SSTableWriter \<Rightarrow> fs \<Rightarrow> fs" where
  "SSTableWriter_destroy sw fs = (case sw_writer sw of None \<Rightarrow> fs | Some w \<Rightarrow> Writer_destroy w fs)"

definition writer_meta :: "u32 \<Rightarrow> int \<Rightarrow> SSTableWriter \<Rightarrow> SSTableMeta" where
  "writer_meta file_id level sw =
     \<lparr>meta_file_id = file_id, meta_level = level, meta_smallest_key = sw_smallest_key sw,
      meta_largest_key = sw_largest_key sw, meta_num_entries = sw_num_entries sw,
      meta_file_size = Writer_FileSize sw\<rparr>"

definition FlushMemTable :: "MemTable \<Rightarrow> DBImpl \<Rightarrow> fs \<Rightarrow> Status \<times> DBImpl \<times> fs" where
  "FlushMemTable memtable db fs =
     (if MemTable_Count memtable = 0 then (Status_OK, db, fs)
      else let file_id = db_next_sstable_id db;
               db = db\<lparr>db_next_sstable_id := file_id + 1\<rparr>;
               p = SSTableFilePath (db_path db) file_id;
               (s, sw, fs) = SSTableWriter_Open (SSTableWriter_new p (db_options db)) fs in
      if \<not> ok s then (s, db, SSTableWriter_destroy sw fs)
      else let (s, sw) = Add_entries (GetSortedEntries memtable) sw fs in
      if \<not> ok s then (s, db, SSTableWriter_destroy sw fs)
      else let (s, sw, fs) = Finish sw fs in
      if \<not> ok s then (s, db, SSTableWriter_destroy sw fs)
      else let meta = writer_meta file_id 0 sw in
      case SSTableReader_Open p (db_options db) fs of
        (s, None) \<Rightarrow> (s, db, fs)
      | (_, Some reader) \<Rightarrow>
          (let info = \<lparr>info_meta = meta, info_reader = reader\<rparr>;
               db = db\<lparr>db_levels := (db_levels db)[0 := db_levels db ! 0 @ [info]]\<rparr>;
               (s, fs) = SaveManifest db fs
           in (s, db, fs)))"

end
