(* ===== verification/Db_Compact.thy ===== *)
theory Db_Compact
  imports Db_Impl
begin

text \<open>
  Compaction: \<open>DBImpl::CompactLevel\<close>, \<open>CompactRange\<close> and the round of
  \<open>BackgroundFlush\<close> that flushes one immutable memtable and compacts the levels that
  are over their limit.
\<close>

section \<open>Choosing the inputs\<close>

definition key_range :: "SSTableInfo list \<Rightarrow> bytes \<times> bytes" where
  "key_range inputs =
     (let first = info_meta (hd inputs)
      in fold (\<lambda>info (smallest, largest).
           (if meta_smallest_key (info_meta info) < smallest
            then meta_smallest_key (info_meta info) else smallest,
            if largest < meta_largest_key (info_meta info)
            then meta_largest_key (info_meta info) else largest))
         (tl inputs) (meta_smallest_key first, meta_largest_key first))"

definition overlaps :: "bytes \<times> bytes \<Rightarrow> SSTableInfo \<Rightarrow> bool" where
  "overlaps rng info \<longleftrightarrow>
     meta_smallest_key (info_meta info) \<le> snd rng \<and> fst rng \<le> meta_largest_key (info_meta info)"

type_synonym merge_iter = "SSTableReader \<times> SSTableIterator"

text \<open>An iterator that is at its end at once is left out; any other error ends the compaction.\<close>

fun open_iters :: "SSTableInfo list \<Rightarrow> fs \<Rightarrow> Status + merge_iter list" where
  "open_iters [] fs = Inr []"
| "open_iters (info # infos) fs =
     (let rd = info_reader info; (s, it) = SeekToFirst rd (NewIterator rd) fs
      in if ok s
         then (case open_iters infos fs of Inl s \<Rightarrow> Inl s | Inr iters \<Rightarrow> Inr ((rd, it) # iters))
         else if IsNotFound s then open_iters infos fs
         else Inl s)"

section \<open>The merge\<close>

text \<open>The two scans over the iterators, as folds of their loop bodies.\<close>

definition min_step :: "merge_iter \<Rightarrow> bytes option \<Rightarrow> bytes option" where
  "min_step ri acc =
     (let it = snd ri
      in if it_valid it
         then (case acc of
                 None \<Rightarrow> Some (it_key it)
               | Some m \<Rightarrow> if it_key it < m then Some (it_key it) else Some m)
         else acc)"

definition min_key :: "merge_iter list \<Rightarrow> bytes option" where
  "min_key iters = fold min_step iters None"

definition winner_step :: "bytes \<Rightarrow> merge_iter \<Rightarrow> InternalEntry option \<Rightarrow> InternalEntry option" where
  "winner_step key ri acc =
     (let it = snd ri
      in if it_valid it \<and> it_key it = key
         then (case acc of
                 None \<Rightarrow> Some (it_entry it)
               | Some e \<Rightarrow> if entry_seq e < entry_seq (it_entry it) then Some (it_entry it) else Some e)
         else acc)"

definition winner :: "bytes \<Rightarrow> merge_iter list \<Rightarrow> InternalEntry option" where
  "winner key iters = fold (winner_step key) iters None"

definition advance :: "bytes \<Rightarrow> fs \<Rightarrow> merge_iter list \<Rightarrow> merge_iter list" where
  "advance key fs iters =
     map (\<lambda>(rd, it). if it_valid it \<and> it_key it = key then (rd, snd (Iter_Next rd it fs)) else (rd, it)) iters"

definition exists_deeper :: "nat \<Rightarrow> bytes \<Rightarrow> DBImpl \<Rightarrow> fs \<Rightarrow> bool" where
  "exists_deeper lvl key db fs =
     list_ex (\<lambda>d. list_ex (\<lambda>info. in_range key info \<and> table_hit fs key info \<noteq> None) (db_levels db ! d))
       [lvl + 2..<max_sstable_levels (db_options db)]"

text \<open>
  The table under construction and the tables that are finished. An error returns from
  \<open>CompactLevel\<close>, which destroys the writer.
\<close>

record merge_out =
  mo_writer :: "(u32 \<times> SSTableWriter) option"
  mo_tables :: "SSTableInfo list"

text \<open>Finishing the current table: \<open>Finish\<close>, the metadata and a reader for it.\<close>

definition finish_table ::
  "nat \<Rightarrow> merge_out \<Rightarrow> DBImpl \<Rightarrow> fs \<Rightarrow> Status \<times> merge_out \<times> fs" where
  "finish_table lvl mo db fs =
     (case mo_writer mo of
        None \<Rightarrow> (Status_OK, mo, fs)
      | Some (file_id, sw) \<Rightarrow>
          (let (s, sw, fs) = Finish sw fs in
           if \<not> ok s then (s, mo\<lparr>mo_writer := None\<rparr>, SSTableWriter_destroy sw fs)
           else let meta = writer_meta file_id (int lvl + 1) sw in
           case SSTableReader_Open (SSTableFilePath (db_path db) file_id) (db_options db) fs of
             (s, None) \<Rightarrow> (s, mo\<lparr>mo_writer := None\<rparr>, fs)
           | (_, Some reader) \<Rightarrow>
               (Status_OK,
                mo\<lparr>mo_writer := None,
                   mo_tables := mo_tables mo @ [\<lparr>info_meta = meta, info_reader = reader\<rparr>]\<rparr>, fs)))"

text \<open>Adding one entry to the output.\<close>

definition open_table ::
  "merge_out \<Rightarrow> DBImpl \<Rightarrow> fs \<Rightarrow> Status \<times> (u32 \<times> SSTableWriter) \<times> DBImpl \<times> fs" where
  "open_table mo db fs =
     (case mo_writer mo of
        Some w \<Rightarrow> (Status_OK, w, db, fs)
      | None \<Rightarrow>
          (let new_file_id = db_next_sstable_id db;
               db = db\<lparr>db_next_sstable_id := new_file_id + 1\<rparr>;
               p = SSTableFilePath (db_path db) new_file_id;
               (s, sw, fs) = SSTableWriter_Open (SSTableWriter_new p (db_options db)) fs
           in (s, (new_file_id, sw), db, fs)))"

definition emit ::
  "nat \<Rightarrow> bytes \<Rightarrow> InternalEntry \<Rightarrow> merge_out \<Rightarrow> DBImpl \<Rightarrow> fs \<Rightarrow> Status \<times> merge_out \<times> DBImpl \<times> fs" where
  "emit lvl key entry mo db fs =
     (let (s, (file_id, sw), db, fs) = open_table mo db fs in
      if \<not> ok s then (s, mo\<lparr>mo_writer := None\<rparr>, db, SSTableWriter_destroy sw fs)
      else let (s, sw) = SSTableWriter_Add key entry sw fs in
      if \<not> ok s then (s, mo\<lparr>mo_writer := None\<rparr>, db, SSTableWriter_destroy sw fs)
      else let mo = mo\<lparr>mo_writer := Some (file_id, sw)\<rparr> in
      if memtable_size_limit (db_options db) \<le> unat (Writer_FileSize sw)
      then (let (s, mo, fs) = finish_table lvl mo db fs in (s, mo, db, fs))
      else (Status_OK, mo, db, fs))"

definition iter_left :: "merge_iter \<Rightarrow> nat" where
  "iter_left ri = (if it_valid (snd ri) then Suc (it_data_end (snd ri) - it_offset (snd ri)) else 0)"

lemma iter_left_Next:
  assumes "it_valid it"
  shows "iter_left (rd, snd (Iter_Next rd it fs)) < iter_left (rd, it)"
proof -
  obtain s it' where r: "Iter_ReadEntryAt rd (it_offset it) it fs = (s, it')" by force
  show ?thesis
  proof (cases "ok s")
    case True
    moreover have "it_offset it < it_data_end it"
      using r True by (auto simp: Iter_ReadEntryAt_def split: if_splits)
    ultimately show ?thesis
      using r assms Iter_ReadEntryAt_advances [OF r] by (auto simp: iter_left_def Iter_Next_def)
  next
    case False
    then have "\<not> it_valid it'"
      using r by (auto simp: Iter_ReadEntryAt_def split: if_splits option.splits prod.splits)
    then show ?thesis using r assms by (simp add: iter_left_def Iter_Next_def)
  qed
qed

lemma min_key_fold:
  "fold min_step iters acc = Some k \<Longrightarrow>
    acc = Some k \<or> (\<exists>ri \<in> set iters. it_valid (snd ri) \<and> it_key (snd ri) = k)"
proof (induction iters arbitrary: acc)
  case (Cons ri iters)
  then have "min_step ri acc = Some k \<or> (\<exists>ri \<in> set iters. it_valid (snd ri) \<and> it_key (snd ri) = k)"
    by simp
  moreover have "acc = Some k \<or> it_valid (snd ri) \<and> it_key (snd ri) = k" if "min_step ri acc = Some k"
    using that by (auto simp: min_step_def Let_def split: if_splits option.splits)
  ultimately show ?case by auto
qed simp

lemma min_key_Some: "min_key iters = Some k \<Longrightarrow> \<exists>ri \<in> set iters. it_valid (snd ri) \<and> it_key (snd ri) = k"
  unfolding min_key_def using min_key_fold [of iters None k] by simp

lemma sum_list_less:
  "(\<And>x. x \<in> set xs \<Longrightarrow> f (g x) \<le> (f x :: nat)) \<Longrightarrow> \<exists>x \<in> set xs. f (g x) < f x \<Longrightarrow>
    sum_list (map f (map g xs)) < sum_list (map f xs)"
proof (induction xs)
  case (Cons x xs)
  have le: "sum_list (map f (map g ys)) \<le> sum_list (map f ys)" if "set ys \<subseteq> set (x # xs)" for ys
    using that Cons.prems(1) by (induction ys) (auto intro: add_mono)
  show ?case
  proof (cases "f (g x) < f x")
    case True
    with le [of xs] show ?thesis by (auto intro: add_less_le_mono)
  next
    case False
    with Cons have "sum_list (map f (map g xs)) < sum_list (map f xs)" by auto
    with Cons.prems(1) [of x] show ?thesis by (auto intro: add_le_less_mono)
  qed
qed simp

lemma advance_less:
  assumes "min_key iters = Some k"
  shows "sum_list (map iter_left (advance k fs iters)) < sum_list (map iter_left iters)"
  unfolding advance_def
proof (rule sum_list_less)
  from min_key_Some [OF assms] obtain rd it where "(rd, it) \<in> set iters" "it_valid it" "it_key it = k"
    by force
  then show "\<exists>x \<in> set iters. iter_left ((\<lambda>(rd, it). if it_valid it \<and> it_key it = k
      then (rd, snd (Iter_Next rd it fs)) else (rd, it)) x) < iter_left x"
    using iter_left_Next [of it rd fs] by (intro bexI [of _ "(rd, it)"]) auto
qed (auto intro: less_imp_le [OF iter_left_Next])

text \<open>The loop of the merge ends because every round moves an iterator.\<close>

function merge_loop ::
  "nat \<Rightarrow> merge_iter list \<Rightarrow> merge_out \<Rightarrow> DBImpl \<Rightarrow> fs \<Rightarrow> Status \<times> merge_out \<times> DBImpl \<times> fs" where
  "merge_loop lvl iters mo db fs =
     (case min_key iters of
        None \<Rightarrow> (Status_OK, mo, db, fs)
      | Some key \<Rightarrow>
          (let entry = the (winner key iters);
               drp = (entry_type entry = kDeletion \<and> \<not> exists_deeper lvl key db fs);
               (s, mo, db, fs) = (if \<not> drp then emit lvl key entry mo db fs
                                  else (Status_OK, mo, db, fs))
           in if \<not> ok s then (s, mo, db, fs)
              else merge_loop lvl (advance key fs iters) mo db fs))"
  by pat_completeness auto
termination
  by (relation "measure (\<lambda>(lvl, iters, mo, db, fs). sum_list (map iter_left iters))")
    (auto dest: advance_less)

declare merge_loop.simps [simp del]

section \<open>Installing the result\<close>

fun erase_file :: "u32 \<Rightarrow> SSTableInfo list \<Rightarrow> SSTableInfo list" where
  "erase_file file_id [] = []"
| "erase_file file_id (info # infos) =
     (if meta_file_id (info_meta info) = file_id then infos else info # erase_file file_id infos)"

definition erase_inputs :: "SSTableInfo list \<Rightarrow> SSTableInfo list \<Rightarrow> SSTableInfo list" where
  "erase_inputs inputs level = fold (\<lambda>input. erase_file (meta_file_id (info_meta input))) inputs level"

definition install ::
  "nat \<Rightarrow> SSTableInfo list \<Rightarrow> SSTableInfo list \<Rightarrow> SSTableInfo list \<Rightarrow> DBImpl \<Rightarrow> DBImpl" where
  "install lvl inputs_lvl inputs_next new_sstables db =
     (let levels = db_levels db;
          levels = levels[lvl := erase_inputs inputs_lvl (levels ! lvl)];
          levels = levels[lvl + 1 :=
            sort_key (\<lambda>info. meta_smallest_key (info_meta info))
              (erase_inputs inputs_next (levels ! (lvl + 1)) @ new_sstables)]
      in db\<lparr>db_levels := levels\<rparr>)"

definition delete_tables :: "path \<Rightarrow> SSTableInfo list \<Rightarrow> fs \<Rightarrow> fs" where
  "delete_tables dbp infos fs =
     fold (\<lambda>info fs. snd (DeleteFile (SSTableFilePath dbp (meta_file_id (info_meta info))) fs)) infos fs"

definition CompactLevel :: "int \<Rightarrow> DBImpl \<Rightarrow> fs \<Rightarrow> Status \<times> DBImpl \<times> fs" where
  "CompactLevel level db fs =
     (if level < 0 \<or> int (max_sstable_levels (db_options db)) - 1 \<le> level
      then (InvalidArgument (str ''Invalid level for compaction''), db, fs)
      else let lvl = nat level; inputs_lvl = db_levels db ! lvl in
      if inputs_lvl = [] then (Status_OK, db, fs)
      else let inputs_next = filter (overlaps (key_range inputs_lvl)) (db_levels db ! (lvl + 1)) in
      case open_iters (inputs_lvl @ inputs_next) fs of
        Inl s \<Rightarrow> (s, db, fs)
      | Inr iters \<Rightarrow>
          (let (s, mo, db, fs) = merge_loop lvl iters \<lparr>mo_writer = None, mo_tables = []\<rparr> db fs in
           if \<not> ok s then (s, db, fs)
           else let (s, mo, fs) = finish_table lvl mo db fs in
           if \<not> ok s then (s, db, fs)
           else let db = install lvl inputs_lvl inputs_next (mo_tables mo) db;
                    (s, fs) = SaveManifest db fs in
           if \<not> ok s then (s, db, fs)
           else (Status_OK, db, delete_tables (db_path db) (inputs_lvl @ inputs_next) fs)))"

fun compact_levels :: "nat list \<Rightarrow> DBImpl \<Rightarrow> fs \<Rightarrow> Status \<times> DBImpl \<times> fs" where
  "compact_levels [] db fs = (Status_OK, db, fs)"
| "compact_levels (lvl # lvls) db fs =
     (if db_levels db ! lvl \<noteq> []
      then (let (s, db, fs) = CompactLevel (int lvl) db fs
            in if \<not> ok s then (s, db, fs) else compact_levels lvls db fs)
      else compact_levels lvls db fs)"

definition CompactRange :: "DBImpl \<Rightarrow> fs \<Rightarrow> Status \<times> DBImpl \<times> fs" where
  "CompactRange db fs = compact_levels [0..<max_sstable_levels (db_options db) - 1] db fs"

section \<open>The background thread\<close>

definition level_limit :: "nat \<Rightarrow> u64" where
  "level_limit lvl = 10 ^ (lvl - 1) * (10 * 1024 * 1024)"

definition needs_compaction :: "nat \<Rightarrow> DBImpl \<Rightarrow> bool" where
  "needs_compaction lvl db =
     (if lvl = 0 then 4 \<le> length (db_levels db ! 0)
      else level_limit lvl < fold (\<lambda>info n. n + meta_file_size (info_meta info)) (db_levels db ! lvl) 0)"

definition background_compact :: "DBImpl \<Rightarrow> fs \<Rightarrow> DBImpl \<times> fs" where
  "background_compact db fs =
     fold (\<lambda>lvl (db, fs). if needs_compaction lvl db then snd (CompactLevel (int lvl) db fs) else (db, fs))
       [0..<max_sstable_levels (db_options db) - 1] (db, fs)"

text \<open>
  The flush of the oldest immutable memtable and its removal. The status of the flush is
  dropped; the memtable is removed in either case.
\<close>

definition flush_front :: "DBImpl \<Rightarrow> fs \<Rightarrow> DBImpl \<times> fs" where
  "flush_front db fs =
     (case db_immutables db of [] \<Rightarrow> (db, fs) | mt # _ \<Rightarrow> snd (FlushMemTable mt db fs))"

definition pop_front :: "DBImpl \<Rightarrow> DBImpl" where
  "pop_front db = db\<lparr>db_immutables := tl (db_immutables db)\<rparr>"

definition BackgroundFlush_round :: "DBImpl \<Rightarrow> fs \<Rightarrow> DBImpl \<times> fs" where
  "BackgroundFlush_round db fs =
     (if db_immutables db = [] then (db, fs)
      else let (db, fs) = flush_front db fs in background_compact (pop_front db) fs)"

end
