(* ===== verification/Db_Gc.thy ===== *)
theory Db_Gc
  imports Db_Compact
begin

text \<open>
  Garbage collection of the value log: \<open>DBImpl::RunGC\<close> scans the oldest file that is
  no longer written, collects the records the index still points to, and, when enough of the
  file is garbage, appends them anew, redirects the index and deletes the file.
\<close>

section \<open>Choosing the file\<close>

text \<open>\<open>std::string::find\<close> of a pattern that is not at the front.\<close>

fun contains :: "bytes \<Rightarrow> bytes \<Rightarrow> bool" where
  "contains pat [] = (pat = [])"
| "contains pat (b # s) = (take (length pat) (b # s) = pat \<or> contains pat s)"

text \<open>
  \<open>std::stoul\<close>/\<open>std::stoull\<close>: white space, a sign and digits; without a digit it
  throws, which the model reports as an error status.
\<close>

definition stoul :: "bytes \<Rightarrow> nat option" where
  "stoul s =
     (case scan_number s of
        (neg, ds, _) \<Rightarrow>
          if ds = [] then None
          else if 2 ^ 64 \<le> dec_val ds then None
          else Some (if neg \<and> 0 < dec_val ds then 2 ^ 64 - dec_val ds else dec_val ds))"

definition stoul_throws :: Status where
  "stoul_throws = InvalidArgument (str ''std::invalid_argument: stoul'')"

text \<open>The ids of the file names that pass a test, in the order of the names.\<close>

fun collect_ids :: "(bytes \<Rightarrow> bool) \<Rightarrow> nat \<Rightarrow> bytes list \<Rightarrow> nat list option" where
  "collect_ids test pos [] = Some []"
| "collect_ids test pos (name # names) =
     (if test name
      then (case stoul (take 5 (drop pos name)) of
              None \<Rightarrow> None
            | Some i \<Rightarrow> (case collect_ids test pos names of None \<Rightarrow> None | Some is \<Rightarrow> Some (i # is)))
      else collect_ids test pos names)"

definition is_vlog_name :: "bytes \<Rightarrow> bool" where
  "is_vlog_name name \<longleftrightarrow>
     take 5 name = str ''vlog_'' \<and> contains (str ''.dat'') name \<and> length name = 14"

section \<open>The scan\<close>

record gc_state =
  gc_total :: u64
  gc_live :: u64
  gc_records :: "(bytes \<times> u64 \<times> u32) list"

definition points_to :: "InternalEntry option \<Rightarrow> u32 \<Rightarrow> u64 \<Rightarrow> bool" where
  "points_to latest file_id offset \<longleftrightarrow>
     (case latest of
        None \<Rightarrow> False
      | Some ie \<Rightarrow> entry_type ie = kValue \<and> ptr_file_id (vlog_ptr ie) = file_id \<and>
                   ptr_offset (vlog_ptr ie) = offset)"

definition gc_callback ::
  "DBImpl \<Rightarrow> fs \<Rightarrow> u32 \<Rightarrow> bytes \<Rightarrow> bytes \<Rightarrow> ValueType \<Rightarrow> u64 \<Rightarrow> gc_state \<Rightarrow> Status \<times> gc_state" where
  "gc_callback db fs gc_file_id key val type offset st =
     (let rec_size = u32_of (4 + 1 + 4 + length key + 4 + length val);
          st = st\<lparr>gc_total := gc_total st + ucast rec_size\<rparr>
      in if type = kValue \<and> points_to (find_latest db fs key) gc_file_id offset
         then (Status_OK,
               st\<lparr>gc_live := gc_live st + ucast rec_size,
                  gc_records := gc_records st @ [(key, offset, u32_of (length val))]\<rparr>)
         else (Status_OK, st))"

section \<open>The rewrite\<close>

text \<open>
  A record that cannot be read is skipped. The redirection takes effect only if the index
  still points to the old record and the log record could be added.
\<close>

definition gc_redirect :: "u32 \<Rightarrow> bytes \<Rightarrow> u64 \<Rightarrow> VLogPointer \<Rightarrow> DBImpl \<Rightarrow> fs \<Rightarrow> DBImpl \<times> fs" where
  "gc_redirect gc_file_id key offset new_ptr db fs =
     (if points_to (find_latest db fs key) gc_file_id offset
      then
        (let seq = db_sequence_number db;
             db = db\<lparr>db_sequence_number := seq + 1\<rparr>;
             rec = \<lparr>wal_type = kValue, wal_sequence = seq, wal_key = key, wal_vlog_ptr = new_ptr\<rparr>;
             (s, wal, fs) = WAL_AddRecord rec (db_wal db) fs;
             db = db\<lparr>db_wal := wal\<rparr>
         in if ok s
            then (db\<lparr>db_memtable := snd (MemTable_Put (db_memtable db) key new_ptr seq)\<rparr>, fs)
            else (db, fs))
      else (db, fs))"

definition gc_rewrite_one ::
  "u32 \<Rightarrow> bytes \<times> u64 \<times> u32 \<Rightarrow> DBImpl \<Rightarrow> fs \<Rightarrow> Status \<times> DBImpl \<times> fs" where
  "gc_rewrite_one gc_file_id rec db fs =
     (case rec of (key, offset, val_size) \<Rightarrow>
        (let old_ptr = \<lparr>ptr_file_id = gc_file_id, ptr_offset = offset, ptr_value_size = val_size\<rparr>;
             (s, _, val, vl) = VLog_Read old_ptr (db_vlog db) fs;
             db = db\<lparr>db_vlog := vl\<rparr>
         in if \<not> ok s then (Status_OK, db, fs)
            else
              (let (s, new_ptr, vl, fs) = VLog_Append key (the val) kValue (db_vlog db) fs;
                   db = db\<lparr>db_vlog := vl\<rparr>
               in if \<not> ok s then (s, db, fs)
                  else (Status_OK, gc_redirect gc_file_id key offset (the new_ptr) db fs))))"

fun gc_rewrite ::
  "u32 \<Rightarrow> (bytes \<times> u64 \<times> u32) list \<Rightarrow> DBImpl \<Rightarrow> fs \<Rightarrow> Status \<times> DBImpl \<times> fs" where
  "gc_rewrite gc_file_id [] db fs = (Status_OK, db, fs)"
| "gc_rewrite gc_file_id (rec # recs) db fs =
     (let (s, db, fs) = gc_rewrite_one gc_file_id rec db fs
      in if \<not> ok s then (s, db, fs) else gc_rewrite gc_file_id recs db fs)"

definition gc_delete :: "u32 \<Rightarrow> DBImpl \<Rightarrow> fs \<Rightarrow> DBImpl \<times> fs" where
  "gc_delete gc_file_id db fs =
     (let (_, vl, fs) = VLog_Sync (db_vlog db) fs;
          (_, wal, fs) = WAL_Sync (db_wal db) fs;
          (_, vl) = RemoveReader gc_file_id vl;
          (_, fs) = DeleteFile (vlog_file_path (db_path db) gc_file_id) fs
      in (db\<lparr>db_vlog := vl, db_wal := wal\<rparr>, fs))"

definition gc_file :: "u32 \<Rightarrow> DBImpl \<Rightarrow> fs \<Rightarrow> Status \<times> DBImpl \<times> fs" where
  "gc_file gc_file_id db fs =
     (let (s, st) = NewReader gc_file_id 0 (gc_callback db fs gc_file_id) (db_vlog db) fs
                      \<lparr>gc_total = 0, gc_live = 0, gc_records = []\<rparr>
      in if \<not> ok s then (s, db, fs)
         else if gc_total st = 0 then (Status_OK, db, fs)
         else if gc_worthwhile (db_options db) (gc_live st) (gc_total st)
         then
           (let (s, db, fs) = gc_rewrite gc_file_id (gc_records st) db fs
            in if \<not> ok s then (s, db, fs) else (Status_OK, gc_delete gc_file_id db fs))
         else (Status_OK, db, fs))"

definition RunGC :: "DBImpl \<Rightarrow> fs \<Rightarrow> Status \<times> DBImpl \<times> fs" where
  "RunGC db fs =
     (let (s, children) = GetChildren (db_path db) fs
      in if \<not> ok s then (s, db, fs)
         else (case collect_ids is_vlog_name 5 children of
                 None \<Rightarrow> (stoul_throws, db, fs)
               | Some ids \<Rightarrow>
                   (case find (\<lambda>i. i < vl_current_file_id (db_vlog db)) (sort (map u32_of ids)) of
                      None \<Rightarrow> (Status_OK, db, fs)
                    | Some gc_file_id \<Rightarrow> gc_file gc_file_id db fs)))"

end
