(* ===== verification/Db_Open.thy ===== *)
theory Db_Open
  imports Db_Gc
begin

text \<open>
  Opening and closing: recovery from the write-ahead logs, \<open>DBImpl::Open\<close>,
  \<open>DB::Open\<close>, the destructor and the statistics.
\<close>

section \<open>Recovery\<close>

definition is_wal_name :: "bytes \<Rightarrow> bool" where
  "is_wal_name name \<longleftrightarrow> take 4 name = str ''wal_'' \<and> contains (str ''.log'') name"

text \<open>A record of neither type is not applied, but counts for the sequence number.\<close>

definition replay_record :: "WALRecord \<Rightarrow> MemTable \<times> u64 \<Rightarrow> MemTable \<times> u64" where
  "replay_record rec st =
     (case st of (mt, max_seq) \<Rightarrow>
        (if wal_type rec = kValue
         then snd (MemTable_Put mt (wal_key rec) (wal_vlog_ptr rec) (wal_sequence rec))
         else if wal_type rec = kDeletion
         then snd (MemTable_Delete mt (wal_key rec) (wal_sequence rec))
         else mt,
         if max_seq < wal_sequence rec then wal_sequence rec else max_seq))"

fun replay_wals :: "u64 list \<Rightarrow> u64 \<Rightarrow> DBImpl \<Rightarrow> fs \<Rightarrow> Status \<times> u64 \<times> DBImpl \<times> fs" where
  "replay_wals [] max_seq db fs = (Status_OK, max_seq, db, fs)"
| "replay_wals (i # is) max_seq db fs =
     (let (s, records) = WAL_Recover (WALFilePath (db_path db) i) fs in
      if \<not> ok s then (s, max_seq, db, fs)
      else let (mt, max_seq) = fold replay_record records (db_memtable db, max_seq);
               db = db\<lparr>db_memtable := mt\<rparr> in
      if ShouldFlush mt
      then (let (s, db, fs) = FlushMemTable mt db fs
            in if \<not> ok s then (s, max_seq, db, fs)
               else replay_wals is max_seq
                      (db\<lparr>db_memtable := MemTable_new (memtable_size_limit (db_options db))\<rparr>) fs)
      else replay_wals is max_seq db fs)"

definition RecoverFromWAL :: "DBImpl \<Rightarrow> fs \<Rightarrow> Status \<times> DBImpl \<times> fs" where
  "RecoverFromWAL db fs =
     (let (s, children) = GetChildren (db_path db) fs in
      if \<not> ok s then (s, db, fs)
      else (case collect_ids is_wal_name 4 children of
              None \<Rightarrow> (stoul_throws, db, fs)
            | Some ids \<Rightarrow>
                (let wal_ids = sort (map u64_of ids);
                     (s, max_seq, db, fs) = replay_wals wal_ids (db_sequence_number db) db fs in
                 if \<not> ok s then (s, db, fs)
                 else let db = db\<lparr>db_sequence_number := max_seq + 1,
                                  db_wal_id := (if wal_ids = [] then 1 else last wal_ids + 1)\<rparr>;
                          (s, wal, fs) = WAL_Create (db_wal_id db) (db_wal db) fs in
                 (s, db\<lparr>db_wal := wal\<rparr>, fs))))"

section \<open>Open and close\<close>

text \<open>
  The status of \<open>CreateDir\<close> is an I/O error or \<open>OK\<close>, so its test never returns.
\<close>

definition DBImpl_Open :: "DBImpl \<Rightarrow> fs \<Rightarrow> Status \<times> DBImpl \<times> fs" where
  "DBImpl_Open db fs =
     (let s = CreateDir (db_path db) fs in
      if \<not> ok s \<and> \<not> IsIOError s then (s, db, fs)
      else let (s, vl, fs) = VLog_Open (VLog_new (db_path db) (db_options db)) fs;
               db = db\<lparr>db_vlog := vl\<rparr> in
      if \<not> ok s then (s, db, fs)
      else let (s, db) = LoadManifest db fs in
      if \<not> ok s \<and> \<not> IsNotFound s then (s, db, fs)
      else RecoverFromWAL
             (db\<lparr>db_memtable := MemTable_new (memtable_size_limit (db_options db)),
                 db_wal := WAL_new (db_path db)\<rparr>) fs)"

text \<open>
  The destructor flushes the active memtable and then the immutable ones; the members are
  destroyed in the reverse order of their declaration, the log before the value log.
\<close>

fun flush_all :: "MemTable list \<Rightarrow> DBImpl \<Rightarrow> fs \<Rightarrow> DBImpl \<times> fs" where
  "flush_all [] db fs = (db, fs)"
| "flush_all (mt # mts) db fs = (let (_, db, fs) = FlushMemTable mt db fs in flush_all mts db fs)"

definition DBImpl_destroy :: "DBImpl \<Rightarrow> fs \<Rightarrow> fs" where
  "DBImpl_destroy db fs =
     (let (db, fs) = (if 0 < MemTable_Count (db_memtable db)
                      then snd (FlushMemTable (db_memtable db) db fs) else (db, fs));
          (db, fs) = flush_all (db_immutables db) db fs;
          (_, _, fs) = WAL_Close (db_wal db) fs;
          (_, _, fs) = VLog_Close (db_vlog db) fs
      in fs)"

definition DB_Open :: "Options \<Rightarrow> path \<Rightarrow> fs \<Rightarrow> Status \<times> DBImpl option \<times> fs" where
  "DB_Open options dbp fs =
     (let (s, db, fs) = DBImpl_Open (DBImpl_new options dbp) fs
      in if ok s then (s, Some db, fs) else (s, None, DBImpl_destroy db fs))"

section \<open>Statistics\<close>

definition GetStats :: "DBImpl \<Rightarrow> bytes" where
  "GetStats db =
     str ''Sequence Number: '' @ show_nat (unat (db_sequence_number db)) @ [newline] @
     str ''VLog File ID: '' @ show_nat (unat (vl_current_file_id (db_vlog db))) @
     str '', Offset: '' @ show_nat (unat (vl_current_offset (db_vlog db))) @ [newline] @
     str ''Active MemTable Count: '' @ show_nat (MemTable_Count (db_memtable db)) @ [newline] @
     str ''Active MemTable Memory: '' @
       show_nat (unat (ApproximateMemoryUsage (db_memtable db))) @ [newline] @
     str ''Active MemTable Limit: '' @ show_nat (memtable_size_limit (db_options db)) @ [newline] @
     str ''Immutable MemTables: '' @ show_nat (length (db_immutables db)) @ [newline] @
     concat (map (\<lambda>i. str ''Level '' @ show_nat i @ str '' SSTables: '' @
       show_nat (length (db_levels db ! i)) @ [newline]) [0..<length (db_levels db)])"

end
