(* ===== verification/Db_Invariant.thy ===== *)
theory Db_Invariant
  imports Db_Open
begin

text \<open>
  What a database state stands for. The sources of a state are the maps that a lookup
  searches, in its order: memtable, immutable memtables from the newest, level 0 from the
  newest, deeper levels. The invariant says that the first hit for a key is its newest
  entry, that every table is well formed, and that the entries of the current view point
  to their values; \<open>represents\<close> relates the state to a map from keys to values.
\<close>

section \<open>Paths\<close>

lemma SSTableFilePath_inj [simp]: "SSTableFilePath db i = SSTableFilePath db j \<longleftrightarrow> i = j"
  by (auto simp: SSTableFilePath_def dest!: pad5_inj simp: word_unat_eq_iff)

lemma WALFilePath_inj [simp]: "WALFilePath db i = WALFilePath db j \<longleftrightarrow> i = j"
  by (auto simp: WALFilePath_def dest!: pad5_inj simp: word_unat_eq_iff)

text \<open>The first letter of a file name tells the kinds of files apart.\<close>

lemma paths_distinct [simp]:
  "SSTableFilePath db i \<noteq> vlog_file_path db j" "vlog_file_path db j \<noteq> SSTableFilePath db i"
  "SSTableFilePath db i \<noteq> WALFilePath db n" "WALFilePath db n \<noteq> SSTableFilePath db i"
  "SSTableFilePath db i \<noteq> ManifestPath db" "ManifestPath db \<noteq> SSTableFilePath db i"
  "SSTableFilePath db i \<noteq> ManifestPath db @ t" "ManifestPath db @ t \<noteq> SSTableFilePath db i"
  "vlog_file_path db j \<noteq> WALFilePath db n" "WALFilePath db n \<noteq> vlog_file_path db j"
  "vlog_file_path db j \<noteq> ManifestPath db" "ManifestPath db \<noteq> vlog_file_path db j"
  "vlog_file_path db j \<noteq> ManifestPath db @ t" "ManifestPath db @ t \<noteq> vlog_file_path db j"
  "WALFilePath db n \<noteq> ManifestPath db" "ManifestPath db \<noteq> WALFilePath db n"
  "WALFilePath db n \<noteq> ManifestPath db @ t" "ManifestPath db @ t \<noteq> WALFilePath db n"
  by (simp_all add: SSTableFilePath_def vlog_file_path_def WALFilePath_def ManifestPath_def str_def)

section \<open>First hits\<close>

lemma first_hit_append:
  "first_hit f (xs @ ys) = (case first_hit f xs of Some y \<Rightarrow> Some y | None \<Rightarrow> first_hit f ys)"
  by (induction xs) (auto split: option.split)

lemma first_hit_None_iff: "first_hit f xs = None \<longleftrightarrow> (\<forall>x \<in> set xs. f x = None)"
  by (induction xs) (auto split: option.split)

lemma first_hit_Some: "first_hit f xs = Some y \<Longrightarrow> \<exists>x \<in> set xs. f x = Some y"
  by (induction xs) (auto split: option.splits)

lemma first_hit_map: "first_hit f (map g xs) = first_hit (\<lambda>x. f (g x)) xs"
  by (induction xs) (auto split: option.split)

lemma first_hit_concat: "first_hit f (concat xss) = first_hit (first_hit f) xss"
  by (induction xss) (auto simp: first_hit_append split: option.split)

lemma first_hit_cong: "(\<And>x. x \<in> set xs \<Longrightarrow> f x = g x) \<Longrightarrow> first_hit f xs = first_hit g xs"
  by (induction xs) (auto split: option.split)

section \<open>Tables\<close>

definition tmap :: "fs \<Rightarrow> SSTableInfo \<Rightarrow> bytes \<rightharpoonup> InternalEntry" where
  "tmap fs info = (\<lambda>k. table_hit fs k info)"

text \<open>A table that is listed: a well-formed file under its own name, with exact key bounds.\<close>

definition info_table :: "fs \<Rightarrow> path \<Rightarrow> SSTableInfo \<Rightarrow> sst_entries \<Rightarrow> bool" where
  "info_table fs dbp info es \<longleftrightarrow>
     is_table fs (info_reader info) es \<and>
     rd_path (info_reader info) = SSTableFilePath dbp (meta_file_id (info_meta info)) \<and>
     meta_smallest_key (info_meta info) = fst (hd es) \<and>
     meta_largest_key (info_meta info) = fst (last es)"

definition info_ok :: "fs \<Rightarrow> path \<Rightarrow> SSTableInfo \<Rightarrow> bool" where
  "info_ok fs dbp info \<longleftrightarrow> (\<exists>es. info_table fs dbp info es)"

lemma tmap_table:
  assumes "reliable fs" and "is_table fs (info_reader info) es"
  shows "tmap fs info = map_of es"
proof
  fix k
  obtain msg where "SSTable_Get (info_reader info) k fs =
      (case map_of es k of Some e \<Rightarrow> (Status_OK, Some e) | None \<Rightarrow> (NotFound msg, None))"
    using SSTable_Get_table [OF assms] by blast
  then show "tmap fs info k = map_of es k"
    by (simp add: tmap_def table_hit_def split: option.split)
qed

lemma keys_sorted_bounds:
  assumes "keys_sorted es" and "k \<in> fst ` set es"
  shows "fst (hd es) \<le> k" and "k \<le> fst (last es)"
proof -
  from assms(2) have ne: "es \<noteq> []" by auto
  have "sorted (map fst es)" using assms(1) by (simp add: keys_sorted_def strict_sorted_imp_sorted)
  then have le: "i \<le> j \<Longrightarrow> j < length es \<Longrightarrow> fst (es ! i) \<le> fst (es ! j)" for i j
    by (auto simp: sorted_iff_nth_mono)
  from assms(2) obtain i where i: "i < length es" "fst (es ! i) = k" by (auto simp: in_set_conv_nth)
  show "fst (hd es) \<le> k" using le [of 0 i] i ne by (simp add: hd_conv_nth)
  show "k \<le> fst (last es)" using le [of i "length es - 1"] i ne by (simp add: last_conv_nth)
qed

lemma tmap_in_range:
  assumes "reliable fs" and "info_ok fs dbp info" and "tmap fs info k \<noteq> None"
  shows "in_range k info"
proof -
  from assms(2) obtain es where es: "info_table fs dbp info es" by (auto simp: info_ok_def)
  then have t: "is_table fs (info_reader info) es" by (simp add: info_table_def)
  then have "k \<in> fst ` set es" "keys_sorted es"
    using assms(3) tmap_table [OF assms(1) t] by (auto simp: map_of_eq_None_iff elim: is_table_data)
  then show ?thesis
    using keys_sorted_bounds es by (auto simp: in_range_def info_table_def)
qed

lemma level_hit_tmap:
  assumes "reliable fs" and "\<forall>info \<in> set level. info_ok fs dbp info"
  shows "level_hit fs k level = first_hit (\<lambda>info. tmap fs info k) level"
  unfolding level_hit_def
proof (rule first_hit_cong)
  fix info assume "info \<in> set level"
  with assms tmap_in_range [of fs dbp info k]
  show "(if in_range k info then table_hit fs k info else None) = tmap fs info k"
    by (cases "tmap fs info k") (auto simp: tmap_def)
qed

text \<open>A table does not change while its file does not.\<close>

definition info_path :: "path \<Rightarrow> SSTableInfo \<Rightarrow> path" where
  "info_path dbp info = SSTableFilePath dbp (meta_file_id (info_meta info))"

lemma info_table_cong:
  assumes "content fs' (info_path dbp info) = content fs (info_path dbp info)"
  shows "info_table fs' dbp info es = info_table fs dbp info es"
proof (cases "rd_path (info_reader info) = info_path dbp info")
  case True
  then have "content fs' (rd_path (info_reader info)) = content fs (rd_path (info_reader info))"
    by (simp only: assms)
  then have "is_table fs' (info_reader info) es = is_table fs (info_reader info) es"
    by (rule is_table_cong)
  then show ?thesis by (simp only: info_table_def)
next
  case False
  then show ?thesis by (simp only: info_table_def info_path_def simp_thms)
qed

lemma info_ok_cong:
  "content fs' (info_path dbp info) = content fs (info_path dbp info) \<Longrightarrow>
    info_ok fs' dbp info = info_ok fs dbp info"
  unfolding info_ok_def using info_table_cong [of fs' dbp info fs] by blast

lemma tmap_cong:
  assumes "reliable fs" "reliable fs'" and "info_ok fs dbp info"
    and "content fs' (info_path dbp info) = content fs (info_path dbp info)"
  shows "tmap fs' info = tmap fs info"
proof -
  from assms(3) obtain es where es: "info_table fs dbp info es" by (auto simp: info_ok_def)
  then have "is_table fs (info_reader info) es" "is_table fs' (info_reader info) es"
    using info_table_cong [OF assms(4)] by (auto simp: info_table_def)
  then show ?thesis using tmap_table assms(1,2) by metis
qed

section \<open>Sources\<close>

definition mem_sources :: "DBImpl \<Rightarrow> (bytes \<rightharpoonup> InternalEntry) list" where
  "mem_sources db = map mt_map (db_memtable db # rev (db_immutables db))"

definition sst_sources :: "DBImpl \<Rightarrow> fs \<Rightarrow> (bytes \<rightharpoonup> InternalEntry) list" where
  "sst_sources db fs =
     map (tmap fs) (rev (db_levels db ! 0)) @ concat (map (map (tmap fs)) (drop 1 (db_levels db)))"

definition sources :: "DBImpl \<Rightarrow> fs \<Rightarrow> (bytes \<rightharpoonup> InternalEntry) list" where
  "sources db fs = mem_sources db @ sst_sources db fs"

definition lookup_in :: "(bytes \<rightharpoonup> InternalEntry) list \<Rightarrow> bytes \<rightharpoonup> InternalEntry" where
  "lookup_in ms k = first_hit (\<lambda>m. m k) ms"

definition levels_ok :: "DBImpl \<Rightarrow> fs \<Rightarrow> bool" where
  "levels_ok db fs \<longleftrightarrow>
     length (db_levels db) = max_sstable_levels (db_options db) \<and> db_levels db \<noteq> [] \<and>
     (\<forall>info \<in> set (concat (db_levels db)). info_ok fs (db_path db) info) \<and>
     distinct (map (\<lambda>info. meta_file_id (info_meta info)) (concat (db_levels db))) \<and>
     (\<forall>info \<in> set (concat (db_levels db)). meta_file_id (info_meta info) < db_next_sstable_id db)"

lemma mem_hit_map: "mem_hit k = (\<lambda>mt. mt_map mt k)"
  by (auto simp: mem_hit_def MemTable_Get_def mt_map_def split: option.split)

lemma find_mem_sources: "find_mem db k = lookup_in (mem_sources db) k"
  unfolding find_mem_def lookup_in_def mem_sources_def first_hit_map mem_hit_map ..

lemma find_sst_sources:
  assumes "reliable fs" and "levels_ok db fs"
  shows "find_sst db fs k = lookup_in (sst_sources db fs) k"
proof -
  have "first_hit (level_hit fs k) (drop 1 (db_levels db)) =
      first_hit (first_hit (\<lambda>info. tmap fs info k)) (drop 1 (db_levels db))"
  proof (rule first_hit_cong)
    fix level assume "level \<in> set (drop 1 (db_levels db))"
    then have "\<forall>info \<in> set level. info_ok fs (db_path db) info"
      using assms(2) by (auto simp: levels_ok_def dest: in_set_dropD)
    then show "level_hit fs k level = first_hit (\<lambda>info. tmap fs info k) level"
      by (rule level_hit_tmap [OF assms(1)])
  qed
  then show ?thesis
    unfolding find_sst_def lookup_in_def sst_sources_def
    by (simp add: first_hit_append first_hit_map map_concat [symmetric] first_hit_concat tmap_def split: option.split)
qed

lemma find_latest_sources:
  "reliable fs \<Longrightarrow> levels_ok db fs \<Longrightarrow> find_latest db fs k = lookup_in (sources db fs) k"
  by (simp add: find_latest_def find_mem_sources find_sst_sources sources_def lookup_in_def
      first_hit_append split: option.split)

section \<open>The invariant\<close>

text \<open>The first hit for a key is at least as new as every other; ties are copies.\<close>

definition newest :: "(bytes \<rightharpoonup> InternalEntry) list \<Rightarrow> bool" where
  "newest ms \<longleftrightarrow>
     (\<forall>k e. lookup_in ms k = Some e \<longrightarrow>
        (\<forall>m \<in> set ms. \<forall>e'. m k = Some e' \<longrightarrow> e' = e \<or> entry_seq e' < entry_seq e))"

definition seqs_below :: "u64 \<Rightarrow> (bytes \<rightharpoonup> InternalEntry) list \<Rightarrow> bool" where
  "seqs_below n ms \<longleftrightarrow> (\<forall>m \<in> set ms. \<forall>k e. m k = Some e \<longrightarrow> entry_seq e < n)"

text \<open>Below level 0 the tables of a level are ordered and their key ranges are disjoint.\<close>

definition disjoint_level :: "SSTableInfo list \<Rightarrow> bool" where
  "disjoint_level level \<longleftrightarrow>
     sorted_wrt (\<lambda>a b. meta_largest_key (info_meta a) < meta_smallest_key (info_meta b)) level"

definition mem_ok :: "DBImpl \<Rightarrow> bool" where
  "mem_ok db \<longleftrightarrow>
     (\<forall>mt \<in> set (db_memtable db # db_immutables db).
        mt_invar mt \<and> (\<forall>k \<in> dom (mt_map mt). length k + 29 < 2 ^ 32))"

definition logs_ok :: "DBImpl \<Rightarrow> fs \<Rightarrow> bool" where
  "logs_ok db fs \<longleftrightarrow>
     vl_ok (db_vlog db) fs \<and> vl_db_path (db_vlog db) = db_path db \<and>
     vl_options (db_vlog db) = db_options db \<and> vlogs_clean fs (db_path db) \<and>
     wal_open (db_wal db) (WALFilePath (db_path db) (db_wal_id db)) \<and>
     wal_db_path (db_wal db) = db_path db \<and>
     content fs (WALFilePath (db_path db) (db_wal_id db)) \<noteq> None"

text \<open>
  An entry of the view stands for a value of the map, a deletion for none. The key is short
  enough for a record of the write-ahead log.
\<close>

definition entry_stands :: "fs \<Rightarrow> path \<Rightarrow> bytes \<Rightarrow> InternalEntry option \<Rightarrow> bytes option \<Rightarrow> bool" where
  "entry_stands fs dbp k entry val \<longleftrightarrow>
     (case entry of
        None \<Rightarrow> val = None
      | Some e \<Rightarrow>
          entry_type e = kDeletion \<and> val = None \<or>
          entry_type e = kValue \<and> length k + 29 < 2 ^ 32 \<and> (\<exists>v. val = Some v \<and> vlog_stored fs dbp (vlog_ptr e) k v))"

definition represents :: "DBImpl \<Rightarrow> fs \<Rightarrow> (bytes \<rightharpoonup> bytes) \<Rightarrow> bool" where
  "represents db fs kv \<longleftrightarrow>
     (\<forall>k. entry_stands fs (db_path db) k (lookup_in (sources db fs) k) (kv k))"

definition db_inv :: "DBImpl \<Rightarrow> fs \<Rightarrow> (bytes \<rightharpoonup> bytes) \<Rightarrow> bool" where
  "db_inv db fs kv \<longleftrightarrow>
     reliable fs \<and> mem_ok db \<and> levels_ok db fs \<and>
     (\<forall>level \<in> set (drop 1 (db_levels db)). disjoint_level level) \<and> logs_ok db fs \<and>
     newest (sources db fs) \<and> seqs_below (db_sequence_number db) (sources db fs) \<and>
     represents db fs kv"

lemma lookup_in_Cons:
  "lookup_in (m # ms) k = (case m k of Some e \<Rightarrow> Some e | None \<Rightarrow> lookup_in ms k)"
  by (simp add: lookup_in_def split: option.split)

lemma lookup_in_append:
  "lookup_in (ms @ ms') k = (case lookup_in ms k of Some e \<Rightarrow> Some e | None \<Rightarrow> lookup_in ms' k)"
  by (simp add: lookup_in_def first_hit_append split: option.split)

lemma lookup_in_None: "lookup_in ms k = None \<longleftrightarrow> (\<forall>m \<in> set ms. m k = None)"
  by (simp add: lookup_in_def first_hit_None_iff)

text \<open>A new entry in the memtable, newer than everything there is.\<close>

lemma lookup_in_insert: "lookup_in (m(k \<mapsto> e) # ms) k' = (if k' = k then Some e else lookup_in (m # ms) k')"
  by (simp add: lookup_in_Cons)

lemma newest_insert:
  assumes "newest (m # ms)" and "seqs_below (entry_seq e) (m # ms)"
  shows "newest (m(k \<mapsto> e) # ms)"
  using assms unfolding newest_def seqs_below_def lookup_in_insert by (auto split: if_splits)

lemma seqs_below_insert:
  "seqs_below n (m # ms) \<Longrightarrow> entry_seq e < n' \<Longrightarrow> n \<le> n' \<Longrightarrow> seqs_below n' (m(k \<mapsto> e) # ms)"
  by (fastforce simp: seqs_below_def split: if_splits)

lemma sources_Cons:
  "sources db fs = mt_map (db_memtable db) # map mt_map (rev (db_immutables db)) @ sst_sources db fs"
  by (simp add: sources_def mem_sources_def)

lemma sst_sources_cong:
  assumes "reliable fs" "reliable fs'" and "levels_ok db fs" and "db_levels db' = db_levels db"
    and "\<And>info. info \<in> set (concat (db_levels db)) \<Longrightarrow>
      content fs' (info_path (db_path db) info) = content fs (info_path (db_path db) info)"
  shows "sst_sources db' fs' = sst_sources db fs"
proof -
  have eq: "tmap fs' info = tmap fs info" if "info \<in> set (concat (db_levels db))" for info
    using assms that by (intro tmap_cong [where dbp = "db_path db"]) (auto simp: levels_ok_def)
  have "db_levels db ! 0 \<in> set (db_levels db)"
    using assms(3) by (intro nth_mem) (metis length_greater_0_conv levels_ok_def)
  then have "map (tmap fs') (rev (db_levels db ! 0)) = map (tmap fs) (rev (db_levels db ! 0))"
    by (intro map_cong refl eq) auto
  moreover have "map (map (tmap fs')) (drop 1 (db_levels db)) = map (map (tmap fs)) (drop 1 (db_levels db))"
    by (intro map_cong refl eq) (auto dest: in_set_dropD)
  ultimately show ?thesis unfolding sst_sources_def assms(4) by (simp only:)
qed

lemma levels_ok_cong:
  assumes "levels_ok db fs" and "db_levels db' = db_levels db" "db_path db' = db_path db"
    "db_options db' = db_options db" "db_next_sstable_id db' = db_next_sstable_id db"
    and "\<And>info. info \<in> set (concat (db_levels db)) \<Longrightarrow>
      content fs' (info_path (db_path db) info) = content fs (info_path (db_path db) info)"
  shows "levels_ok db' fs'"
proof -
  have "info_ok fs' (db_path db) info" if "info \<in> set (concat (db_levels db))" for info
    using assms(1) that info_ok_cong [OF assms(6) [OF that]] unfolding levels_ok_def by blast
  with assms(1-5) show ?thesis by (simp add: levels_ok_def)
qed

lemma entry_stands_cong:
  assumes "\<And>i. content fs' (vlog_file_path dbp i) = content fs (vlog_file_path dbp i)"
  shows "entry_stands fs' dbp k e v = entry_stands fs dbp k e v"
  using vlog_stored_cong [OF assms] by (simp add: entry_stands_def split: option.split)

lemma entry_stands_grown:
  "grown fs fs' \<Longrightarrow> entry_stands fs dbp k e v \<Longrightarrow> entry_stands fs' dbp k e v"
  by (auto simp: entry_stands_def intro: vlog_stored_grown split: option.splits)

end
