(* ===== verification/Storage_Steps.thy ===== *)
theory Storage_Steps
  imports Db_Invariant
begin

text \<open>
  What the operations do to the disk, in steps: the value log and the open files change, a record
  is logged and applied, a new log is begun; or tables are written or merged. Writes and garbage
  collection are sequences of steps of the first kind, flushes and compactions are of the second;
  whatever the steps preserve, all operations do.
\<close>

section \<open>Changes to the tables only\<close>

text \<open>
  Flushes and compactions change nothing but tables and manifest. A lookup gives the same entry
  afterwards, or nothing instead of a deletion, and the manifest lists the tables if it did before.
\<close>

definition logs_of :: "DBImpl \<Rightarrow> Options \<times> path \<times> VLog \<times> WAL \<times> u64 \<times> u64" where
  "logs_of db = (db_options db, db_path db, db_vlog db, db_wal db, db_wal_id db, db_sequence_number db)"

definition table_file :: "path \<Rightarrow> path \<Rightarrow> bool" where
  "table_file dbp q \<longleftrightarrow> (\<exists>i. q = SSTableFilePath dbp i) \<or> q = ManifestPath dbp \<or> q = ManifestPath dbp @ str ''.tmp''"

lemma table_file_simps [simp]:
  "table_file dbp (SSTableFilePath dbp i)" "\<not> table_file dbp (vlog_file_path dbp j)" "\<not> table_file dbp (WALFilePath dbp n)"
  "table_file dbp (ManifestPath dbp)" "table_file dbp (ManifestPath dbp @ str ''.tmp'')"
  by (auto simp: table_file_def)

definition manifest_says :: "DBImpl \<Rightarrow> fs \<Rightarrow> bool" where
  "manifest_says db fs \<longleftrightarrow>
     content fs (ManifestPath (db_path db)) = Some (manifest_text (db_next_sstable_id db) (db_levels db))"

definition keeps_or_drops :: "(bytes \<rightharpoonup> InternalEntry) list \<Rightarrow> (bytes \<rightharpoonup> InternalEntry) list \<Rightarrow> bool" where
  "keeps_or_drops ms ms' \<longleftrightarrow>
     (\<forall>k. lookup_in ms' k = lookup_in ms k \<or>
        lookup_in ms' k = None \<and> (\<exists>e. lookup_in ms k = Some e \<and> entry_type e = kDeletion))"

text \<open>The metadata of a table name its level.\<close>

definition levels_numbered :: "SSTableInfo list list \<Rightarrow> bool" where
  "levels_numbered L \<longleftrightarrow> (\<forall>i < length L. \<forall>info \<in> set (L ! i). meta_level (info_meta info) = int i)"

lemma levels_numbered_add:
  "levels_numbered L \<Longrightarrow> L \<noteq> [] \<Longrightarrow> meta_level (info_meta info) = 0 \<Longrightarrow> levels_numbered (L[0 := L ! 0 @ [info]])"
  by (auto simp: levels_numbered_def nth_list_update)

definition tables_moved :: "DBImpl \<Rightarrow> fs \<Rightarrow> DBImpl \<Rightarrow> fs \<Rightarrow> bool" where
  "tables_moved db fs db' fs' \<longleftrightarrow>
     logs_of db' = logs_of db \<and> keeps_or_drops (sources db fs) (sources db' fs') \<and>
     (\<forall>q. \<not> table_file (db_path db) q \<longrightarrow> content fs' q = content fs q) \<and>
     (levels_numbered (db_levels db) \<longrightarrow> levels_numbered (db_levels db')) \<and>
     (manifest_says db' fs' \<or>
      db_levels db' = db_levels db \<and> db_next_sstable_id db' = db_next_sstable_id db \<and>
      content fs' (ManifestPath (db_path db)) = content fs (ManifestPath (db_path db)))"

lemma keeps_or_drops_same: "(\<And>k. lookup_in ms' k = lookup_in ms k) \<Longrightarrow> keeps_or_drops ms ms'"
  by (simp add: keeps_or_drops_def)

lemma keeps_or_drops_trans: "keeps_or_drops a b \<Longrightarrow> keeps_or_drops b c \<Longrightarrow> keeps_or_drops a c"
  unfolding keeps_or_drops_def by metis

lemma tables_moved_refl [simp]: "tables_moved db fs db fs"
  by (simp add: tables_moved_def keeps_or_drops_def)

lemma tables_moved_trans:
  assumes "tables_moved a fs b fs1" and "tables_moved b fs1 c fs2"
  shows "tables_moved a fs c fs2"
proof -
  have "db_path b = db_path a" "db_path c = db_path a" using assms by (simp_all add: tables_moved_def logs_of_def)
  with assms show ?thesis
    unfolding tables_moved_def by (auto simp: manifest_says_def intro: keeps_or_drops_trans)
qed

section \<open>Steps\<close>

text \<open>A record that the database writes, and the entry it stands for.\<close>

definition logged :: "WALRecord \<Rightarrow> bool" where
  "logged r \<longleftrightarrow> wal_valid r \<and> (wal_type r = kValue \<or> wal_type r = kDeletion)"

definition entry_of :: "WALRecord \<Rightarrow> InternalEntry" where
  "entry_of r = \<lparr>vlog_ptr = wal_vlog_ptr r, entry_seq = wal_sequence r, entry_type = wal_type r\<rparr>"

text \<open>
  The database is the same, its tables are, the value log has moved forward at most, and memtables
  have joined the queue at most.
\<close>

definition same_tables :: "DBImpl \<Rightarrow> DBImpl \<Rightarrow> bool" where
  "same_tables db db' \<longleftrightarrow> db_options db' = db_options db \<and> db_path db' = db_path db \<and>
     db_levels db' = db_levels db \<and> db_next_sstable_id db' = db_next_sstable_id db \<and>
     vl_current_file_id (db_vlog db) \<le> vl_current_file_id (db_vlog db') \<and>
     (\<exists>mts. db_immutables db' = db_immutables db @ mts)"

definition vlog_file :: "path \<Rightarrow> path \<Rightarrow> bool" where
  "vlog_file dbp q \<longleftrightarrow> (\<exists>i. q = vlog_file_path dbp i)"

lemma vlog_file_simps [simp]:
  "vlog_file dbp (vlog_file_path dbp i)" "\<not> vlog_file dbp (SSTableFilePath dbp j)" "\<not> vlog_file dbp (WALFilePath dbp n)"
  "\<not> vlog_file dbp (ManifestPath dbp)" "\<not> vlog_file dbp (ManifestPath dbp @ t)"
  by (auto simp: vlog_file_def)

text \<open>\<open>K\<close> are the keys that may be logged although no lookup finds them.\<close>

inductive log_step :: "bytes set \<Rightarrow> DBImpl \<times> fs \<Rightarrow> DBImpl \<times> fs \<Rightarrow> bool" for K where
  idle: "same_tables db db' \<Longrightarrow> db_wal_id db' = db_wal_id db \<Longrightarrow> db_sequence_number db' = db_sequence_number db \<Longrightarrow>
    lookup_in (sources db' fs') = lookup_in (sources db fs) \<Longrightarrow>
    \<forall>q. \<not> vlog_file (db_path db) q \<longrightarrow> content fs' q = content fs q \<Longrightarrow>
    log_step K (db, fs) (db', fs')"
| logging: "same_tables db db' \<Longrightarrow> db_wal_id db' = db_wal_id db \<Longrightarrow>
    db_sequence_number db' = db_sequence_number db + 1 \<Longrightarrow> db_sequence_number db + 1 \<noteq> 0 \<Longrightarrow>
    logged r \<Longrightarrow> wal_sequence r = db_sequence_number db \<Longrightarrow>
    wal_key r \<in> K \<or> lookup_in (sources db fs) (wal_key r) \<noteq> None \<Longrightarrow>
    lookup_in (sources db' fs') = (lookup_in (sources db fs))(wal_key r \<mapsto> entry_of r) \<Longrightarrow>
    content fs' (WALFilePath (db_path db) (db_wal_id db)) =
      Some (file_bytes fs (WALFilePath (db_path db) (db_wal_id db)) @ wal_encode r) \<Longrightarrow>
    \<forall>q. \<not> vlog_file (db_path db) q \<and> q \<noteq> WALFilePath (db_path db) (db_wal_id db) \<longrightarrow> content fs' q = content fs q \<Longrightarrow>
    log_step K (db, fs) (db', fs')"
| rotation: "same_tables db db' \<Longrightarrow> db_wal_id db' = db_wal_id db + 1 \<Longrightarrow> db_wal_id db + 1 \<noteq> 0 \<Longrightarrow>
    db_sequence_number db' = db_sequence_number db \<Longrightarrow>
    lookup_in (sources db' fs') = lookup_in (sources db fs) \<Longrightarrow>
    content fs' = (content fs)(WALFilePath (db_path db) (db_wal_id db + 1) \<mapsto> []) \<Longrightarrow>
    log_step K (db, fs) (db', fs')"

inductive_cases log_stepE: "log_step K (db, fs) (db', fs')"

abbreviation log_run :: "bytes set \<Rightarrow> DBImpl \<times> fs \<Rightarrow> DBImpl \<times> fs \<Rightarrow> bool" where
  "log_run K \<equiv> (log_step K)\<^sup>*\<^sup>*"

lemma log_step_mono: "log_step K x y \<Longrightarrow> K \<subseteq> K' \<Longrightarrow> log_step K' x y"
proof (induction rule: log_step.induct)
  case (logging db db' r fs fs')
  then show ?case by (intro log_step.logging [of db db' r]) auto
qed (blast intro: log_step.intros)+

lemma log_run_mono:
  assumes "log_run K x y" and "K \<subseteq> K'"
  shows "log_run K' x y"
  using assms(1)
proof induction
  case (step y z)
  from step.IH log_step_mono [OF step.hyps(2) assms(2)] show ?case by (rule rtranclp.rtrancl_into_rtrancl)
qed simp

lemma log_run_trans: "log_run K x y \<Longrightarrow> log_run K y z \<Longrightarrow> log_run K x z"
  by (rule rtranclp_trans)

lemma log_idle:
  "same_tables db db' \<Longrightarrow> db_wal_id db' = db_wal_id db \<Longrightarrow> db_sequence_number db' = db_sequence_number db \<Longrightarrow>
    (\<And>k. lookup_in (sources db' fs') k = lookup_in (sources db fs) k) \<Longrightarrow>
    (\<And>q. \<not> vlog_file (db_path db) q \<Longrightarrow> content fs' q = content fs q) \<Longrightarrow> log_run K (db, fs) (db', fs')"
  by (intro r_into_rtranclp log_step.idle ext) auto

text \<open>Such steps do not touch the tables.\<close>

lemma log_step_tables:
  "log_step K (db, fs) (db', fs') \<Longrightarrow> same_tables db db' \<and>
    (\<forall>i. content fs' (SSTableFilePath (db_path db) i) = content fs (SSTableFilePath (db_path db) i))"
  by (auto elim!: log_stepE)

lemma same_tables_trans: "same_tables a b \<Longrightarrow> same_tables b c \<Longrightarrow> same_tables a c"
  by (auto simp: same_tables_def)

lemma log_run_tables:
  assumes "log_run K (db, fs) (db', fs')"
  shows "same_tables db db' \<and>
    (\<forall>i. content fs' (SSTableFilePath (db_path db) i) = content fs (SSTableFilePath (db_path db) i))"
  using assms
proof (induction "(db', fs')" arbitrary: db' fs' rule: rtranclp_induct)
  case base
  then show ?case by (simp add: same_tables_def)
next
  case (step y)
  obtain db1 fs1 where y: "y = (db1, fs1)" by force
  note 1 = step.hyps(3) [OF y] and 2 = log_step_tables [OF step.hyps(2) [unfolded y]]
  then have "db_path db1 = db_path db" by (simp add: same_tables_def)
  with 1 2 show ?case by (auto intro: same_tables_trans)
qed

end
