(* ===== verification/Db_Refine.thy ===== *)
theory Db_Refine
  imports Storage_Steps
begin

text \<open>
  Reads and writes refine a map from keys to values: \<open>DB_Get\<close> returns what the map
  holds, a batch updates the map, and the invariant is kept.
\<close>

section \<open>Get\<close>

lemma DB_Get_refines:
  assumes "db_inv db fs kv"
  obtains db' where "DB_Get ro k db fs =
      (case kv k of
         Some v \<Rightarrow> (Status_OK, Some v, db')
       | None \<Rightarrow> (NotFound (if find_latest db fs k = None then str ''Key not found''
                            else str ''Key deleted''), None, db'))"
    and "db_inv db' fs kv"
    and "db' = db\<lparr>db_vlog := (db_vlog db)\<lparr>vl_readers := vl_readers (db_vlog db')\<rparr>\<rparr>"
proof -
  have rel: "reliable fs" and lat: "find_latest db fs k = lookup_in (sources db fs) k"
    using assms find_latest_sources by (auto simp: db_inv_def)
  have st: "entry_stands fs (db_path db) k (find_latest db fs k) (kv k)"
    using assms lat by (simp add: db_inv_def represents_def)
  show ?thesis
  proof (cases "kv k")
    case None
    with st show ?thesis
      by (intro that [of db]) (use assms in \<open>auto simp: DB_Get_def entry_stands_def split: option.splits\<close>)
  next
    case (Some v)
    with st obtain e where e: "find_latest db fs k = Some e" "entry_type e = kValue"
      "vlog_at fs (db_path db) (vlog_ptr e) k v"
      by (auto simp: entry_stands_def vlog_stored_def split: option.splits)
    have ro: "readers_ok (db_vlog db)" "vl_db_path (db_vlog db) = db_path db"
      using assms by (auto simp: db_inv_def logs_ok_def vl_ok_def)
    obtain vl' where "VLog_Read (vlog_ptr e) (db_vlog db) fs = (Status_OK, Some k, Some v, vl')"
      "readers_ok vl'" "vl' = (db_vlog db)\<lparr>vl_readers := vl_readers vl'\<rparr>"
      using e(3) ro VLog_Read_at [OF rel ro(1), of "vlog_ptr e" k v] by auto
    then obtain r where vl': "VLog_Read (vlog_ptr e) (db_vlog db) fs =
        (Status_OK, Some k, Some v, (db_vlog db)\<lparr>vl_readers := r\<rparr>)"
      "readers_ok ((db_vlog db)\<lparr>vl_readers := r\<rparr>)" by metis
    let ?db = "db\<lparr>db_vlog := (db_vlog db)\<lparr>vl_readers := r\<rparr>\<rparr>"
    have "logs_ok ?db fs"
      using assms vl'(2) by (auto simp: db_inv_def logs_ok_def vl_ok_def VLogFilePath_def)
    then have "db_inv ?db fs kv"
      using assms
      by (simp add: db_inv_def mem_ok_def levels_ok_def represents_def sources_def mem_sources_def
          sst_sources_def)
    with e vl' Some show ?thesis
      by (intro that [of ?db]) (simp_all add: DB_Get_def)
  qed
qed

section \<open>One entry\<close>

text \<open>
  The step that a put, a deletion and a redirection by the garbage collector share: an
  entry with a fresh sequence number goes into the memtable while the logs grow.
\<close>

lemma insert_step:
  assumes inv: "db_inv db fs kv" and rel: "reliable fs'" and grow: "grown fs fs'"
    and sst: "\<And>i. content fs' (SSTableFilePath (db_path db) i) = content fs (SSTableFilePath (db_path db) i)"
    and seq: "db_sequence_number db + 1 \<noteq> 0" "entry_seq e = db_sequence_number db"
    and len: "length k + 29 < 2 ^ 32"
    and stands: "entry_stands fs' (db_path db) k (Some e) val"
    and db': "db' = db\<lparr>db_sequence_number := db_sequence_number db + 1, db_vlog := vl, db_wal := wal,
      db_memtable := mem_insert (db_memtable db) k e\<rparr>"
    and logs: "logs_ok db' fs'"
  shows "db_inv db' fs' (kv(k := val))"
proof -
  let ?m = "mt_map (db_memtable db)"
  let ?ms = "map mt_map (rev (db_immutables db)) @ sst_sources db fs"
  have mok: "mem_ok db" and lv: "levels_ok db fs" and rel0: "reliable fs"
    and disj: "\<forall>level \<in> set (drop 1 (db_levels db)). disjoint_level level"
    and new: "newest (sources db fs)" and sqs: "seqs_below (db_sequence_number db) (sources db fs)"
    and rep: "represents db fs kv"
    using inv unfolding db_inv_def by blast+
  have mt: "mt_invar (db_memtable db)" using mok by (simp add: mem_ok_def)
  have "sst_sources db' fs' = sst_sources db fs"
    by (rule sst_sources_cong [OF rel0 rel lv]) (use sst in \<open>simp_all add: db' info_path_def\<close>)
  then have src: "sources db' fs' = ?m(k \<mapsto> e) # ?ms"
    using mt by (simp add: sources_Cons db' mt_map_mem_insert)
  have src0: "sources db fs = ?m # ?ms" by (simp add: sources_Cons)
  have "mem_ok db'"
    using mok mt len by (simp add: mem_ok_def db' mt_invar_mem_insert mt_map_mem_insert)
  moreover have "levels_ok db' fs'"
    by (rule levels_ok_cong [OF lv]) (use sst in \<open>simp_all add: db' info_path_def\<close>)
  moreover have "newest (sources db' fs')"
    unfolding src by (rule newest_insert) (use new sqs in \<open>simp_all only: src0 seq(2)\<close>)
  moreover have "seqs_below (db_sequence_number db') (sources db' fs')"
    unfolding src using sqs seq(2) less_Suc_nonzero [OF seq(1)]
    by (intro seqs_below_insert [of "db_sequence_number db"]) (simp_all add: src0 db')
  moreover have "represents db' fs' (kv(k := val))"
  proof -
    have "entry_stands fs' (db_path db) k' (lookup_in (?m # ?ms) k') (kv k')" for k'
      using rep by (intro entry_stands_grown [OF grow]) (simp add: represents_def src0)
    then show ?thesis
      unfolding represents_def src lookup_in_insert using stands by (simp add: db')
  qed
  ultimately show ?thesis
    using rel logs disj by (simp add: db_inv_def) (simp add: db')
qed

text \<open>The same step as a step of the storage.\<close>

lemma insert_logs:
  assumes inv: "db_inv db fs kv" and rel: "reliable fs'"
    and seq: "db_sequence_number db + 1 \<noteq> 0" and r: "logged r" "wal_sequence r = db_sequence_number db"
    and key: "wal_key r \<in> K \<or> lookup_in (sources db fs) (wal_key r) \<noteq> None"
    and db': "db' = db\<lparr>db_sequence_number := db_sequence_number db + 1, db_vlog := vl, db_wal := wal,
      db_memtable := mem_insert (db_memtable db) (wal_key r) (entry_of r)\<rparr>"
    and vl: "vl_current_file_id (db_vlog db) \<le> vl_current_file_id vl"
    and con: "content fs' (WALFilePath (db_path db) (db_wal_id db)) =
        Some (file_bytes fs (WALFilePath (db_path db) (db_wal_id db)) @ wal_encode r)"
      "\<And>q. \<not> vlog_file (db_path db) q \<Longrightarrow> q \<noteq> WALFilePath (db_path db) (db_wal_id db) \<Longrightarrow> content fs' q = content fs q"
  shows "log_run K (db, fs) (db', fs')"
proof -
  have mok: "mem_ok db" and lv: "levels_ok db fs" and rel0: "reliable fs"
    using inv unfolding db_inv_def by blast+
  have "sst_sources db' fs' = sst_sources db fs"
    by (rule sst_sources_cong [OF rel0 rel lv]) (use con(2) in \<open>simp_all add: db' info_path_def\<close>)
  moreover have "mt_invar (db_memtable db)" using mok by (simp add: mem_ok_def)
  ultimately have look: "lookup_in (sources db' fs') = (lookup_in (sources db fs))(wal_key r \<mapsto> entry_of r)"
    by (auto simp: sources_Cons db' mt_map_mem_insert lookup_in_insert)
  show ?thesis
    by (intro r_into_rtranclp log_step.logging [OF _ _ _ seq r key look con(1)])
      (use vl con(2) in \<open>simp_all add: db' same_tables_def\<close>)
qed

definition entry_fits :: "Entry \<Rightarrow> bool" where
  "entry_fits entry \<longleftrightarrow> length (batch_key entry) + length (batch_value entry) + 29 < 2 ^ 32"

text \<open>Sequence numbers and value-log files for \<open>n\<close> more entries.\<close>

definition room :: "nat \<Rightarrow> DBImpl \<Rightarrow> bool" where
  "room n db \<longleftrightarrow> unat (db_sequence_number db) + n < 2 ^ 64 \<and>
     unat (vl_current_file_id (db_vlog db)) + n < 2 ^ 32"

lemma room_Suc: "room (Suc n) db \<Longrightarrow> db_sequence_number db + 1 \<noteq> 0 \<and> vl_current_file_id (db_vlog db) + 1 \<noteq> 0"
  using plus_one_nonzero [of "db_sequence_number db"]
    plus_one_nonzero [of "vl_current_file_id (db_vlog db)"] by (simp add: room_def)

lemma logs_ok_frame:
  assumes "wal_open wal (WALFilePath (db_path db) (db_wal_id db))" and "wal_db_path wal = db_path db"
    and "vl_ok vl fs" and "vl_db_path vl = db_path db" and "vl_options vl = db_options db"
    and "vlogs_clean fs (db_path db)"
    and "content fs' = (content fs)(WALFilePath (db_path db) (db_wal_id db) \<mapsto> c)"
    and "db_path db' = db_path db" "db_wal_id db' = db_wal_id db" "db_options db' = db_options db"
      "db_vlog db' = vl" "db_wal db' = wal"
  shows "logs_ok db' fs'"
proof -
  have "vl_ok vl fs' = vl_ok vl fs"
    using assms(4,7) by (intro vl_ok_cong) (simp add: VLogFilePath_def)
  moreover have "vlogs_clean fs' (db_path db) = vlogs_clean fs (db_path db)"
    using assms(7) by (intro vlogs_clean_cong) simp
  ultimately show ?thesis using assms by (simp add: logs_ok_def)
qed

lemma Write_entry_refines:
  assumes inv: "db_inv db fs kv" and fits: "entry_fits entry" and room: "room (Suc n) db"
  obtains db' fs' where "Write_entry entry db fs = (Status_OK, db', fs')"
    and "db_inv db' fs' (apply_entry entry kv)" and "room n db'"
    and "log_run {batch_key entry} (db, fs) (db', fs')"
proof -
  let ?k = "batch_key entry" and ?v = "batch_value entry" and ?seq = "db_sequence_number db"
  let ?wp = "WALFilePath (db_path db) (db_wal_id db)"
  have rel: "reliable fs" and vl: "vl_ok (db_vlog db) fs" "vl_db_path (db_vlog db) = db_path db"
      "vl_options (db_vlog db) = db_options db" "vlogs_clean fs (db_path db)"
    and wal: "wal_open (db_wal db) ?wp" "wal_db_path (db_wal db) = db_path db" "content fs ?wp \<noteq> None"
    using inv by (auto simp: db_inv_def logs_ok_def)
  from room_Suc [OF room] have seq: "?seq + 1 \<noteq> 0" and fid: "vl_current_file_id (db_vlog db) + 1 \<noteq> 0"
    by auto
  have len: "length ?k + 29 < 2 ^ 32" using fits by (simp add: entry_fits_def)
  show ?thesis
  proof (cases "batch_type entry")
    case kPut
    have "vlog_valid (?k, ?v, kValue)" using fits by (simp add: entry_fits_def vlog_valid_def)
    then obtain ptr vl1 fs1 where app: "VLog_Append ?k ?v kValue (db_vlog db) fs = (Status_OK, Some ptr, vl1, fs1)"
      and ad: "appended ?k ?v (db_vlog db) fs ptr vl1 fs1"
      using VLog_Append_appended [OF rel vl(1) _ fid] by metis
    let ?e = "\<lparr>vlog_ptr = ptr, entry_seq = ?seq, entry_type = kValue\<rparr>"
    let ?rec = "\<lparr>wal_type = kValue, wal_sequence = ?seq, wal_key = ?k, wal_vlog_ptr = ptr\<rparr>"
    have rel1: "reliable fs1" using ad by (simp add: appended_def)
    obtain wal' where w: "WAL_AddRecord ?rec (db_wal db) fs1 =
        (Status_OK, wal', set_content ?wp (file_bytes fs1 ?wp @ wal_encode ?rec) fs1)"
      "wal_open wal' ?wp" "wal_db_path wal' = wal_db_path (db_wal db)"
      using rel1 wal(1) by (rule WAL_AddRecord_reliable)
    let ?fs' = "set_content ?wp (file_bytes fs1 ?wp @ wal_encode ?rec) fs1"
    let ?db' = "db\<lparr>db_sequence_number := ?seq + 1, db_vlog := vl1, db_wal := wal',
      db_memtable := mem_insert (db_memtable db) ?k ?e\<rparr>"
    have g1: "grown fs1 ?fs'" by (auto simp: grown_def file_bytes_Some)
    have wr: "Write_entry entry db fs = (Status_OK, ?db', ?fs')"
      using kPut app w(1) by (simp add: Write_entry_def MemTable_Put_def Let_def)
    have "db_inv ?db' ?fs' (kv(?k := Some ?v))"
    proof (rule insert_step [OF inv _ _ _ seq _ len _ refl])
      show "reliable ?fs'" using rel1 by simp
      show "grown fs ?fs'" using ad g1 by (auto simp: appended_def intro: grown_trans)
      show "content ?fs' (SSTableFilePath (db_path db) i) = content fs (SSTableFilePath (db_path db) i)" for i
        using ad vl(2) by (simp add: appended_def VLogFilePath_def)
      show "entry_stands ?fs' (db_path db) ?k (Some ?e) (Some ?v)"
        using ad g1 vl(2,4) len by (auto simp: entry_stands_def appended_def vlog_stored_def intro: vlog_at_grown vlog_scan_at_grown)
      show "logs_ok ?db' ?fs'"
        by (rule logs_ok_frame [of wal' db vl1 fs1])
          (use w wal vl ad in \<open>simp_all add: appended_def\<close>)
    qed simp
    moreover have "room n ?db'"
      using room ad unat_Suc_nonzero [OF seq] by (simp add: room_def appended_def)
    moreover have le: "vl_current_file_id (db_vlog db) \<le> vl_current_file_id vl1"
      using ad unfolding appended_def by blast
    moreover have "log_run {?k} (db, fs) (?db', ?fs')"
    proof (rule insert_logs [OF inv _ seq, of _ ?rec])
      show "content ?fs' q = content fs q" if "\<not> vlog_file (db_path db) q" "q \<noteq> ?wp" for q
        using ad vl(2) that by (auto simp: appended_def VLogFilePath_def vlog_file_def)
      have "file_bytes fs1 ?wp = file_bytes fs ?wp"
        using ad vl(2) by (simp add: file_bytes_def appended_def VLogFilePath_def)
      then show "content ?fs' ?wp = Some (file_bytes fs ?wp @ wal_encode ?rec)" by simp
    qed (use rel1 le len in \<open>simp_all add: logged_def wal_valid_def entry_of_def\<close>)
    ultimately show ?thesis using wr kPut by (intro that) simp_all
  next
    case kDelete
    let ?e = "\<lparr>vlog_ptr = null_ptr, entry_seq = ?seq, entry_type = kDeletion\<rparr>"
    let ?rec = "\<lparr>wal_type = kDeletion, wal_sequence = ?seq, wal_key = ?k, wal_vlog_ptr = null_ptr\<rparr>"
    obtain wal' where w: "WAL_AddRecord ?rec (db_wal db) fs =
        (Status_OK, wal', set_content ?wp (file_bytes fs ?wp @ wal_encode ?rec) fs)"
      "wal_open wal' ?wp" "wal_db_path wal' = wal_db_path (db_wal db)"
      using rel wal(1) by (rule WAL_AddRecord_reliable)
    let ?fs' = "set_content ?wp (file_bytes fs ?wp @ wal_encode ?rec) fs"
    let ?db' = "db\<lparr>db_sequence_number := ?seq + 1, db_vlog := db_vlog db, db_wal := wal',
      db_memtable := mem_insert (db_memtable db) ?k ?e\<rparr>"
    have wr: "Write_entry entry db fs = (Status_OK, ?db', ?fs')"
      using kDelete w(1) by (simp add: Write_entry_def MemTable_Delete_def Let_def)
    have "db_inv ?db' ?fs' (kv(?k := None))"
    proof (rule insert_step [OF inv _ _ _ seq _ len _ refl])
      show "grown fs ?fs'" by (auto simp: grown_def file_bytes_Some)
      show "logs_ok ?db' ?fs'"
        by (rule logs_ok_frame [of wal' db "db_vlog db" fs]) (use w wal vl in simp_all)
    qed (use rel in \<open>simp_all add: entry_stands_def\<close>)
    moreover have "room n ?db'"
      using room unat_Suc_nonzero [OF seq] by (simp add: room_def)
    moreover have "log_run {?k} (db, fs) (?db', ?fs')"
      by (rule insert_logs [OF inv _ seq, where vl = "db_vlog db" and wal = wal' and r = ?rec])
        (use rel len in \<open>simp_all add: logged_def wal_valid_def entry_of_def kDeletion_def kValue_def\<close>)
    ultimately show ?thesis using wr kDelete by (intro that) simp_all
  qed
qed

section \<open>Batches\<close>

lemma Write_entries_refines:
  "db_inv db fs kv \<Longrightarrow> list_all entry_fits batch \<Longrightarrow> room (length batch + n) db \<Longrightarrow>
    \<exists>db' fs'. Write_entries batch db fs = (Status_OK, db', fs') \<and>
      db_inv db' fs' (apply_batch batch kv) \<and> room n db' \<and> log_run (batch_key ` set batch) (db, fs) (db', fs')"
proof (induction batch arbitrary: db fs kv)
  case Nil
  then show ?case by (simp add: apply_batch_def)
next
  case (Cons entry batch)
  from Cons.prems(2,3) have p: "entry_fits entry" "room (Suc (length batch + n)) db" by simp_all
  obtain db1 fs1 where w: "Write_entry entry db fs = (Status_OK, db1, fs1)"
    and i: "db_inv db1 fs1 (apply_entry entry kv)" and r: "room (length batch + n) db1"
    and st: "log_run {batch_key entry} (db, fs) (db1, fs1)"
    using Cons.prems(1) p by (rule Write_entry_refines)
  let ?K = "batch_key ` set (entry # batch)"
  have st1: "log_run ?K (db, fs) (db1, fs1)" using st by (rule log_run_mono) simp
  from Cons.IH [OF i _ r] Cons.prems(2) obtain db' fs' where
    w': "Write_entries batch db1 fs1 = (Status_OK, db', fs')" "db_inv db' fs' (apply_batch batch (apply_entry entry kv))"
    "room n db'" "log_run (batch_key ` set batch) (db1, fs1) (db', fs')" by auto
  have "log_run ?K (db1, fs1) (db', fs')" using w'(4) by (rule log_run_mono) auto
  with st1 have "log_run ?K (db, fs) (db', fs')" by (rule log_run_trans)
  with w w' show ?case
    by (simp add: apply_batch_def del: apply_entry.simps)
qed

text \<open>States that differ in nothing a lookup reads.\<close>

definition same_data :: "path \<Rightarrow> fs \<Rightarrow> fs \<Rightarrow> bool" where
  "same_data dbp fs fs' \<longleftrightarrow>
     (\<forall>i. content fs' (SSTableFilePath dbp i) = content fs (SSTableFilePath dbp i)) \<and>
     (\<forall>i. content fs' (vlog_file_path dbp i) = content fs (vlog_file_path dbp i))"

lemma entry_stands_same: "same_data dbp fs fs' \<Longrightarrow> entry_stands fs' dbp k e v = entry_stands fs dbp k e v"
  by (rule entry_stands_cong) (simp add: same_data_def)

lemma vl_ok_same: "same_data (vl_db_path vl) fs fs' \<Longrightarrow> vl_ok vl fs' = vl_ok vl fs"
  by (rule vl_ok_cong) (simp add: same_data_def VLogFilePath_def)

lemma db_inv_frame:
  assumes inv: "db_inv db fs kv" and rel: "reliable fs'" and same: "same_data (db_path db) fs fs'"
    and eqs: "db_path db' = db_path db" "db_options db' = db_options db" "db_levels db' = db_levels db"
      "db_next_sstable_id db' = db_next_sstable_id db" "db_sequence_number db' = db_sequence_number db"
    and mem: "mem_ok db'" and logs: "logs_ok db' fs'"
    and look: "\<And>k. lookup_in (mem_sources db') k = lookup_in (mem_sources db) k"
    and sub: "\<And>m. m \<in> set (mem_sources db') \<Longrightarrow> m = Map.empty \<or> m \<in> set (mem_sources db)"
  shows "db_inv db' fs' kv"
proof -
  have lv: "levels_ok db fs" and rel0: "reliable fs" and new: "newest (sources db fs)"
    and sqs: "seqs_below (db_sequence_number db) (sources db fs)" and rep: "represents db fs kv"
    and disj: "\<forall>level \<in> set (drop 1 (db_levels db)). disjoint_level level"
    using inv unfolding db_inv_def by blast+
  have sst: "content fs' (info_path (db_path db) info) = content fs (info_path (db_path db) info)" for info
    using same by (simp add: same_data_def info_path_def)
  have ss: "sst_sources db' fs' = sst_sources db fs"
    using rel0 rel lv eqs(3) sst by (rule sst_sources_cong)
  have src: "lookup_in (sources db' fs') k = lookup_in (sources db fs) k" for k
    by (simp add: sources_def lookup_in_append ss look)
  have sub': "m = Map.empty \<or> m \<in> set (sources db fs)" if "m \<in> set (sources db' fs')" for m
    using that sub by (auto simp: sources_def ss)
  have "levels_ok db' fs'" using lv eqs(3,1,2,4) sst by (rule levels_ok_cong)
  moreover have "newest (sources db' fs')"
    using new sub' unfolding newest_def src by fastforce
  moreover have "seqs_below (db_sequence_number db') (sources db' fs')"
    using sqs sub' eqs(5) unfolding seqs_below_def by fastforce
  moreover have "represents db' fs' kv"
    using rep entry_stands_same [OF same] by (simp add: represents_def src eqs)
  ultimately show ?thesis
    using rel mem logs disj by (simp add: db_inv_def eqs)
qed

lemma Writer_Sync_open_on:
  assumes "reliable fs" and "open_on w p" and "content fs p \<noteq> None"
  obtains w' fs' where "Writer_Sync w fs = (Status_OK, w', fs')" and "open_on w' p" and "reliable fs'"
    and "content fs' = content fs"
proof -
  from assms(3) obtain c where c: "content fs p = Some c" by auto
  show ?thesis
    by (rule that [of "fst (snd (Writer_Sync w fs))" "snd (snd (Writer_Sync w fs))"])
      (use assms c in \<open>auto simp: open_on_def reliable_io file_bytes_Some\<close>)
qed

lemma sync_logs_refines:
  assumes inv: "db_inv db fs kv"
  obtains db' fs' where "sync_logs db fs = (db', fs')" and "db_inv db' fs' kv"
    and "db_wal_id db' = db_wal_id db" and "log_run K (db, fs) (db', fs')"
proof -
  let ?wp = "WALFilePath (db_path db) (db_wal_id db)"
  have rel: "reliable fs" and vl: "vl_ok (db_vlog db) fs" "vl_db_path (db_vlog db) = db_path db"
      "vl_options (db_vlog db) = db_options db" "vlogs_clean fs (db_path db)"
    and wal: "wal_open (db_wal db) ?wp" "wal_db_path (db_wal db) = db_path db" "content fs ?wp \<noteq> None"
    and mem: "mem_ok db"
    using inv unfolding db_inv_def logs_ok_def by blast+
  from wal(1) obtain w where w: "wal_writer (db_wal db) = Some w" "open_on w ?wp"
    by (auto simp: wal_open_def)
  obtain w1 fs1 where s1: "Writer_Sync w fs = (Status_OK, w1, fs1)" "open_on w1 ?wp" "reliable fs1"
    "content fs1 = content fs"
    using rel w(2) wal(3) by (rule Writer_Sync_open_on)
  let ?vp = "VLogFilePath (db_vlog db) (vl_current_file_id (db_vlog db))"
  from vl(1) obtain v where v: "vl_writer (db_vlog db) = Some v" "open_on v ?vp" "content fs ?vp \<noteq> None"
    by (auto simp: vl_ok_def)
  then have v3: "content fs1 ?vp \<noteq> None" by (simp add: s1(4))
  obtain v2 fs2 where s2: "Writer_Sync v fs1 = (Status_OK, v2, fs2)" "open_on v2 ?vp" "reliable fs2"
    "content fs2 = content fs1"
    using s1(3) v(2) v3 by (rule Writer_Sync_open_on)
  let ?db = "db\<lparr>db_wal := (db_wal db)\<lparr>wal_writer := Some w1\<rparr>,
      db_vlog := (db_vlog db)\<lparr>vl_writer := Some v2\<rparr>\<rparr>"
  have sy: "sync_logs db fs = (?db, fs2)"
    using w(1) v(1) s1(1) s2(1) by (simp add: sync_logs_def WAL_Sync_def VLog_Sync_def)
  have "vl_ok ((db_vlog db)\<lparr>vl_writer := Some v2\<rparr>) fs2"
    using vl(1) s2(2) s1(4) s2(4) by (auto simp: vl_ok_def VLogFilePath_def readers_ok_def)
  then have logs: "logs_ok ?db fs2"
    using vl wal s1(2,4) s2(4) vlogs_clean_cong [of fs2 "db_path db" fs] by (simp add: logs_ok_def wal_open_def)
  have "db_inv ?db fs2 kv"
    by (rule db_inv_frame [OF inv s2(3)])
      (use mem logs s1(4) s2(4) in \<open>simp_all add: same_data_def mem_ok_def mem_sources_def\<close>)
  moreover have "log_run K (db, fs) (?db, fs2)"
  proof (rule log_idle)
    show "lookup_in (sources ?db fs2) k = lookup_in (sources db fs) k" for k
      using sst_sources_cong [OF rel s2(3), of db ?db] inv s1(4) s2(4)
      by (simp add: sources_def mem_sources_def db_inv_def)
  qed (use s1(4) s2(4) in \<open>simp_all add: same_tables_def\<close>)
  ultimately show ?thesis using sy by (intro that [of ?db fs2]) simp_all
qed

lemma WAL_Create_reliable:
  assumes "reliable fs" and "wal_open wal p" and "content fs p \<noteq> None"
  obtains wal' fs' where "WAL_Create i wal fs = (Status_OK, wal', fs')" and "reliable fs'"
    and "wal_open wal' (WALFilePath (wal_db_path wal) i)" and "wal_db_path wal' = wal_db_path wal"
    and "content fs' = (content fs)(WALFilePath (wal_db_path wal) i \<mapsto> [])"
proof -
  from assms(3) obtain c where c: "content fs p = Some c" by auto
  then have upd: "(content fs)(p \<mapsto> c, q \<mapsto> []) = (content fs)(q \<mapsto> [])" for q by (metis fun_upd_triv)
  let ?r = "WAL_Create i wal fs"
  show ?thesis
    by (rule that [of "fst (snd ?r)" "snd (snd ?r)"])
      (use assms c upd in \<open>auto simp: WAL_Create_def wal_open_def open_on_def reliable_io Writer_Open_def
        Let_def file_bytes_Some\<close>)
qed

lemma MaybeScheduleFlush_refines:
  assumes inv: "db_inv db fs kv"
  obtains db' fs' where "MaybeScheduleFlush db fs = (Status_OK, db', fs')" and "db_inv db' fs' kv"
    and "db_wal_id db + 1 \<noteq> 0 \<longrightarrow> log_run K (db, fs) (db', fs')"
    and "db_wal_id db' = db_wal_id db \<or> db_wal_id db' = db_wal_id db + 1"
proof (cases "ShouldFlush (db_memtable db)")
  case False
  then show ?thesis using inv that by (simp add: MaybeScheduleFlush_def)
next
  case True
  let ?wp = "WALFilePath (db_path db) (db_wal_id db)" and ?i = "db_wal_id db + 1"
  have rel: "reliable fs" and vl: "vl_ok (db_vlog db) fs" "vl_db_path (db_vlog db) = db_path db"
      "vl_options (db_vlog db) = db_options db" "vlogs_clean fs (db_path db)"
    and wal: "wal_open (db_wal db) ?wp" "wal_db_path (db_wal db) = db_path db" "content fs ?wp \<noteq> None"
    and mem: "mem_ok db"
    using inv unfolding db_inv_def logs_ok_def by blast+
  obtain wal' fs' where cr: "WAL_Create ?i (db_wal db) fs = (Status_OK, wal', fs')" and rel': "reliable fs'"
    and wo: "wal_open wal' (WALFilePath (wal_db_path (db_wal db)) ?i)"
    and wd: "wal_db_path wal' = wal_db_path (db_wal db)"
    and con: "content fs' = (content fs)(WALFilePath (wal_db_path (db_wal db)) ?i \<mapsto> [])"
    using rel wal(1,3) by (rule WAL_Create_reliable)
  let ?db = "db\<lparr>db_immutables := db_immutables db @ [db_memtable db],
      db_memtable := MemTable_new (memtable_size_limit (db_options db)), db_wal_id := ?i, db_wal := wal'\<rparr>"
  have same: "same_data (db_path db) fs fs'" using con wal(2) by (simp add: same_data_def)
  have logs: "logs_ok ?db fs'"
    using vl wal(2) wo wd con vl_ok_same [of "db_vlog db" fs fs'] same vlogs_clean_cong [of fs' "db_path db" fs]
    by (simp add: logs_ok_def)
  have "db_inv ?db fs' kv"
  proof (rule db_inv_frame [OF inv rel' same])
    show "lookup_in (mem_sources ?db) k = lookup_in (mem_sources db) k" for k
      by (simp add: mem_sources_def lookup_in_Cons)
    show "m \<in> set (mem_sources ?db) \<Longrightarrow> m = Map.empty \<or> m \<in> set (mem_sources db)" for m
      by (auto simp: mem_sources_def)
  qed (use mem logs in \<open>simp_all add: mem_ok_def\<close>)
  moreover have "MaybeScheduleFlush db fs = (Status_OK, ?db, fs')"
    using True cr by (simp add: MaybeScheduleFlush_def Let_def)
  moreover have "log_run K (db, fs) (?db, fs')" if "?i \<noteq> 0"
  proof (intro r_into_rtranclp log_step.rotation ext)
    fix k
    have "sst_sources ?db fs' = sst_sources db fs"
      using sst_sources_cong [OF rel rel', of db ?db] inv same by (simp add: db_inv_def same_data_def info_path_def)
    then show "lookup_in (sources ?db fs') k = lookup_in (sources db fs) k"
      by (simp add: sources_def mem_sources_def lookup_in_Cons)
  qed (use con wal(2) that in \<open>simp_all add: same_tables_def\<close>)
  ultimately show ?thesis by (intro that [of ?db fs']) simp_all
qed

text \<open>A write refines the update of the map.\<close>

lemma Write_entry_wal_id: "Write_entry entry db fs = (s, db', fs') \<Longrightarrow> db_wal_id db' = db_wal_id db"
  by (auto simp: Write_entry_def Let_def split: EntryType.splits prod.splits if_splits)

lemma Write_entries_wal_id: "Write_entries batch db fs = (s, db', fs') \<Longrightarrow> db_wal_id db' = db_wal_id db"
  by (induction batch arbitrary: db fs) (auto split: prod.splits if_splits dest: Write_entry_wal_id)

lemma sync_logs_room: "sync_logs db fs = (db', fs') \<Longrightarrow> room n db' = room n db"
  by (auto simp: sync_logs_def WAL_Sync_def VLog_Sync_def room_def split: option.splits prod.splits)

lemma MaybeScheduleFlush_room: "MaybeScheduleFlush db fs = (s, db', fs') \<Longrightarrow> room n db' = room n db"
  by (auto simp: MaybeScheduleFlush_def room_def Let_def split: prod.splits if_splits)

lemma DB_Write_refines:
  assumes "db_inv db fs kv" and "list_all entry_fits batch" and "room (length batch + n) db"
  obtains db' fs' where "DB_Write wo batch db fs = (Status_OK, db', fs')"
    and "db_inv db' fs' (apply_batch batch kv)" and "room n db'"
    and "db_wal_id db + 1 \<noteq> 0 \<longrightarrow> log_run (batch_key ` set batch) (db, fs) (db', fs')"
    and "db_wal_id db' = db_wal_id db \<or> db_wal_id db' = db_wal_id db + 1"
proof -
  let ?K = "batch_key ` set batch"
  from Write_entries_refines [OF assms] obtain db1 fs1
    where w: "Write_entries batch db fs = (Status_OK, db1, fs1)"
      and i1: "db_inv db1 fs1 (apply_batch batch kv)" and r1: "room n db1"
      and st1: "log_run ?K (db, fs) (db1, fs1)" by auto
  have wid: "db_wal_id db1 = db_wal_id db" using Write_entries_wal_id [OF w] .
  have "\<exists>db2 fs2. (if sync wo then sync_logs db1 fs1 else (db1, fs1)) = (db2, fs2) \<and>
      db_inv db2 fs2 (apply_batch batch kv) \<and> db_wal_id db2 = db_wal_id db \<and> log_run ?K (db1, fs1) (db2, fs2)"
  proof (cases "sync wo")
    case True
    then show ?thesis using wid by (auto intro: sync_logs_refines [OF i1, of ?K])
  qed (use i1 wid in auto)
  then obtain db2 fs2 where s: "(if sync wo then sync_logs db1 fs1 else (db1, fs1)) = (db2, fs2)"
    and i2: "db_inv db2 fs2 (apply_batch batch kv)" and wid2: "db_wal_id db2 = db_wal_id db"
    and st2: "log_run ?K (db1, fs1) (db2, fs2)" by blast
  have r2: "room n db2" using s r1 sync_logs_room [of db1 fs1 db2 fs2 n] by (auto split: if_splits)
  obtain db3 fs3 where m: "MaybeScheduleFlush db2 fs2 = (Status_OK, db3, fs3)"
    "db_inv db3 fs3 (apply_batch batch kv)" "db_wal_id db2 + 1 \<noteq> 0 \<longrightarrow> log_run ?K (db2, fs2) (db3, fs3)"
    "db_wal_id db3 = db_wal_id db2 \<or> db_wal_id db3 = db_wal_id db2 + 1"
    using i2 by (rule MaybeScheduleFlush_refines)
  have "db_wal_id db + 1 \<noteq> 0 \<longrightarrow> log_run ?K (db, fs) (db3, fs3)"
    using st1 st2 m(3) wid2 by (auto intro: log_run_trans)
  with w s r2 m wid2 MaybeScheduleFlush_room [OF m(1), of n] show ?thesis
    by (intro that [of db3 fs3]) (simp_all add: DB_Write_def)
qed

end
