(* ===== verification/Db_Flush.thy ===== *)
theory Db_Flush
  imports Db_Refine
begin

text \<open>
  Flushing the oldest immutable memtable to a level-0 table leaves the sources of the
  state, and with them the map, as they are.
\<close>

lemma SaveManifest_reliable:
  assumes "reliable fs"
  obtains fs' where "SaveManifest db fs = (Status_OK, fs')" and "reliable fs'"
    and "content fs' = (content fs)(ManifestPath (db_path db) @ str ''.tmp'' := None,
      ManifestPath (db_path db) \<mapsto> manifest_text (db_next_sstable_id db) (db_levels db))"
proof -
  let ?r = "SaveManifest db fs"
  have tmp: "ManifestPath (db_path db) \<noteq> ManifestPath (db_path db) @ str ''.tmp''"
    by (simp add: str_def)
  show ?thesis
    by (rule that [of "snd ?r"])
      (use assms tmp in \<open>auto simp: SaveManifest_def Writer_Open_def reliable_io RenameFile_def Let_def
        SequentialFileWriter_new_def fun_eq_iff\<close>)
qed

text \<open>Writing a whole table and opening it again.\<close>

lemma write_table:
  assumes "reliable fs" and "sst_ok opts es"
  obtains sw1 sw2 sw3 fs1 fs2 where
    "SSTableWriter_Open (SSTableWriter_new p opts) fs = (Status_OK, sw1, fs1)"
    and "Add_entries es sw1 fs1 = (Status_OK, sw2)" and "Finish sw2 fs1 = (Status_OK, sw3, fs2)"
    and "reliable fs2" and "content fs2 = (content fs)(p \<mapsto> sst_file opts es)"
    and "SSTableReader_Open p opts fs2 = (Status_OK, Some (sst_reader p opts opts es))"
    and "sw_smallest_key sw3 = fst (hd es)" and "sw_largest_key sw3 = fst (last es)"
proof -
  obtain sw1 fs1 where o: "SSTableWriter_Open (SSTableWriter_new p opts) fs = (Status_OK, sw1, fs1)"
    "sw_has sw1 p opts []" "reliable fs1" "content fs1 = (content fs)(p \<mapsto> [])"
    using assms(1) by (rule SSTableWriter_Open_has)
  have "length (sst_data es) < 2 ^ 63" using assms(2) by (simp add: sst_ok_def sst_file_def Let_def)
  then obtain sw2 where a: "Add_entries es sw1 fs1 = (Status_OK, sw2)" "sw_has sw2 p opts es"
    using Add_entries_has [OF o(3,2), of es] by auto
  have "content fs1 p = Some []" by (simp add: o(4))
  then obtain sw3 fs2 where f: "Finish sw2 fs1 = (Status_OK, sw3, fs2)" "reliable fs2"
    "content fs2 = (content fs1)(p \<mapsto> sst_file opts es)"
    "sw_smallest_key sw3 = sw_smallest_key sw2" "sw_largest_key sw3 = sw_largest_key sw2"
    using Finish_has [OF o(3) a(2)] by metis
  have c: "content fs2 = (content fs)(p \<mapsto> sst_file opts es)" by (simp add: f(3) o(4))
  then have "SSTableReader_Open p opts fs2 = (Status_OK, Some (sst_reader p opts opts es))"
    using f(2) assms(2) by (intro SSTableReader_Open_file) simp_all
  with o a f c show ?thesis
    using assms(2) by (intro that) (simp_all add: sw_has_def sst_ok_def)
qed

lemma sst_reader_path [simp]: "rd_path (sst_reader p ropts opts es) = p"
  by (simp add: sst_reader_def Let_def)

text \<open>What the flush of a memtable that is not empty does.\<close>

lemma FlushMemTable_reliable:
  assumes rel: "reliable fs" and ne: "MemTable_Count mt \<noteq> 0"
    and ok: "sst_ok (db_options db) (GetSortedEntries mt)"
  obtains info fs' where "FlushMemTable mt db fs = (Status_OK,
      db\<lparr>db_next_sstable_id := db_next_sstable_id db + 1,
         db_levels := (db_levels db)[0 := db_levels db ! 0 @ [info]]\<rparr>, fs')"
    and "reliable fs'" and "info_table fs' (db_path db) info (GetSortedEntries mt)"
    and "meta_file_id (info_meta info) = db_next_sstable_id db"
    and "\<forall>q. q \<noteq> SSTableFilePath (db_path db) (db_next_sstable_id db) \<and> q \<noteq> ManifestPath (db_path db) \<and>
      q \<noteq> ManifestPath (db_path db) @ str ''.tmp'' \<longrightarrow> content fs' q = content fs q"
    and "meta_level (info_meta info) = 0"
    and "content fs' (ManifestPath (db_path db)) = Some (manifest_text (db_next_sstable_id db + 1)
      ((db_levels db)[0 := db_levels db ! 0 @ [info]]))"
proof -
  let ?es = "GetSortedEntries mt" and ?id = "db_next_sstable_id db"
  let ?p = "SSTableFilePath (db_path db) ?id"
  obtain sw1 sw2 sw3 fs1 fs2 where
    w: "SSTableWriter_Open (SSTableWriter_new ?p (db_options db)) fs = (Status_OK, sw1, fs1)"
      "Add_entries ?es sw1 fs1 = (Status_OK, sw2)" "Finish sw2 fs1 = (Status_OK, sw3, fs2)"
      "reliable fs2" "content fs2 = (content fs)(?p \<mapsto> sst_file (db_options db) ?es)"
      "SSTableReader_Open ?p (db_options db) fs2 =
        (Status_OK, Some (sst_reader ?p (db_options db) (db_options db) ?es))"
      "sw_smallest_key sw3 = fst (hd ?es)" "sw_largest_key sw3 = fst (last ?es)"
    using rel ok by (rule write_table)
  let ?info = "\<lparr>info_meta = writer_meta ?id 0 sw3,
      info_reader = sst_reader ?p (db_options db) (db_options db) ?es\<rparr>"
  let ?db = "db\<lparr>db_next_sstable_id := ?id + 1, db_levels := (db_levels db)[0 := db_levels db ! 0 @ [?info]]\<rparr>"
  obtain fs3 where m: "SaveManifest ?db fs2 = (Status_OK, fs3)" "reliable fs3"
    "content fs3 = (content fs2)(ManifestPath (db_path ?db) @ str ''.tmp'' := None,
      ManifestPath (db_path ?db) \<mapsto> manifest_text (db_next_sstable_id ?db) (db_levels ?db))"
    using w(4) by (rule SaveManifest_reliable)
  have fl: "FlushMemTable mt db fs = (Status_OK, ?db, fs3)"
    using ne w(1-3,6) m(1) by (simp add: FlushMemTable_def Let_def)
  have "content fs3 ?p = Some (sst_file (db_options db) ?es)" by (simp add: m(3) w(5))
  then have it: "info_table fs3 (db_path db) ?info ?es"
    using ok w(7,8) is_table_reader by (simp add: info_table_def writer_meta_def)
  show ?thesis
    by (rule that [OF fl m(2) it]) (simp_all add: writer_meta_def m(3) w(5))
qed

text \<open>The new table stands before the other tables of a lookup.\<close>

lemma FlushMemTable_tables:
  assumes rel: "reliable fs" and lv: "levels_ok db fs" and mt: "mt_invar mt" and ne: "MemTable_Count mt \<noteq> 0"
    and ok: "sst_ok (db_options db) (GetSortedEntries mt)" and id: "db_next_sstable_id db + 1 \<noteq> 0"
  obtains info db' fs' where "FlushMemTable mt db fs = (Status_OK, db', fs')"
    and "db' = db\<lparr>db_next_sstable_id := db_next_sstable_id db + 1,
         db_levels := (db_levels db)[0 := db_levels db ! 0 @ [info]]\<rparr>"
    and "reliable fs'" and "levels_ok db' fs'" and "sst_sources db' fs' = mt_map mt # sst_sources db fs"
    and "\<forall>q. q \<noteq> SSTableFilePath (db_path db) (db_next_sstable_id db) \<and> q \<noteq> ManifestPath (db_path db) \<and>
      q \<noteq> ManifestPath (db_path db) @ str ''.tmp'' \<longrightarrow> content fs' q = content fs q"
    and "meta_level (info_meta info) = 0"
    and "content fs' (ManifestPath (db_path db)) = Some (manifest_text (db_next_sstable_id db') (db_levels db'))"
proof -
  let ?id = "db_next_sstable_id db"
  obtain info fs' where fl: "FlushMemTable mt db fs = (Status_OK,
      db\<lparr>db_next_sstable_id := ?id + 1, db_levels := (db_levels db)[0 := db_levels db ! 0 @ [info]]\<rparr>, fs')"
    and rel': "reliable fs'" and it: "info_table fs' (db_path db) info (GetSortedEntries mt)"
    and mid: "meta_file_id (info_meta info) = ?id"
    and frame: "\<forall>q. q \<noteq> SSTableFilePath (db_path db) ?id \<and> q \<noteq> ManifestPath (db_path db) \<and>
      q \<noteq> ManifestPath (db_path db) @ str ''.tmp'' \<longrightarrow> content fs' q = content fs q"
    and ml: "meta_level (info_meta info) = 0"
    and man: "content fs' (ManifestPath (db_path db)) = Some (manifest_text (?id + 1)
      ((db_levels db)[0 := db_levels db ! 0 @ [info]]))"
    using rel ne ok by (rule FlushMemTable_reliable)
  let ?db = "db\<lparr>db_next_sstable_id := ?id + 1, db_levels := (db_levels db)[0 := db_levels db ! 0 @ [info]]\<rparr>"
  from lv obtain L0 Ls where L: "db_levels db = L0 # Ls" by (cases "db_levels db") (auto simp: levels_ok_def)
  have old: "content fs' (info_path (db_path db) i) = content fs (info_path (db_path db) i)"
    if "i \<in> set (concat (db_levels db))" for i
  proof -
    have "meta_file_id (info_meta i) < ?id" using lv that unfolding levels_ok_def by blast
    then show ?thesis using frame [rule_format, of "info_path (db_path db) i"] by (auto simp: info_path_def)
  qed
  have io: "info_ok fs' (db_path db) i" if "i \<in> set (concat (db_levels db))" for i
    using lv that info_ok_cong [OF old [OF that]] unfolding levels_ok_def by blast
  have "i < ?id + 1" if "i < ?id \<or> i = ?id" for i
    using that less_Suc_nonzero [OF id] by auto
  then have lv': "levels_ok ?db fs'"
    using lv it io mid L by (auto simp: levels_ok_def info_ok_def dest: bspec)
  have "tmap fs' info = mt_map mt"
    using it mt tmap_table [OF rel'] by (simp add: info_table_def mt_map_entries)
  moreover have "sst_sources db fs' = sst_sources db fs"
    by (rule sst_sources_cong [OF rel rel' lv refl old])
  ultimately have src: "sst_sources ?db fs' = mt_map mt # sst_sources db fs"
    by (simp add: sst_sources_def L)
  show ?thesis
    by (rule that [OF fl refl rel' lv' src frame ml]) (use man in simp)
qed

lemma drop_update_0: "drop 1 (xs[0 := y]) = drop 1 xs"
  by (cases xs) auto

text \<open>A state with the same sources represents the same map.\<close>

lemma db_inv_same_sources:
  assumes inv: "db_inv db fs kv" and rel: "reliable fs'" and src: "sources db' fs' = sources db fs"
    and eqs: "db_path db' = db_path db" "db_sequence_number db' = db_sequence_number db"
    and vlog: "\<And>i. content fs' (vlog_file_path (db_path db) i) = content fs (vlog_file_path (db_path db) i)"
    and new: "mem_ok db'" "levels_ok db' fs'" "logs_ok db' fs'"
      "\<forall>level \<in> set (drop 1 (db_levels db')). disjoint_level level"
  shows "db_inv db' fs' kv"
proof -
  have "entry_stands fs' (db_path db) k e v = entry_stands fs (db_path db) k e v" for k e v
    using vlog by (rule entry_stands_cong)
  then have "represents db' fs' kv"
    using inv by (simp add: db_inv_def represents_def src eqs)
  with assms show ?thesis by (simp add: db_inv_def)
qed

lemma flush_front_refines:
  assumes inv: "db_inv db fs kv" and imm: "db_immutables db = mt # mts"
    and ok: "MemTable_Count mt \<noteq> 0 \<Longrightarrow> sst_ok (db_options db) (GetSortedEntries mt)"
    and id: "db_next_sstable_id db + 1 \<noteq> 0"
  obtains db' fs' where "FlushMemTable mt db fs = (Status_OK, db', fs')"
    and "db_inv (pop_front db') fs' kv" and "tables_moved db fs (pop_front db') fs'"
proof (cases "MemTable_Count mt = 0")
  case True
  have lg: "logs_ok db fs" and mo: "mem_ok db" and rel: "reliable fs"
    using inv unfolding db_inv_def by blast+
  have "mt_invar mt" using mo imm by (simp add: mem_ok_def)
  with True have empty: "mt_map mt = Map.empty" by (simp add: Count_zero_iff)
  have look: "lookup_in (mem_sources (pop_front db)) k = lookup_in (mem_sources db) k" for k
    using empty by (simp add: mem_sources_def pop_front_def imm lookup_in_Cons lookup_in_append
        lookup_in_def first_hit_append split: option.split)
  then have "tables_moved db fs (pop_front db) fs"
    by (simp add: tables_moved_def pop_front_def logs_of_def keeps_or_drops_def sources_def sst_sources_def lookup_in_append)
  moreover have "db_inv (pop_front db) fs kv"
  proof (rule db_inv_frame [OF inv rel])
    show "lookup_in (mem_sources (pop_front db)) k = lookup_in (mem_sources db) k" for k by (rule look)
    show "m \<in> set (mem_sources (pop_front db)) \<Longrightarrow> m = Map.empty \<or> m \<in> set (mem_sources db)" for m
      by (auto simp: mem_sources_def pop_front_def imm)
    show "mem_ok (pop_front db)" using mo by (simp add: mem_ok_def pop_front_def imm)
    show "logs_ok (pop_front db) fs" using lg by (simp add: logs_ok_def pop_front_def)
  qed (simp_all add: same_data_def pop_front_def)
  ultimately show ?thesis using True by (intro that [of db fs]) (simp_all add: FlushMemTable_def)
next
  case False
  have lv: "levels_ok db fs" and lg: "logs_ok db fs" and mo: "mem_ok db" and rel: "reliable fs"
    and dj: "\<forall>level \<in> set (drop 1 (db_levels db)). disjoint_level level"
    using inv unfolding db_inv_def by blast+
  have mt: "mt_invar mt" using mo imm by (simp add: mem_ok_def)
  obtain info db' fs' where fl: "FlushMemTable mt db fs = (Status_OK, db', fs')"
    and db': "db' = db\<lparr>db_next_sstable_id := db_next_sstable_id db + 1,
      db_levels := (db_levels db)[0 := db_levels db ! 0 @ [info]]\<rparr>"
    and rel': "reliable fs'" and lv': "levels_ok db' fs'" and ss: "sst_sources db' fs' = mt_map mt # sst_sources db fs"
    and frame: "\<forall>q. q \<noteq> SSTableFilePath (db_path db) (db_next_sstable_id db) \<and> q \<noteq> ManifestPath (db_path db) \<and>
      q \<noteq> ManifestPath (db_path db) @ str ''.tmp'' \<longrightarrow> content fs' q = content fs q"
    and ml: "meta_level (info_meta info) = 0"
    and man: "content fs' (ManifestPath (db_path db)) = Some (manifest_text (db_next_sstable_id db') (db_levels db'))"
    using rel lv mt False ok [OF False] id by (rule FlushMemTable_tables)
  have src: "sources (pop_front db') fs' = sources db fs"
    using ss by (simp add: sources_def mem_sources_def sst_sources_def pop_front_def imm db')
  have logs: "logs_ok (pop_front db') fs'"
    using lg vl_ok_cong [of fs' "db_vlog db" fs] vlogs_clean_cong [of fs' "db_path db" fs] frame
    by (simp add: logs_ok_def pop_front_def VLogFilePath_def db')
  have "levels_ok (pop_front db') fs'" using lv' by (simp add: levels_ok_def pop_front_def)
  then have "db_inv (pop_front db') fs' kv"
    by (intro db_inv_same_sources [OF inv rel' src])
      (use frame logs mo imm dj in \<open>simp_all add: pop_front_def mem_ok_def drop_update_0 [simplified] db'\<close>)
  moreover have "tables_moved db fs (pop_front db') fs'"
    using frame man src
    using lv levels_numbered_add [OF _ _ ml, of "db_levels db"]
    by (auto simp: tables_moved_def logs_of_def pop_front_def db' keeps_or_drops_same table_file_def manifest_says_def levels_ok_def)
  ultimately show ?thesis by (rule that [OF fl])
qed

end
