(* ===== verification/Merge.thy ===== *)
theory Merge
  imports Db_Flush
begin

text \<open>
  The k-way merge of \<open>CompactLevel\<close> on the lists its iterators stand for: every round
  takes the least key, keeps the entry with the greatest sequence number unless it is a
  deletion that may be dropped, and pops the key from every list.
\<close>

section \<open>One round\<close>

definition pop_key :: "bytes \<Rightarrow> sst_entries \<Rightarrow> sst_entries" where
  "pop_key k es = (case es of [] \<Rightarrow> [] | (k', e) # r \<Rightarrow> if k' = k then r else es)"

definition least_head :: "sst_entries list \<Rightarrow> bytes \<Rightarrow> bool" where
  "least_head ess k \<longleftrightarrow>
     (\<exists>e r. (k, e) # r \<in> set ess) \<and> (\<forall>k' e r. (k', e) # r \<in> set ess \<longrightarrow> k \<le> k')"

definition best_head :: "sst_entries list \<Rightarrow> bytes \<Rightarrow> InternalEntry \<Rightarrow> bool" where
  "best_head ess k e \<longleftrightarrow>
     (\<exists>r. (k, e) # r \<in> set ess) \<and> (\<forall>e' r. (k, e') # r \<in> set ess \<longrightarrow> entry_seq e' \<le> entry_seq e)"

text \<open>The best entry of a key over all lists.\<close>

definition is_best :: "sst_entries list \<Rightarrow> bytes \<Rightarrow> InternalEntry \<Rightarrow> bool" where
  "is_best ess k e \<longleftrightarrow>
     (\<exists>es \<in> set ess. map_of es k = Some e) \<and>
     (\<forall>es \<in> set ess. \<forall>e'. map_of es k = Some e' \<longrightarrow> entry_seq e' \<le> entry_seq e)"

lemma keys_sorted_Cons:
  "keys_sorted ((k, e) # r) \<longleftrightarrow> keys_sorted r \<and> (\<forall>k' \<in> fst ` set r. k < k')"
  by (auto simp: keys_sorted_def)

lemma map_of_head:
  assumes "keys_sorted es" and "least_head ess k" and "es \<in> set ess"
  shows "map_of es k = (case es of [] \<Rightarrow> None | (k', e) # r \<Rightarrow> if k' = k then Some e else None)"
proof (cases es)
  case (Cons ke r)
  obtain k' e where ke: "ke = (k', e)" by force
  have le: "k \<le> k'" using assms(2,3) Cons ke by (auto simp: least_head_def)
  have "map_of r k = None" if "k < k'"
    using assms(1) that Cons ke by (intro map_of_above) (force simp: keys_sorted_Cons)+
  with le Cons ke show ?thesis by auto
qed simp

lemma map_of_pop:
  assumes "keys_sorted es" and "least_head ess k" and "es \<in> set ess"
  shows "map_of (pop_key k es) k' = (if k' = k then None else map_of es k')"
proof (cases es)
  case (Cons ke r)
  obtain k1 e where ke: "ke = (k1, e)" by force
  have "map_of r k1 = None"
    using assms(1) Cons ke by (intro map_of_above) (force simp: keys_sorted_Cons)+
  then show ?thesis
    using map_of_head [OF assms] Cons ke by (auto simp: pop_key_def)
qed (simp add: pop_key_def)

lemma pop_key_keys: "fst ` set (pop_key k es) \<subseteq> fst ` set es"
  by (cases es) (auto simp: pop_key_def split: if_splits)

lemma keys_sorted_pop: "keys_sorted es \<Longrightarrow> keys_sorted (pop_key k es)"
  by (cases es) (auto simp: pop_key_def keys_sorted_Cons split: prod.split)

lemma pop_key_above:
  assumes "keys_sorted es" and "least_head ess k" and "es \<in> set ess" and "k' \<in> fst ` set (pop_key k es)"
  shows "k < k'"
proof -
  have "map_of (pop_key k es) k' \<noteq> None" using assms(4) by (simp add: map_of_eq_None_iff)
  then have "k' \<noteq> k" using map_of_pop [OF assms(1-3), of k'] by auto
  moreover have "k \<le> k'"
  proof (cases es)
    case (Cons ke r)
    obtain k1 e where ke: "ke = (k1, e)" by force
    have "k \<le> k1" using assms(2,3) Cons ke by (auto simp: least_head_def)
    moreover have "k1 \<le> k'"
      using subsetD [OF pop_key_keys assms(4)] assms(1) Cons ke
      by (auto simp: keys_sorted_Cons less_imp_le)
    ultimately show ?thesis by simp
  qed (use assms(4) in \<open>simp add: pop_key_def\<close>)
  ultimately show ?thesis by simp
qed

lemma best_head_is_best:
  assumes "\<forall>es \<in> set ess. keys_sorted es" and "least_head ess k" and "best_head ess k e"
  shows "is_best ess k e"
proof -
  have h: "map_of es k = Some e' \<longleftrightarrow> (\<exists>r. es = (k, e') # r)" if "es \<in> set ess" for es e'
    using map_of_head [OF bspec [OF assms(1) that] assms(2) that]
    by (cases es) (auto split: if_splits)
  then show ?thesis
    using assms(3) unfolding is_best_def best_head_def by metis
qed

lemma is_best_pop:
  assumes "\<forall>es \<in> set ess. keys_sorted es" and "least_head ess k" and "k' \<noteq> k"
  shows "is_best (map (pop_key k) ess) k' e = is_best ess k' e"
proof -
  have "map_of (pop_key k es) k' = map_of es k'" if "es \<in> set ess" for es
    using map_of_pop [OF bspec [OF assms(1) that] assms(2) that] assms(3) by simp
  then show ?thesis by (simp add: is_best_def)
qed

section \<open>The result of a merge\<close>

definition all_keys :: "sst_entries list \<Rightarrow> bytes set" where
  "all_keys ess = (\<Union>es \<in> set ess. fst ` set es)"

definition merge_result ::
  "(bytes \<Rightarrow> InternalEntry \<Rightarrow> bool) \<Rightarrow> sst_entries list \<Rightarrow> sst_entries \<Rightarrow> bool" where
  "merge_result keep ess os \<longleftrightarrow>
     keys_sorted os \<and> (\<forall>(k, e) \<in> set os. is_best ess k e \<and> keep k e) \<and>
     (\<forall>k \<in> all_keys ess - fst ` set os. \<exists>e. is_best ess k e \<and> \<not> keep k e) \<and>
     length (sst_data os) \<le> (\<Sum>es \<leftarrow> ess. length (sst_data es)) \<and>
     length os \<le> (\<Sum>es \<leftarrow> ess. length es)"

lemma merge_result_Nil: "\<forall>es \<in> set ess. es = [] \<Longrightarrow> merge_result keep ess []"
  by (auto simp: merge_result_def keys_sorted_def all_keys_def)

lemma is_best_keys: "is_best ess k e \<Longrightarrow> k \<in> all_keys ess"
  by (auto simp: is_best_def all_keys_def dest!: map_of_SomeD) (force intro: rev_image_eqI)

lemma sum_pop_le:
  assumes "(k, e) # r \<in> set ess"
  shows "length (sst_entry k e) + (\<Sum>es \<leftarrow> map (pop_key k) ess. length (sst_data es)) \<le>
      (\<Sum>es \<leftarrow> ess. length (sst_data es))"
    and "Suc (\<Sum>es \<leftarrow> map (pop_key k) ess. length es) \<le> (\<Sum>es \<leftarrow> ess. length es)"
proof -
  have le: "length (sst_data (pop_key k es)) \<le> length (sst_data es)" "length (pop_key k es) \<le> length es" for es
    by (cases es; auto simp: pop_key_def)+
  have sum_le: "(\<Sum>es \<leftarrow> map (pop_key k) xs. length (sst_data es)) \<le> (\<Sum>es \<leftarrow> xs. length (sst_data es))"
    "(\<Sum>es \<leftarrow> map (pop_key k) xs. length es) \<le> (\<Sum>es \<leftarrow> xs. length es)" for xs
    by (induction xs) (auto intro: add_mono le)
  obtain xs ys where ess: "ess = xs @ ((k, e) # r) # ys" using assms by (meson split_list)
  show "length (sst_entry k e) + (\<Sum>es \<leftarrow> map (pop_key k) ess. length (sst_data es)) \<le>
      (\<Sum>es \<leftarrow> ess. length (sst_data es))"
    using sum_le(1) [of xs] sum_le(1) [of ys] by (simp add: ess pop_key_def)
  show "Suc (\<Sum>es \<leftarrow> map (pop_key k) ess. length es) \<le> (\<Sum>es \<leftarrow> ess. length es)"
    using sum_le(2) [of xs] sum_le(2) [of ys] by (simp add: ess pop_key_def)
qed

lemma merge_result_step:
  assumes sorted: "\<forall>es \<in> set ess. keys_sorted es" and k: "least_head ess k" and e: "best_head ess k e"
    and rest: "merge_result keep (map (pop_key k) ess) os"
  shows "merge_result keep ess ((if keep k e then [(k, e)] else []) @ os)"
proof -
  let ?ess = "map (pop_key k) ess"
  note best = best_head_is_best [OF sorted k e]
  have above: "k < k'" if "k' \<in> all_keys ?ess" for k'
    using that pop_key_above [OF _ k] sorted by (auto simp: all_keys_def)
  have os: "is_best ess k' e' \<and> keep k' e' \<and> k < k'" if "(k', e') \<in> set os" for k' e'
  proof -
    from that rest have "is_best ?ess k' e'" "keep k' e'" by (auto simp: merge_result_def)
    with above [OF is_best_keys] is_best_pop [OF sorted k, of k' e'] show ?thesis by auto
  qed
  obtain r where r: "(k, e) # r \<in> set ess" using e by (auto simp: best_head_def)
  have "keys_sorted ((if keep k e then [(k, e)] else []) @ os)"
    using rest os by (force simp: merge_result_def keys_sorted_Cons)
  moreover have "\<forall>(k', e') \<in> set ((if keep k e then [(k, e)] else []) @ os). is_best ess k' e' \<and> keep k' e'"
    using best os by auto
  moreover have "\<exists>e'. is_best ess k' e' \<and> \<not> keep k' e'"
    if "k' \<in> all_keys ess - fst ` set ((if keep k e then [(k, e)] else []) @ os)" for k'
  proof (cases "k' = k")
    case True
    with that best show ?thesis by (auto split: if_splits)
  next
    case False
    from that obtain es where es: "es \<in> set ess" "k' \<in> fst ` set es" by (auto simp: all_keys_def)
    then have "map_of (pop_key k es) k' \<noteq> None"
      using map_of_pop [OF bspec [OF sorted es(1)] k es(1), of k'] False
      by (simp add: map_of_eq_None_iff)
    then have "k' \<in> all_keys ?ess" using es(1) by (auto simp: all_keys_def map_of_eq_None_iff)
    moreover have "k' \<notin> fst ` set os" using that by (simp add: image_Un)
    ultimately obtain e' where "is_best ?ess k' e'" "\<not> keep k' e'"
      using rest unfolding merge_result_def by blast
    with is_best_pop [OF sorted k False] show ?thesis by auto
  qed
  ultimately show ?thesis
    using rest sum_pop_le [OF r] by (auto simp: merge_result_def)
qed

end
