(* ===== verification/Db_Start.thy ===== *)
theory Db_Start
  imports Merge
begin

text \<open>Opening a database in a directory without files gives the empty map.\<close>

definition options_ok :: "Options \<Rightarrow> bool" where
  "options_ok options \<longleftrightarrow> 0 < max_sstable_levels options \<and> vlog_file_size_limit options < 2 ^ 63"

lemma fs_files_set_content [simp]: "fs_files (set_content p c fs) = AList.update p c (fs_files fs)"
  by (simp add: set_content_def)

lemma vlog_path_child: "vlog_file_path dbp i = dbp @ slash # str ''vlog_'' @ pad5 (show_nat (unat i)) @ str ''.dat''"
  by (simp add: vlog_file_path_def str_def slash_def)

lemma digit_not_slash: "b \<in> set (pad5 (show_nat n)) \<Longrightarrow> b \<noteq> slash"
  by (drule set_pad5) (auto simp: is_digit_def slash_def)

lemma child_name_vlog:
  "child_name dbp (vlog_file_path dbp i) = Some (str ''vlog_'' @ pad5 (show_nat (unat i)) @ str ''.dat'')"
  unfolding vlog_path_child
  by (rule child_name_path) (auto simp: str_def slash_def dest: digit_not_slash [unfolded slash_def])

lemma open_empty:
  assumes "options_ok options"
  obtains db fs where "DB_Open options dbp empty_fs = (Status_OK, Some db, fs)" and "db_inv db fs Map.empty"
    and "db_sequence_number db = 2" and "vl_current_file_id (db_vlog db) = 1" and "db_options db = options"
    and "db_immutables db = []" and "db_next_sstable_id db = 1"
    and "db_memtable db = MemTable_new (memtable_size_limit options)"
    and "db_levels db = replicate (max_sstable_levels options) []" and "db_path db = dbp"
    and "content fs = [vlog_file_path dbp 1 \<mapsto> [], WALFilePath dbp 1 \<mapsto> []]" and "db_wal_id db = 1"
    and "fs_files fs = [(vlog_file_path dbp 1, []), (WALFilePath dbp 1, [])]" and "vl_current_offset (db_vlog db) = 0"
proof -
  define vp where "vp = vlog_file_path dbp 1"
  define wp where "wp = WALFilePath dbp 1"
  define fs1 where "fs1 = set_content vp [] empty_fs"
  define w where "w = SequentialFileWriter_new\<lparr>wr_file := Some \<lparr>file_path = vp, file_buf = []\<rparr>, wr_offset := 0\<rparr>"
  define vl where "vl = (VLog_new dbp options)\<lparr>vl_current_file_id := 1, vl_current_offset := 0, vl_writer := Some w\<rparr>"
  have rel: "reliable empty_fs" "reliable fs1" by (simp_all add: reliable_def empty_fs_def fs1_def set_content_def)
  have con0: "content empty_fs q = None" for q by (simp add: content_def empty_fs_def)
  have con1: "content fs1 = [vp \<mapsto> []]" using con0 by (auto simp: fs1_def)
  have ch0: "GetChildren dbp empty_fs = (Status_OK, [])"
    by (simp add: GetChildren_def empty_fs_def map_filter_def)
  have vo: "VLog_Open (VLog_new dbp options) empty_fs = (Status_OK, vl, fs1)"
    using rel(1) con0 ch0
    by (simp add: VLog_Open_def RecoverFileIds_def VLog_new_def FileExists_def Writer_Open_def
        VLogFilePath_def vl_def w_def fs1_def vp_def Let_def file_bytes_def)
  have ch1: "GetChildren dbp fs1 = (Status_OK, [str ''vlog_'' @ pad5 (show_nat 1) @ str ''.dat''])"
    using rel(2) child_name_vlog [of dbp 1]
    by (simp add: GetChildren_def fs1_def empty_fs_def map_filter_def vp_def)
  have ids: "collect_ids is_wal_name 4 [str ''vlog_'' @ pad5 (show_nat 1) @ str ''.dat''] = Some []"
    by (simp add: is_wal_name_def str_def)
  let ?db0 = "(DBImpl_new options dbp)\<lparr>db_vlog := vl\<rparr>"
  have lm: "LoadManifest ?db0 fs1 = (NotFound (str ''Manifest not found''), ?db0)"
    by (simp add: LoadManifest_def DBImpl_new_def FileExists_def con1 vp_def)
  define fs2 where "fs2 = snd (snd (WAL_Create 1 (WAL_new dbp) fs1))"
  define wal where "wal = fst (snd (WAL_Create 1 (WAL_new dbp) fs1))"
  have wc: "WAL_Create 1 (WAL_new dbp) fs1 = (Status_OK, wal, fs2)" "reliable fs2"
    "wal_open wal wp" "wal_db_path wal = dbp" "content fs2 = [vp \<mapsto> [], wp \<mapsto> []]"
    using rel(2) con1
    by (auto simp: wal_def fs2_def WAL_Create_def WAL_new_def Writer_Open_def wal_open_def open_on_def
        wp_def Let_def)
  let ?db = "?db0\<lparr>db_memtable := MemTable_new (memtable_size_limit options), db_wal := wal,
      db_sequence_number := 2, db_wal_id := 1\<rparr>"
  have op: "DB_Open options dbp empty_fs = (Status_OK, Some ?db, fs2)"
    using vo lm ch1 ids wc(1)
    by (simp add: DB_Open_def DBImpl_Open_def DBImpl_new_def RecoverFromWAL_def CreateDir_def
        Let_def rel)
  have vlok: "vl_ok vl fs2"
    using assms wc(5)
    by (auto simp: vl_ok_def vl_def w_def open_on_def VLogFilePath_def VLog_new_def vp_def wp_def
        readers_ok_def options_ok_def split: if_splits)
  have lv: "db_levels ?db = replicate (max_sstable_levels options) []" by (simp add: DBImpl_new_def)
  have lvls: "levels_ok ?db fs2"
    using assms by (auto simp: levels_ok_def DBImpl_new_def options_ok_def)
  have src: "sources ?db fs2 = [Map.empty]"
    using assms unfolding sources_def mem_sources_def sst_sources_def lv
    by (simp add: DBImpl_new_def options_ok_def)
  have ff: "fs_files fs2 = [(vp, []), (wp, [])]"
    using rel(2) by (simp add: fs2_def WAL_Create_def WAL_new_def Writer_Open_def Let_def fs1_def empty_fs_def vp_def wp_def)
  have "mem_ok ?db" by (simp add: mem_ok_def DBImpl_new_def)
  moreover have "logs_ok ?db fs2"
    using vlok wc(3-5)
    by (simp add: logs_ok_def DBImpl_new_def vl_def VLog_new_def wp_def vlogs_clean_def vp_def exI [of _ "[]"])
  moreover have "newest (sources ?db fs2)" "represents ?db fs2 Map.empty"
    "seqs_below (db_sequence_number ?db) (sources ?db fs2)"
    unfolding src by (simp_all add: newest_def represents_def seqs_below_def src lookup_in_def entry_stands_def)
  moreover have "\<forall>level \<in> set (drop 1 (db_levels ?db)). disjoint_level level"
    unfolding lv by (auto simp: disjoint_level_def)
  ultimately have "db_inv ?db fs2 Map.empty" using lvls wc(2) by (simp add: db_inv_def)
  then show ?thesis by (rule that [OF op]) (simp_all add: DBImpl_new_def vl_def wc(5) vp_def wp_def ff)
qed

lemma options_ok_default: "options_ok (default_Options gc)"
  by (simp add: options_ok_def default_Options_def)

text \<open>A fresh database with the default options, for the examples.\<close>

lemma fresh_db:
  obtains db fs where "DB_Open (default_Options gc) dbp empty_fs = (Status_OK, Some db, fs)"
    and "db_inv db fs Map.empty" and "room 1000000 db" and "db_options db = default_Options gc"
    and "db_immutables db = []" and "db_next_sstable_id db = 1"
  by (rule open_empty [OF options_ok_default, of gc dbp]) (auto simp: room_def intro: that)

text \<open>What one entry of a batch changes in memory, with any faults of the environment.\<close>

lemma Write_entry_effect:
  assumes "Write_entry entry db fs = (s, db', fs')"
  shows "db_immutables db' = db_immutables db" "db_levels db' = db_levels db" "db_path db' = db_path db"
    "db_options db' = db_options db" "db_next_sstable_id db' = db_next_sstable_id db"
    "db_sequence_number db' = db_sequence_number db + 1"
    "\<not> ok s \<Longrightarrow> db_memtable db' = db_memtable db"
    "ok s \<Longrightarrow> \<exists>ptr. db_memtable db' = mem_insert (db_memtable db) (batch_key entry)
       \<lparr>vlog_ptr = ptr, entry_seq = db_sequence_number db,
        entry_type = (case batch_type entry of kPut \<Rightarrow> kValue | kDelete \<Rightarrow> kDeletion)\<rparr>"
  using assms
  by (auto simp: Write_entry_def MemTable_Put_def MemTable_Delete_def Let_def
      split: EntryType.splits prod.splits if_splits)

lemma GetSortedEntries_single: "GetSortedEntries (mem_insert (MemTable_new n) k e) = [(k, e)]"
  by (simp add: GetSortedEntries_def mem_insert_def MemTable_new_def Let_def Insert_def AVLTree_new_def
      iter_collect_begin)

text \<open>A database with a memtable limit of 0 hands every write over to the flush.\<close>

lemma db_with_immutable:
  obtains db fs mt where
    "db_inv db fs [[1] \<mapsto> [2]]" and "db_immutables db = [mt]" and "sst_ok (db_options db) (GetSortedEntries mt)"
    and "db_next_sstable_id db = 1" and "db_options db = (default_Options (\<lambda>_ _. True))\<lparr>memtable_size_limit := 0\<rparr>"
    and "db_levels db = replicate (max_sstable_levels (db_options db)) []"
    and "\<exists>e. GetSortedEntries mt = [([1], e)]"
proof -
  let ?opts = "(default_Options (\<lambda>_ _. True))\<lparr>memtable_size_limit := 0\<rparr>"
  let ?e = "\<lparr>batch_type = kPut, batch_key = [1], batch_value = [2]\<rparr>"
  obtain db fs where o: "DB_Open ?opts (str ''db'') empty_fs = (Status_OK, Some db, fs)" "db_inv db fs Map.empty"
    "db_sequence_number db = 2" "vl_current_file_id (db_vlog db) = 1" "db_options db = ?opts"
    "db_immutables db = []" "db_next_sstable_id db = 1" "db_memtable db = MemTable_new 0"
    "db_levels db = replicate (max_sstable_levels ?opts) []"
    by (rule open_empty [of ?opts "str ''db''"]) (simp_all add: options_ok_def default_Options_def)
  obtain db1 fs1 where w: "Write_entry ?e db fs = (Status_OK, db1, fs1)" "db_inv db1 fs1 [[1] \<mapsto> [2]]"
    by (rule Write_entry_refines [OF o(2), of ?e 0]) (simp_all add: entry_fits_def room_def o)
  note eff = Write_entry_effect [OF w(1)]
  from eff(8) o(8) obtain ie where m: "db_memtable db1 = mem_insert (MemTable_new 0) [1] ie" by auto
  obtain db2 fs2 where r: "MaybeScheduleFlush db1 fs1 = (Status_OK, db2, fs2)" "db_inv db2 fs2 [[1] \<mapsto> [2]]"
    by (rule MaybeScheduleFlush_refines [OF w(2)])
  have lim: "ShouldFlush (db_memtable db1)" by (simp add: m ShouldFlush_def)
  have "db_immutables db2 = [db_memtable db1]" "db_options db2 = ?opts" "db_next_sstable_id db2 = 1"
    "db_levels db2 = replicate (max_sstable_levels ?opts) []"
    using r(1) lim eff(1-5) o by (auto simp: MaybeScheduleFlush_def Let_def split: prod.splits)
  moreover have "sst_ok ?opts [([1], ie)]"
    by (rule sst_ok_small) (use length_EncodeVarint32(2) [of 1] in
      \<open>simp_all add: default_Options_def keys_sorted_def keys_fit_def length_sst_entry\<close>)
  ultimately show ?thesis
    using r(2) by (intro that [of db2 fs2 "db_memtable db1"]) (simp_all add: m GetSortedEntries_single)
qed

end
