(* ===== verification/Gc_Refine.thy ===== *)
theory Gc_Refine
  imports Db_Start
begin

text \<open>
  Garbage collection keeps the map: the scan finds every record of the file the index still points
  to, each is appended anew and the index redirected, and when the file is deleted no lookup
  points into it.
\<close>

section \<open>Changes of the logs only\<close>

lemma db_inv_logs:
  assumes inv: "db_inv db fs kv" and rel: "reliable fs'"
    and sst: "\<And>i. content fs' (SSTableFilePath (db_path db) i) = content fs (SSTableFilePath (db_path db) i)"
    and stands: "\<And>k. entry_stands fs (db_path db) k (lookup_in (sources db fs) k) (kv k) \<Longrightarrow>
      entry_stands fs' (db_path db) k (lookup_in (sources db fs) k) (kv k)"
    and logs: "logs_ok (db\<lparr>db_vlog := vl, db_wal := wal\<rparr>) fs'"
  shows "db_inv (db\<lparr>db_vlog := vl, db_wal := wal\<rparr>) fs' kv"
    and "sources (db\<lparr>db_vlog := vl, db_wal := wal\<rparr>) fs' = sources db fs"
    and "vl_current_file_id (db_vlog db) \<le> vl_current_file_id vl \<Longrightarrow>
      (\<And>q. \<not> vlog_file (db_path db) q \<Longrightarrow> content fs' q = content fs q) \<Longrightarrow>
      log_run K (db, fs) (db\<lparr>db_vlog := vl, db_wal := wal\<rparr>, fs')"
proof -
  let ?db = "db\<lparr>db_vlog := vl, db_wal := wal\<rparr>"
  from inv have mem: "mem_ok db" and lv: "levels_ok db fs" and rel0: "reliable fs"
    and disj: "\<forall>level \<in> set (drop 1 (db_levels db)). disjoint_level level"
    and new: "newest (sources db fs)" and sqs: "seqs_below (db_sequence_number db) (sources db fs)"
    and rep: "represents db fs kv"
    unfolding db_inv_def by blast+
  have "sst_sources ?db fs' = sst_sources db fs"
    by (rule sst_sources_cong [OF rel0 rel lv]) (use sst in \<open>simp_all add: info_path_def\<close>)
  then show src: "sources ?db fs' = sources db fs" by (simp add: sources_def mem_sources_def)
  show "log_run K (db, fs) (?db, fs')"
    if "vl_current_file_id (db_vlog db) \<le> vl_current_file_id vl"
      "\<And>q. \<not> vlog_file (db_path db) q \<Longrightarrow> content fs' q = content fs q"
    by (rule log_idle) (use src that in \<open>simp_all add: same_tables_def\<close>)
  have "levels_ok ?db fs'"
    by (rule levels_ok_cong [OF lv]) (use sst in \<open>simp_all add: info_path_def\<close>)
  moreover have "represents ?db fs' kv"
    using rep stands unfolding represents_def src by simp
  moreover have "mem_ok ?db" using mem by (simp add: mem_ok_def)
  moreover have "\<forall>level \<in> set (drop 1 (db_levels ?db)). disjoint_level level"
    "seqs_below (db_sequence_number ?db) (sources ?db fs')" "newest (sources ?db fs')"
    using disj sqs new unfolding src by simp_all
  ultimately show "db_inv ?db fs' kv"
    unfolding db_inv_def using rel logs by blast
qed

section \<open>The records the scan collects\<close>

fun live_records :: "DBImpl \<Rightarrow> fs \<Rightarrow> u32 \<Rightarrow> nat \<Rightarrow> vrec list \<Rightarrow> (bytes \<times> u64 \<times> u32) list" where
  "live_records db fs i off [] = []"
| "live_records db fs i off ((k, v, t) # rs) =
     (if t = kValue \<and> points_to (find_latest db fs k) i (u64_of off)
      then [(k, u64_of off, u32_of (length v))] else []) @
     live_records db fs i (off + length (vlog_record k v t)) rs"

lemma gc_scan:
  "\<exists>st'. scan_run (gc_callback db fs i) off rs st = (Status_OK, st') \<and>
    gc_records st' = gc_records st @ live_records db fs i off rs"
proof (induction rs arbitrary: off st)
  case (Cons r rs)
  obtain k v t where r: "r = (k, v, t)" by (metis prod_cases3)
  define st1 where "st1 = snd (gc_callback db fs i k v t (u64_of off) st)"
  have st1: "gc_callback db fs i k v t (u64_of off) st = (Status_OK, st1)"
    "gc_records st1 = gc_records st @ (if t = kValue \<and> points_to (find_latest db fs k) i (u64_of off)
      then [(k, u64_of off, u32_of (length v))] else [])"
    by (simp_all add: st1_def gc_callback_def Let_def)
  from Cons.IH [of "off + length (vlog_record k v t)" st1] st1 show ?case
    by (auto simp: r)
qed simp

lemma live_records_sound:
  "(k, p, n) \<in> set (live_records db fs i off rs) \<Longrightarrow>
    \<exists>a v b. rs = a @ (k, v, kValue) # b \<and> p = u64_of (off + length (vlog_log.log_of a)) \<and> n = u32_of (length v)"
proof (induction rs arbitrary: off)
  case (Cons r rs)
  obtain k' v' t' where r: "r = (k', v', t')" by (metis prod_cases3)
  consider "t' = kValue" "k = k'" "p = u64_of off" "n = u32_of (length v')"
    | "(k, p, n) \<in> set (live_records db fs i (off + length (vlog_record k' v' t')) rs)"
    using Cons.prems by (auto simp: r split: if_splits)
  then show ?case
  proof cases
    case 1
    then show ?thesis by (intro exI [of _ "[]"] exI [of _ v'] exI [of _ rs]) (simp add: r)
  next
    case 2
    from Cons.IH [OF this] obtain a v b where "rs = a @ (k, v, kValue) # b"
      "p = u64_of (off + length (vlog_record k' v' t') + length (vlog_log.log_of a))" "n = u32_of (length v)"
      by blast
    then show ?thesis by (intro exI [of _ "r # a"]) (simp add: r add.assoc)
  qed
qed simp

lemma live_records_complete:
  "points_to (find_latest db fs k) i (u64_of (off + length (vlog_log.log_of a))) \<Longrightarrow>
    (k, u64_of (off + length (vlog_log.log_of a)), u32_of (length v)) \<in>
      set (live_records db fs i off (a @ (k, v, kValue) # b))"
proof (induction a arbitrary: off)
  case (Cons r a)
  obtain k' v' t' where r: "r = (k', v', t')" by (metis prod_cases3)
  from Cons.IH [of "off + length (vlog_record k' v' t')"] Cons.prems show ?case
    by (simp add: r add.assoc)
qed simp

lemma length_live_records: "length (live_records db fs i off rs) \<le> length rs"
proof (induction rs arbitrary: off)
  case (Cons r rs)
  obtain k v t where r: "r = (k, v, t)" by (metis prod_cases3)
  from Cons.IH [of "off + length (vlog_record k v t)"] show ?case by (simp add: r)
qed simp

lemma length_log_of_ge: "length rs \<le> length (vlog_log.log_of rs)"
proof (induction rs)
  case (Cons r rs)
  obtain k v t where r: "r = (k, v, t)" by (metis prod_cases3)
  from Cons show ?case by (simp add: r)
qed simp

text \<open>Two records at one place are the same.\<close>

lemma vlog_at_unique:
  assumes "vlog_at fs dbp p k v" and "vlog_at fs dbp p' k v'"
    and "ptr_file_id p = ptr_file_id p'" and "ptr_offset p = ptr_offset p'"
  shows "v = v'"
proof -
  from assms(1) obtain a b where 1: "content fs (vlog_file_path dbp (ptr_file_id p)) = Some (a @ vlog_record k v kValue @ b)"
    "length a = unat (ptr_offset p)" "vlog_valid (k, v, kValue)"
    unfolding vlog_at_def by blast
  from assms(2) obtain a' b' where 2: "content fs (vlog_file_path dbp (ptr_file_id p')) = Some (a' @ vlog_record k v' kValue @ b')"
    "length a' = unat (ptr_offset p')" "vlog_valid (k, v', kValue)"
    unfolding vlog_at_def by blast
  have c: "a @ vlog_record k v kValue @ b = a' @ vlog_record k v' kValue @ b'" and l: "length a = length a'"
    using 1(1,2) 2(1,2) assms(3,4) by simp_all
  have "vlog_record k v kValue @ b = vlog_record k v' kValue @ b'"
    using append_eq_append_conv [OF disjI1, OF l] c by blast
  from arg_cong [OF this, of vlog_decode] have "Some ((k, v, kValue), b) = Some ((k, v', kValue), b')"
    unfolding vlog_decode_record [OF 1(3)] vlog_decode_record [OF 2(3)] .
  then show ?thesis by simp
qed

section \<open>Rewriting one record\<close>

text \<open>No entry a lookup finds is in file \<open>i\<close>, except for the listed records.\<close>

definition only_live :: "DBImpl \<Rightarrow> fs \<Rightarrow> u32 \<Rightarrow> (bytes \<times> u64 \<times> u32) list \<Rightarrow> bool" where
  "only_live db fs i recs \<longleftrightarrow>
     (\<forall>k e. lookup_in (sources db fs) k = Some e \<and> entry_type e = kValue \<and> ptr_file_id (vlog_ptr e) = i \<longrightarrow>
        (\<exists>n. (k, ptr_offset (vlog_ptr e), n) \<in> set recs))"

lemma append_refines:
  assumes inv: "db_inv db fs kv" and ad: "appended k v (db_vlog db) fs ptr vl fs'"
  shows "db_inv (db\<lparr>db_vlog := vl\<rparr>) fs' kv" and "sources (db\<lparr>db_vlog := vl\<rparr>) fs' = sources db fs"
    and "vlog_stored fs' (db_path db) ptr k v"
    and "log_run K (db, fs) (db\<lparr>db_vlog := vl\<rparr>, fs')"
proof -
  from inv have lg: "logs_ok db fs" unfolding db_inv_def by blast
  then have vl: "vl_db_path (db_vlog db) = db_path db" "vl_options (db_vlog db) = db_options db"
    "vlogs_clean fs (db_path db)"
    by (simp_all add: logs_ok_def)
  from ad vl have a: "reliable fs'" "vl_ok vl fs'" "vl_db_path vl = db_path db" "vl_options vl = db_options db"
    "grown fs fs'" "\<And>q. (\<forall>i. q \<noteq> vlog_file_path (db_path db) i) \<Longrightarrow> content fs' q = content fs q"
    "vlog_at fs' (db_path db) ptr k v" "vlog_scan_at fs' (db_path db) ptr k v" "vlogs_clean fs' (db_path db)"
    "vl_current_file_id (db_vlog db) \<le> vl_current_file_id vl"
    unfolding appended_def VLogFilePath_def by auto
  show "vlog_stored fs' (db_path db) ptr k v" using a(7,8) by (simp add: vlog_stored_def)
  have logs: "logs_ok (db\<lparr>db_vlog := vl, db_wal := db_wal db\<rparr>) fs'"
    using lg a(2-4,6,9) by (simp add: logs_ok_def)
  have sst: "content fs' (SSTableFilePath (db_path db) i) = content fs (SSTableFilePath (db_path db) i)" for i
    by (rule a(6)) simp
  from db_inv_logs [OF inv a(1) sst entry_stands_grown [OF a(5)] logs]
  show "db_inv (db\<lparr>db_vlog := vl\<rparr>) fs' kv" "sources (db\<lparr>db_vlog := vl\<rparr>) fs' = sources db fs"
    "log_run K (db, fs) (db\<lparr>db_vlog := vl\<rparr>, fs')" using a(6,10) by (simp_all add: vlog_file_def)
qed

lemma gc_redirect_refines:
  assumes inv: "db_inv db fs kv" and new: "vlog_stored fs (db_path db) ptr k v"
    and old: "vlog_at fs (db_path db) \<lparr>ptr_file_id = i, ptr_offset = p, ptr_value_size = n\<rparr> k v"
    and seq: "db_sequence_number db + 1 \<noteq> 0" and ptr: "ptr_file_id ptr \<noteq> i"
    and live: "only_live db fs i ((k, p, n) # recs)"
  obtains db' fs' where "gc_redirect i k p ptr db fs = (db', fs')" and "db_inv db' fs' kv" and "grown fs fs'"
    and "db_vlog db' = db_vlog db" and "db_path db' = db_path db"
    and "unat (db_sequence_number db') \<le> Suc (unat (db_sequence_number db))" and "only_live db' fs' i recs"
    and "log_run {} (db, fs) (db', fs')" and "db_wal_id db' = db_wal_id db"
proof -
  from inv have rel: "reliable fs" and lv: "levels_ok db fs" and lg: "logs_ok db fs" and rep: "represents db fs kv"
    unfolding db_inv_def by blast+
  have lat: "find_latest db fs k = lookup_in (sources db fs) k" using rel lv by (rule find_latest_sources)
  show ?thesis
  proof (cases "points_to (find_latest db fs k) i p")
    case False
    have "only_live db fs i recs"
      using live False unfolding only_live_def lat points_to_def by (fastforce split: option.splits)
    with inv False show ?thesis by (intro that [of db fs]) (simp_all add: gc_redirect_def)
  next
    case True
    then obtain e where e: "lookup_in (sources db fs) k = Some e" "entry_type e = kValue"
      "ptr_file_id (vlog_ptr e) = i" "ptr_offset (vlog_ptr e) = p"
      by (auto simp: points_to_def lat split: option.splits)
    have "entry_stands fs (db_path db) k (Some e) (kv k)" using rep e(1) unfolding represents_def by metis
    then obtain v' where v': "kv k = Some v'" "vlog_at fs (db_path db) (vlog_ptr e) k v'" and len: "length k + 29 < 2 ^ 32"
      using e(2) by (auto simp: entry_stands_def vlog_stored_def)
    have "v' = v" using vlog_at_unique [OF v'(2) old] e(3,4) by simp
    then have kv: "kv(k := Some v) = kv" using v'(1) by auto
    let ?seq = "db_sequence_number db" and ?wp = "WALFilePath (db_path db) (db_wal_id db)"
    let ?rec = "\<lparr>wal_type = kValue, wal_sequence = ?seq, wal_key = k, wal_vlog_ptr = ptr\<rparr>"
    let ?e = "\<lparr>vlog_ptr = ptr, entry_seq = ?seq, entry_type = kValue\<rparr>"
    have wal: "wal_open (db_wal db) ?wp" using lg by (simp add: logs_ok_def)
    obtain wal' where w: "WAL_AddRecord ?rec (db_wal db) fs =
        (Status_OK, wal', set_content ?wp (file_bytes fs ?wp @ wal_encode ?rec) fs)"
      "wal_open wal' ?wp" "wal_db_path wal' = wal_db_path (db_wal db)"
      using rel wal by (rule WAL_AddRecord_reliable)
    let ?fs' = "set_content ?wp (file_bytes fs ?wp @ wal_encode ?rec) fs"
    let ?db' = "db\<lparr>db_sequence_number := ?seq + 1, db_vlog := db_vlog db, db_wal := wal',
      db_memtable := mem_insert (db_memtable db) k ?e\<rparr>"
    have run: "gc_redirect i k p ptr db fs = (?db', ?fs')"
      using True w(1) by (simp add: gc_redirect_def MemTable_Put_def Let_def)
    have g: "grown fs ?fs'" by (auto simp: grown_def file_bytes_Some)
    have inv': "db_inv ?db' ?fs' (kv(k := Some v))"
    proof (rule insert_step [OF inv _ g _ seq _ len _ refl])
      show "entry_stands ?fs' (db_path db) k (Some ?e) (Some v)"
        using vlog_stored_grown [OF g new] len by (simp add: entry_stands_def)
      show "logs_ok ?db' ?fs'"
        by (rule logs_ok_frame [of wal' db "db_vlog db" fs]) (use w lg in \<open>simp_all add: logs_ok_def\<close>)
    qed (use rel in simp_all)
    have "sst_sources ?db' ?fs' = sst_sources db fs"
      by (rule sst_sources_cong [OF rel _ lv]) (use rel in \<open>simp_all add: info_path_def\<close>)
    then have look: "lookup_in (sources ?db' ?fs') k' = (if k' = k then Some ?e else lookup_in (sources db fs) k')" for k'
      using inv by (simp add: sources_Cons lookup_in_insert mt_map_mem_insert db_inv_def mem_ok_def)
    have "only_live ?db' ?fs' i recs"
      unfolding only_live_def look
    proof (intro allI impI)
      fix k' e' assume e': "(if k' = k then Some ?e else lookup_in (sources db fs) k') = Some e' \<and>
        entry_type e' = kValue \<and> ptr_file_id (vlog_ptr e') = i"
      then have "k' \<noteq> k" using ptr by auto
      with e' live show "\<exists>n. (k', ptr_offset (vlog_ptr e'), n) \<in> set recs" unfolding only_live_def by fastforce
    qed
    moreover have "log_run {} (db, fs) (?db', ?fs')"
      by (rule insert_logs [OF inv _ seq, where vl = "db_vlog db" and wal = wal' and r = ?rec])
        (use rel len e(1) in \<open>simp_all add: logged_def wal_valid_def entry_of_def\<close>)
    ultimately show ?thesis using inv' g
      by (intro that [OF run]) (use unat_Suc_nonzero [OF seq] in \<open>simp_all add: kv\<close>)
  qed
qed

lemma gc_rewrite_one_refines:
  assumes inv: "db_inv db fs kv" and i: "i < vl_current_file_id (db_vlog db)" and room: "room (Suc m) db"
    and old: "vlog_at fs (db_path db) \<lparr>ptr_file_id = i, ptr_offset = p, ptr_value_size = n\<rparr> k v"
    and live: "only_live db fs i ((k, p, n) # recs)"
  obtains db' fs' where "gc_rewrite_one i (k, p, n) db fs = (Status_OK, db', fs')" and "db_inv db' fs' kv"
    and "grown fs fs'" and "db_path db' = db_path db" and "i < vl_current_file_id (db_vlog db')"
    and "room m db'" and "only_live db' fs' i recs" and "log_run {} (db, fs) (db', fs')"
    and "db_wal_id db' = db_wal_id db"
proof -
  let ?old = "\<lparr>ptr_file_id = i, ptr_offset = p, ptr_value_size = n\<rparr>"
  from inv have rel: "reliable fs" and lg: "logs_ok db fs" unfolding db_inv_def by blast+
  then have vl: "vl_ok (db_vlog db) fs" "vl_db_path (db_vlog db) = db_path db" by (simp_all add: logs_ok_def)
  have ro: "readers_ok (db_vlog db)" using vl(1) by (simp add: vl_ok_def)
  obtain vl1 where rd: "VLog_Read ?old (db_vlog db) fs = (Status_OK, Some k, Some v, vl1)" "readers_ok vl1"
    "vl1 = (db_vlog db)\<lparr>vl_readers := vl_readers vl1\<rparr>"
    using VLog_Read_at [OF rel ro, of ?old k v] old vl(2) by auto
  define r where "r = vl_readers vl1"
  have vl1: "vl1 = (db_vlog db)\<lparr>vl_readers := r\<rparr>" using rd(3) by (simp add: r_def)
  have "logs_ok (db\<lparr>db_vlog := vl1, db_wal := db_wal db\<rparr>) fs"
    using lg rd(2) by (auto simp: vl1 logs_ok_def vl_ok_def VLogFilePath_def readers_ok_def)
  from db_inv_logs [OF inv rel refl _ this]
  have inv1: "db_inv (db\<lparr>db_vlog := vl1\<rparr>) fs kv" and src1: "sources (db\<lparr>db_vlog := vl1\<rparr>) fs = sources db fs"
    and st1: "log_run {} (db, fs) (db\<lparr>db_vlog := vl1\<rparr>, fs)"
    by (simp_all add: vl1)
  have ok1: "vl_ok vl1 fs" using inv1 by (simp add: db_inv_def logs_ok_def)
  have valid: "vlog_valid (k, v, kValue)" using old by (simp add: vlog_at_def)
  have fid: "vl_current_file_id vl1 + 1 \<noteq> 0" and seq: "db_sequence_number db + 1 \<noteq> 0"
    using room_Suc [OF room] by (simp_all add: vl1)
  obtain ptr vl2 fs2 where ap: "VLog_Append k v kValue vl1 fs = (Status_OK, Some ptr, vl2, fs2)"
    "appended k v vl1 fs ptr vl2 fs2"
    by (rule VLog_Append_appended [OF rel ok1 valid fid])
  let ?db2 = "db\<lparr>db_vlog := vl2\<rparr>"
  have "appended k v (db_vlog (db\<lparr>db_vlog := vl1\<rparr>)) fs ptr vl2 fs2" using ap(2) by simp
  from append_refines [OF inv1 this]
  have inv2: "db_inv ?db2 fs2 kv" and src2: "sources ?db2 fs2 = sources db fs" and new: "vlog_stored fs2 (db_path db) ptr k v"
    and st2: "log_run {} (db\<lparr>db_vlog := vl1\<rparr>, fs) (?db2, fs2)"
    by (simp_all add: src1)
  have g: "grown fs fs2" and pf: "ptr_file_id ptr = vl_current_file_id vl2"
    and le: "vl_current_file_id (db_vlog db) \<le> vl_current_file_id vl2"
    and su: "unat (vl_current_file_id vl2) \<le> Suc (unat (vl_current_file_id (db_vlog db)))"
    using ap(2) by (simp_all add: appended_def vl1)
  have lt: "i < vl_current_file_id vl2" using i le by simp
  have old2: "vlog_at fs2 (db_path ?db2) ?old k v" using vlog_at_grown [OF g old] by simp
  have live2: "only_live ?db2 fs2 i ((k, p, n) # recs)" using live unfolding only_live_def src2 .
  have new2: "vlog_stored fs2 (db_path ?db2) ptr k v" and seq2: "db_sequence_number ?db2 + 1 \<noteq> 0"
    using new seq by simp_all
  have np: "ptr_file_id ptr \<noteq> i" using pf lt by simp
  obtain db' fs' where rd': "gc_redirect i k p ptr ?db2 fs2 = (db', fs')" "db_inv db' fs' kv" "grown fs2 fs'"
    "db_vlog db' = db_vlog ?db2" "db_path db' = db_path ?db2"
    "unat (db_sequence_number db') \<le> Suc (unat (db_sequence_number ?db2))" "only_live db' fs' i recs"
    "log_run {} (?db2, fs2) (db', fs')" "db_wal_id db' = db_wal_id ?db2"
    by (rule gc_redirect_refines [OF inv2 new2 old2 seq2 np live2])
  have "gc_rewrite_one i (k, p, n) db fs = (Status_OK, db', fs')"
    using rd(1) ap(1) rd'(1) by (simp add: gc_rewrite_one_def)
  moreover have "log_run {} (db, fs) (db', fs')"
    using st1 st2 rd'(8) by (blast intro: log_run_trans)
  ultimately show ?thesis
    by (intro that [of db' fs']) (use rd'(2-7,9) g lt room su in \<open>auto simp: room_def intro: grown_trans\<close>)
qed

lemma gc_rewrite_refines:
  assumes "db_inv db fs kv" and "i < vl_current_file_id (db_vlog db)" and "room (length recs + m) db"
    and "\<forall>(k, p, n) \<in> set recs. \<exists>v. vlog_at fs (db_path db) \<lparr>ptr_file_id = i, ptr_offset = p, ptr_value_size = n\<rparr> k v"
    and "only_live db fs i (recs @ rest)"
  shows "\<exists>db' fs'. gc_rewrite i recs db fs = (Status_OK, db', fs') \<and> db_inv db' fs' kv \<and>
    db_path db' = db_path db \<and> i < vl_current_file_id (db_vlog db') \<and> room m db' \<and> only_live db' fs' i rest \<and>
    log_run {} (db, fs) (db', fs') \<and> db_wal_id db' = db_wal_id db"
  using assms
proof (induction recs arbitrary: db fs)
  case (Cons rec recs)
  obtain k p n where r: "rec = (k, p, n)" by (metis prod_cases3)
  from Cons.prems(4) obtain v where v: "vlog_at fs (db_path db) \<lparr>ptr_file_id = i, ptr_offset = p, ptr_value_size = n\<rparr> k v"
    by (auto simp: r)
  have room: "room (Suc (length recs + m)) db" using Cons.prems(3) by simp
  obtain db1 fs1 where s: "gc_rewrite_one i (k, p, n) db fs = (Status_OK, db1, fs1)" "db_inv db1 fs1 kv"
    "grown fs fs1" "db_path db1 = db_path db" "i < vl_current_file_id (db_vlog db1)"
    "room (length recs + m) db1" "only_live db1 fs1 i (recs @ rest)" "log_run {} (db, fs) (db1, fs1)"
    "db_wal_id db1 = db_wal_id db"
    by (rule gc_rewrite_one_refines [OF Cons.prems(1,2) room v Cons.prems(5) [unfolded r append_Cons]])
  have "\<forall>(k, p, n) \<in> set recs. \<exists>v. vlog_at fs1 (db_path db1) \<lparr>ptr_file_id = i, ptr_offset = p, ptr_value_size = n\<rparr> k v"
    using Cons.prems(4) vlog_at_grown [OF s(3)] s(4) by fastforce
  from Cons.IH [OF s(2,5,6) this s(7)] s(1,4,8,9) show ?case by (auto simp: r intro: log_run_trans)
qed auto

section \<open>Deleting the file\<close>

lemma gc_delete_refines:
  assumes inv: "db_inv db fs kv" and i: "i < vl_current_file_id (db_vlog db)" and live: "only_live db fs i []"
  obtains db' fs' where "gc_delete i db fs = (db', fs')" and "db_inv db' fs' kv"
    and "content fs' = (content fs)(vlog_file_path (db_path db) i := None)"
    and "log_run {} (db, fs) (db', fs')" and "db_wal_id db' = db_wal_id db"
proof -
  let ?wp = "WALFilePath (db_path db) (db_wal_id db)" and ?dead = "vlog_file_path (db_path db) i"
  let ?vp = "VLogFilePath (db_vlog db) (vl_current_file_id (db_vlog db))"
  from inv have rel: "reliable fs" and lg: "logs_ok db fs" unfolding db_inv_def by blast+
  then have vl: "vl_ok (db_vlog db) fs" "vl_db_path (db_vlog db) = db_path db" "vlogs_clean fs (db_path db)"
    and wal: "wal_open (db_wal db) ?wp" "content fs ?wp \<noteq> None"
    by (simp_all add: logs_ok_def)
  from vl(1) obtain v where v: "vl_writer (db_vlog db) = Some v" "open_on v ?vp" "content fs ?vp \<noteq> None"
    by (auto simp: vl_ok_def)
  from wal(1) obtain w where w: "wal_writer (db_wal db) = Some w" "open_on w ?wp" by (auto simp: wal_open_def)
  obtain v1 fs1 where s1: "Writer_Sync v fs = (Status_OK, v1, fs1)" "open_on v1 ?vp" "reliable fs1" "content fs1 = content fs"
    using rel v(2,3) by (rule Writer_Sync_open_on)
  have w3: "content fs1 ?wp \<noteq> None" using wal(2) by (simp add: s1(4))
  obtain w2 fs2 where s2: "Writer_Sync w fs1 = (Status_OK, w2, fs2)" "open_on w2 ?wp" "reliable fs2" "content fs2 = content fs1"
    using s1(3) w(2) w3 by (rule Writer_Sync_open_on)
  define fs3 where "fs3 = snd (DeleteFile ?dead fs2)"
  have con: "content fs3 = (content fs)(?dead := None)" and rel3: "reliable fs3"
    using s2(3,4) s1(4) by (auto simp: fs3_def DeleteFile_def split: option.split)
  let ?vl = "(db_vlog db)\<lparr>vl_writer := Some v1, vl_readers := (vl_readers (db_vlog db))(i := None)\<rparr>"
  let ?wal = "(db_wal db)\<lparr>wal_writer := Some w2\<rparr>"
  have run: "gc_delete i db fs = (db\<lparr>db_vlog := ?vl, db_wal := ?wal\<rparr>, fs3)"
    using v(1) w(1) s1(1) s2(1)
    by (simp add: gc_delete_def VLog_Sync_def WAL_Sync_def RemoveReader_def fs3_def split: prod.split)
  have "vl_ok ?vl fs3"
    using vl(1,2) s1(2) con i by (auto simp: vl_ok_def VLogFilePath_def readers_ok_def)
  moreover have "vlogs_clean fs3 (db_path db)" using vl(3) con by (auto simp: vlogs_clean_def split: if_splits)
  ultimately have logs: "logs_ok (db\<lparr>db_vlog := ?vl, db_wal := ?wal\<rparr>) fs3"
    using lg s2(2) con by (simp add: logs_ok_def wal_open_def)
  have st: "entry_stands fs3 (db_path db) k (lookup_in (sources db fs) k) (kv k)"
    if old: "entry_stands fs (db_path db) k (lookup_in (sources db fs) k) (kv k)" for k
  proof (cases "lookup_in (sources db fs) k")
    case (Some e)
    have "ptr_file_id (vlog_ptr e) \<noteq> i" if "entry_type e = kValue"
      using live Some that by (auto simp: only_live_def)
    with old Some vlog_stored_cong [of fs3 "db_path db" "vlog_ptr e" fs] con show ?thesis
      by (auto simp: entry_stands_def)
  qed (use old in \<open>simp add: entry_stands_def\<close>)
  have sst: "content fs3 (SSTableFilePath (db_path db) j) = content fs (SSTableFilePath (db_path db) j)" for j
    using con by simp
  have "log_run {} (db, fs) (db\<lparr>db_vlog := ?vl, db_wal := ?wal\<rparr>, fs3)"
    by (rule db_inv_logs(3) [OF inv rel3 sst st logs]) (use con in \<open>auto simp: vlog_file_def\<close>)
  with db_inv_logs(1) [OF inv rel3 sst st logs] con show ?thesis by (intro that [OF run]) simp_all
qed

section \<open>The whole collection\<close>

text \<open>Room for as many entries as the files of the value log have bytes.\<close>

definition gc_room :: "DBImpl \<Rightarrow> fs \<Rightarrow> bool" where
  "gc_room db fs \<longleftrightarrow> (\<forall>i c. content fs (vlog_file_path (db_path db) i) = Some c \<longrightarrow> room (length c) db)"

lemma live_records_at:
  assumes c: "content fs (vlog_file_path dbp i) = Some (vlog_log.log_of rs)" and valid: "list_all vlog_valid rs"
    and len: "length (vlog_log.log_of rs) < 2 ^ 64" and rec: "(k, p, n) \<in> set (live_records db fs i 0 rs)"
  shows "\<exists>v. vlog_at fs dbp \<lparr>ptr_file_id = i, ptr_offset = p, ptr_value_size = n\<rparr> k v"
proof -
  from live_records_sound [OF rec] obtain a v b where rs: "rs = a @ (k, v, kValue) # b"
    and p: "p = u64_of (length (vlog_log.log_of a))" and n: "n = u32_of (length v)" by auto
  have la: "length (vlog_log.log_of a) + 13 < 2 ^ 64" using len by (simp add: rs)
  then have "unat p = length (vlog_log.log_of a)" unfolding p by (intro unat_of_nat_64) simp
  then have "vlog_at fs dbp \<lparr>ptr_file_id = i, ptr_offset = p, ptr_value_size = n\<rparr> k v"
    using c valid n la unfolding vlog_at_def rs
    by (intro conjI exI [of _ "vlog_log.log_of a"] exI [of _ "vlog_log.log_of b"]) simp_all
  then show ?thesis ..
qed

lemma scan_clean: "list_all vlog_valid rs \<Longrightarrow> scan_log vlog_decode (vlog_log.log_of rs) = rs"
  using vlog_log.scan_append [of rs "[]"] by (simp add: scan_log.simps [of vlog_decode "[]"] vlog_decode_def)

lemma live_records_all:
  assumes inv: "db_inv db fs kv" and c: "content fs (vlog_file_path (db_path db) i) = Some (vlog_log.log_of rs)"
    and valid: "list_all vlog_valid rs"
  shows "only_live db fs i (live_records db fs i 0 rs)"
  unfolding only_live_def
proof (intro allI impI)
  fix k e assume e: "lookup_in (sources db fs) k = Some e \<and> entry_type e = kValue \<and> ptr_file_id (vlog_ptr e) = i"
  from inv have rel: "reliable fs" and lv: "levels_ok db fs" and rep: "represents db fs kv" unfolding db_inv_def by blast+
  have "entry_stands fs (db_path db) k (Some e) (kv k)" using rep e unfolding represents_def by metis
  then obtain v where v: "vlog_at fs (db_path db) (vlog_ptr e) k v" "vlog_scan_at fs (db_path db) (vlog_ptr e) k v"
    using e by (auto simp: entry_stands_def vlog_stored_def)
  from v(2) obtain a post where a: "list_all vlog_valid a"
    "vlog_log.log_of rs = vlog_log.log_of a @ vlog_record k v kValue @ post"
    "length (vlog_log.log_of a) = unat (ptr_offset (vlog_ptr e))"
    using c e by (auto simp: vlog_scan_at_def)
  have ok: "list_all vlog_valid (a @ [(k, v, kValue)])" using a(1) v(1) by (simp add: vlog_at_def)
  have "rs = scan_log vlog_decode (vlog_log.log_of rs)" by (rule scan_clean [OF valid, symmetric])
  also have "\<dots> = scan_log vlog_decode (vlog_log.log_of (a @ [(k, v, kValue)]) @ post)" by (simp add: a(2))
  also have "\<dots> = (a @ [(k, v, kValue)]) @ scan_log vlog_decode post" by (rule vlog_log.scan_append [OF ok])
  finally obtain b where rs: "rs = a @ (k, v, kValue) # b" by simp
  have off: "u64_of (length (vlog_log.log_of a)) = ptr_offset (vlog_ptr e)" by (simp add: a(3))
  have "points_to (find_latest db fs k) i (u64_of (0 + length (vlog_log.log_of a)))"
    using e off find_latest_sources [OF rel lv] by (simp add: points_to_def)
  from live_records_complete [OF this, of v b]
  show "\<exists>n. (k, ptr_offset (vlog_ptr e), n) \<in> set (live_records db fs i 0 rs)" using off rs by auto
qed

text \<open>The scan of a file finds every record that a lookup still needs.\<close>

lemma gc_scanned:
  assumes inv: "db_inv db fs kv" and Some: "content fs (vlog_file_path (db_path db) i) = Some c" and room: "gc_room db fs"
  obtains st where "NewReader i 0 (gc_callback db fs i) (db_vlog db) fs \<lparr>gc_total = 0, gc_live = 0, gc_records = []\<rparr> = (Status_OK, st)"
    and "only_live db fs i (gc_records st)" and "room (length (gc_records st)) db"
    and "\<forall>(k, p, n) \<in> set (gc_records st). \<exists>v. vlog_at fs (db_path db) \<lparr>ptr_file_id = i, ptr_offset = p, ptr_value_size = n\<rparr> k v"
proof -
  from inv have rel: "reliable fs" and lg: "logs_ok db fs" unfolding db_inv_def by blast+
  then have vp: "vl_db_path (db_vlog db) = db_path db" and cl: "vlogs_clean fs (db_path db)" by (simp_all add: logs_ok_def)
  from cl Some obtain rs where len: "length c < 2 ^ 64" and rs: "list_all vlog_valid rs" "c = vlog_log.log_of rs"
    unfolding vlogs_clean_def by blast
  have scan: "scan_log vlog_decode c = rs" unfolding rs(2) by (rule scan_clean [OF rs(1)])
  let ?st0 = "\<lparr>gc_total = 0, gc_live = 0, gc_records = []\<rparr>"
  obtain st where st: "scan_run (gc_callback db fs i) 0 rs ?st0 = (Status_OK, st)"
    "gc_records st = live_records db fs i 0 rs"
    using gc_scan [of db fs i 0 rs ?st0] by auto
  have nr: "NewReader i 0 (gc_callback db fs i) (db_vlog db) fs ?st0 = (Status_OK, st)"
    using NewReader_scan [OF rel, of "db_vlog db" i c "gc_callback db fs i" ?st0] Some len rs(1) scan vp st(1) by (simp add: VLogFilePath_def)
  have live: "only_live db fs i (gc_records st)"
    unfolding st(2) using live_records_all [OF inv] Some rs by blast
  have at: "\<forall>(k, p, n) \<in> set (gc_records st). \<exists>v. vlog_at fs (db_path db) \<lparr>ptr_file_id = i, ptr_offset = p, ptr_value_size = n\<rparr> k v"
    unfolding st(2) using live_records_at [of fs "db_path db" i rs] Some rs len by blast
  have "length (gc_records st) \<le> length c"
    unfolding st(2) rs(2) using length_live_records length_log_of_ge order_trans by blast
  moreover have "room (length c) db" using room Some by (auto simp: gc_room_def)
  ultimately have "room (length (gc_records st)) db" by (auto simp: room_def)
  from that [OF nr live this at] show ?thesis .
qed

lemma gc_file_refines:
  assumes inv: "db_inv db fs kv" and i: "i < vl_current_file_id (db_vlog db)" and room: "gc_room db fs"
  obtains s db' fs' where "gc_file i db fs = (s, db', fs')" and "db_inv db' fs' kv"
    and "content fs (vlog_file_path (db_path db) i) \<noteq> None \<longrightarrow> s = Status_OK"
    and "log_run {} (db, fs) (db', fs')" and "db_wal_id db' = db_wal_id db"
proof (cases "content fs (vlog_file_path (db_path db) i)")
  case None
  from inv have rel: "reliable fs" and vp: "vl_db_path (db_vlog db) = db_path db" by (auto simp: db_inv_def logs_ok_def)
  have "\<exists>s. gc_file i db fs = (s, db, fs)"
    using None rel vp by (auto simp: gc_file_def NewReader_def Seq_Open_def fopen_rb_def VLogFilePath_def Let_def)
  with inv None show ?thesis by (auto intro: that)
next
  case (Some c)
  obtain st where nr: "NewReader i 0 (gc_callback db fs i) (db_vlog db) fs \<lparr>gc_total = 0, gc_live = 0, gc_records = []\<rparr> = (Status_OK, st)"
    and live: "only_live db fs i (gc_records st)" and rm: "room (length (gc_records st)) db"
    and at: "\<forall>(k, p, n) \<in> set (gc_records st). \<exists>v. vlog_at fs (db_path db) \<lparr>ptr_file_id = i, ptr_offset = p, ptr_value_size = n\<rparr> k v"
    by (rule gc_scanned [OF inv Some room])
  from live rm have live: "only_live db fs i (gc_records st @ [])" and rm: "room (length (gc_records st) + 0) db" by simp_all
  obtain db1 fs1 where w: "gc_rewrite i (gc_records st) db fs = (Status_OK, db1, fs1)" "db_inv db1 fs1 kv"
    "db_path db1 = db_path db" "i < vl_current_file_id (db_vlog db1)" "only_live db1 fs1 i []"
    "log_run {} (db, fs) (db1, fs1)" "db_wal_id db1 = db_wal_id db"
    using gc_rewrite_refines [OF inv i rm at live] by blast
  obtain db2 fs2 where d: "gc_delete i db1 fs1 = (db2, fs2)" "db_inv db2 fs2 kv"
    "content fs2 = (content fs1)(vlog_file_path (db_path db1) i := None)"
    "log_run {} (db1, fs1) (db2, fs2)" "db_wal_id db2 = db_wal_id db1"
    by (rule gc_delete_refines [OF w(2,4,5)])
  have st: "log_run {} (db, fs) (db2, fs2)" using w(6) d(4) by (rule log_run_trans)
  have "gc_file i db fs = (Status_OK, db, fs) \<or> gc_file i db fs = (Status_OK, db2, fs2)"
    using nr w(1) d(1) by (auto simp: gc_file_def)
  with inv d(2,5) w(7) st show ?thesis by (auto intro: that)
qed

text \<open>A rewrite that is broken off keeps the map as well.\<close>

lemma gc_rewrite_prefix:
  assumes inv: "db_inv db fs kv" and room: "gc_room db fs" and i: "i < vl_current_file_id (db_vlog db)"
    and nr: "NewReader i 0 (gc_callback db fs i) (db_vlog db) fs \<lparr>gc_total = 0, gc_live = 0, gc_records = []\<rparr> = (s, st)"
    and Some: "content fs (vlog_file_path (db_path db) i) = Some c"
  obtains db' fs' where "gc_rewrite i (take n (gc_records st)) db fs = (Status_OK, db', fs')" and "db_inv db' fs' kv"
    and "log_run {} (db, fs) (db', fs')"
proof -
  obtain st' where st': "NewReader i 0 (gc_callback db fs i) (db_vlog db) fs \<lparr>gc_total = 0, gc_live = 0, gc_records = []\<rparr> = (Status_OK, st')"
    "only_live db fs i (gc_records st')" "room (length (gc_records st')) db"
    "\<forall>(k, p, n) \<in> set (gc_records st'). \<exists>v. vlog_at fs (db_path db) \<lparr>ptr_file_id = i, ptr_offset = p, ptr_value_size = n\<rparr> k v"
    by (rule gc_scanned [OF inv Some room])
  then have "st' = st" using nr by simp
  with st' have live: "only_live db fs i (take n (gc_records st) @ drop n (gc_records st))"
    and rm: "room (length (take n (gc_records st)) + 0) db"
    and at: "\<forall>(k, p, m) \<in> set (take n (gc_records st)).
      \<exists>v. vlog_at fs (db_path db) \<lparr>ptr_file_id = i, ptr_offset = p, ptr_value_size = m\<rparr> k v"
    by (auto simp: room_def dest: in_set_takeD)
  from gc_rewrite_refines [OF inv i rm at live] show ?thesis using that by blast
qed

lemma RunGC_refines:
  assumes inv: "db_inv db fs kv" and room: "gc_room db fs"
  obtains s db' fs' where "RunGC db fs = (s, db', fs')" and "db_inv db' fs' kv"
    and "log_run {} (db, fs) (db', fs')" and "db_wal_id db' = db_wal_id db"
proof -
  obtain s children where ch: "GetChildren (db_path db) fs = (s, children)" by force
  show ?thesis
  proof (cases "ok s")
    case False
    with ch inv show ?thesis by (intro that [of s db fs]) (simp_all add: RunGC_def)
  next
    case True
    show ?thesis
    proof (cases "collect_ids is_vlog_name 5 children")
      case None
      with ch inv True show ?thesis by (intro that [of stoul_throws db fs]) (simp_all add: RunGC_def)
    next
      case (Some ids)
      let ?f = "find (\<lambda>i. i < vl_current_file_id (db_vlog db)) (sort (map u32_of ids))"
      show ?thesis
      proof (cases ?f)
        case None
        with ch inv True Some show ?thesis by (intro that [of Status_OK db fs]) (simp_all add: RunGC_def)
      next
        case (Some i)
        then have i: "i < vl_current_file_id (db_vlog db)" by (auto simp: find_Some_iff)
        obtain s' db' fs' where "gc_file i db fs = (s', db', fs')" "db_inv db' fs' kv"
          "content fs (vlog_file_path (db_path db) i) \<noteq> None \<longrightarrow> s' = Status_OK"
          "log_run {} (db, fs) (db', fs')" "db_wal_id db' = db_wal_id db"
          by (rule gc_file_refines [OF inv i room])
        with ch True \<open>collect_ids is_vlog_name 5 children = Some ids\<close> Some show ?thesis
          by (intro that [of s' db' fs']) (simp_all add: RunGC_def)
      qed
    qed
  qed
qed

section \<open>Properties\<close>



end
