(* ===== verification/Merge_Loop.thy ===== *)
theory Merge_Loop
  imports Merge
begin

text \<open>
  The merge loop of \<open>CompactLevel\<close>. Its iterators stand for the lists of entries that are still to
  be merged, its output for the tables that are finished and the one that is being written; a run
  of the loop on iterators for the lists \<open>ess\<close> writes a merge of them.
\<close>

section \<open>Iterators\<close>

definition iter_stands :: "fs \<Rightarrow> path set \<Rightarrow> merge_iter \<Rightarrow> sst_entries \<Rightarrow> bool" where
  "iter_stands fs Q ri es \<longleftrightarrow>
     ra_file (rd_file (fst ri)) = Some (rd_path (fst ri)) \<and> rd_path (fst ri) \<in> Q \<and>
     keys_fit es \<and> keys_sorted es \<and> iter_on fs (fst ri) (snd ri) es"

abbreviation iters_stand :: "fs \<Rightarrow> path set \<Rightarrow> merge_iter list \<Rightarrow> sst_entries list \<Rightarrow> bool" where
  "iters_stand fs Q iters ess \<equiv> list_all2 (iter_stands fs Q) iters ess"

lemma iter_stands_valid:
  "iter_stands fs Q ri es \<Longrightarrow> it_valid (snd ri) \<longleftrightarrow> es \<noteq> []"
  by (auto simp: iter_stands_def iter_on_def split: list.splits)

lemma iter_stands_head:
  "iter_stands fs Q ri ((k, e) # es) \<Longrightarrow> it_valid (snd ri) \<and> it_key (snd ri) = k \<and> it_entry (snd ri) = e"
  by (auto simp: iter_stands_def iter_on_def)

lemma iter_stands_cong:
  assumes "\<And>q. q \<in> Q \<Longrightarrow> content fs' q = content fs q" and "iter_stands fs Q ri es"
  shows "iter_stands fs' Q ri es"
proof -
  have "file_bytes fs' (rd_path (fst ri)) = file_bytes fs (rd_path (fst ri))"
    using assms by (simp add: iter_stands_def file_bytes_def)
  then show ?thesis using assms(2) by (simp only: iter_stands_def iter_on_def)
qed

lemma open_iters_stand:
  assumes "reliable fs" and "list_all2 (info_table fs dbp) infos ess"
    and "\<forall>info \<in> set infos. info_path dbp info \<in> Q"
  shows "\<exists>iters. open_iters infos fs = Inr iters \<and> iters_stand fs Q iters ess"
  using assms(2,3)
proof (induction infos ess rule: list_all2_induct)
  case Nil
  then show ?case by simp
next
  case (Cons info infos es ess)
  let ?rd = "info_reader info"
  from Cons.hyps(1) have tab: "is_table fs ?rd es" and path: "rd_path ?rd = info_path dbp info"
    by (simp_all add: info_table_def info_path_def)
  obtain s it where sk: "SeekToFirst ?rd (NewIterator ?rd) fs = (s, it)" "ok s" "iter_on fs ?rd it es"
    using assms(1) tab by (rule SeekToFirst_on)
  have "iter_stands fs Q (?rd, it) es"
    using is_table_data [OF tab] path Cons.prems sk(3) by (auto simp: iter_stands_def)
  with Cons sk show ?case by auto
qed

lemma iter_stands_Next:
  assumes "reliable fs" and "iter_stands fs Q (rd, it) (ke # es)"
  shows "iter_stands fs Q (rd, snd (Iter_Next rd it fs)) es"
proof -
  have fit: "keys_fit es" and srt: "keys_sorted es"
    using assms(2) by (auto simp: iter_stands_def keys_fit_def keys_sorted_def)
  obtain s it' where "Iter_Next rd it fs = (s, it')" "iter_on fs rd it' es"
    by (rule Iter_Next_on [OF assms(1) _ fit]) (use assms(2) in \<open>auto simp: iter_stands_def\<close>)
  with fit srt assms(2) show ?thesis by (simp add: iter_stands_def)
qed

lemma advance_stands:
  assumes "reliable fs" and "iters_stand fs Q iters ess"
  shows "iters_stand fs Q (advance k fs iters) (map (pop_key k) ess)"
  unfolding advance_def list_all2_map1 list_all2_map2
proof (rule list_all2_mono [OF assms(2)])
  fix ri es assume st: "iter_stands fs Q ri es"
  obtain rd it where ri: "ri = (rd, it)" by force
  show "iter_stands fs Q (case ri of (rd, it) \<Rightarrow>
      if it_valid it \<and> it_key it = k then (rd, snd (Iter_Next rd it fs)) else (rd, it)) (pop_key k es)"
  proof (cases es)
    case Nil
    then show ?thesis using st iter_stands_valid [OF st] by (simp add: ri pop_key_def)
  next
    case (Cons ke r)
    then show ?thesis
      using st iter_stands_head [of fs Q ri "fst ke" "snd ke" r] iter_stands_Next [OF assms(1), of Q rd it ke r]
      by (auto simp: ri pop_key_def split: prod.split)
  qed
qed

section \<open>The smallest key and its newest entry\<close>

definition heads :: "sst_entries list \<Rightarrow> (bytes \<times> InternalEntry) list" where
  "heads ess = concat (map (take 1) ess)"

lemma heads_simps [simp]: "heads [] = []" "heads (es # ess) = take 1 es @ heads ess"
  by (simp_all add: heads_def)

lemma mem_heads: "(k, e) \<in> set (heads ess) \<longleftrightarrow> (\<exists>r. (k, e) # r \<in> set ess)"
proof (induction ess)
  case (Cons es ess)
  then show ?case by (cases es) auto
qed simp

lemma fold_min_step:
  "iters_stand fs Q iters ess \<Longrightarrow>
    fold min_step iters acc =
      fold (\<lambda>(k, e) acc. case acc of None \<Rightarrow> Some k | Some m \<Rightarrow> Some (min k m)) (heads ess) acc"
proof (induction iters ess arbitrary: acc rule: list_all2_induct)
  case (Cons ri iters es ess)
  have "min_step ri acc =
      fold (\<lambda>(k, e) acc. case acc of None \<Rightarrow> Some k | Some m \<Rightarrow> Some (min k m)) (take 1 es) acc"
    using iter_stands_valid [OF Cons.hyps(1)] iter_stands_head [of fs Q ri _ _ "tl es"] Cons.hyps(1)
    by (cases es) (auto simp: min_step_def Let_def min_def split: option.split)
  with Cons.IH show ?case by simp
qed simp

definition newer :: "InternalEntry \<Rightarrow> InternalEntry option \<Rightarrow> InternalEntry option" where
  "newer e acc =
     (case acc of None \<Rightarrow> Some e | Some b \<Rightarrow> if entry_seq b < entry_seq e then Some e else Some b)"

lemma newer_Some:
  "\<exists>b. newer e acc = Some b \<and> (b = e \<or> acc = Some b) \<and> entry_seq e \<le> entry_seq b \<and>
    (\<forall>a. acc = Some a \<longrightarrow> entry_seq a \<le> entry_seq b)"
  by (cases acc) (auto simp: newer_def)

lemma fold_winner_step:
  "iters_stand fs Q iters ess \<Longrightarrow>
    fold (winner_step key) iters acc = fold newer (map snd (filter (\<lambda>h. fst h = key) (heads ess))) acc"
proof (induction iters ess arbitrary: acc rule: list_all2_induct)
  case (Cons ri iters es ess)
  have "winner_step key ri acc = fold newer (map snd (filter (\<lambda>h. fst h = key) (take 1 es))) acc"
  proof (cases es)
    case Nil
    then show ?thesis using iter_stands_valid [OF Cons.hyps(1)] by (simp add: winner_step_def Let_def)
  next
    case (Cons h r)
    then have "it_valid (snd ri) \<and> it_key (snd ri) = fst h \<and> it_entry (snd ri) = snd h"
      using Cons.hyps(1) iter_stands_head [of fs Q ri "fst h" "snd h" r] by simp
    then show ?thesis by (cases acc) (simp_all add: Cons winner_step_def newer_def Let_def)
  qed
  with Cons.IH show ?case by simp
qed simp

lemma fold_newer_None: "fold newer es acc = None \<longleftrightarrow> acc = None \<and> es = []"
proof (induction es arbitrary: acc)
  case (Cons e es)
  then show ?case using newer_Some [of e acc] by auto
qed simp

lemma fold_newer:
  "fold newer es acc = Some b \<Longrightarrow> (acc = Some b \<or> b \<in> set es) \<and> (\<forall>e \<in> set es. entry_seq e \<le> entry_seq b) \<and>
    (\<forall>a. acc = Some a \<longrightarrow> entry_seq a \<le> entry_seq b)"
proof (induction es arbitrary: acc)
  case (Cons e es)
  obtain c where c: "newer e acc = Some c" "c = e \<or> acc = Some c" "entry_seq e \<le> entry_seq c"
    "\<forall>a. acc = Some a \<longrightarrow> entry_seq a \<le> entry_seq c"
    using newer_Some [of e acc] by blast
  have b: "Some c = Some b \<or> b \<in> set es" "\<forall>e \<in> set es. entry_seq e \<le> entry_seq b" "entry_seq c \<le> entry_seq b"
    using Cons.IH [of "Some c"] Cons.prems c(1) by auto
  then show ?case using c(2,4) order_trans [OF c(3) b(3)] order_trans [OF _ b(3)] by auto
qed auto

lemma fold_min_heads:
  fixes k :: bytes
  assumes "fold (\<lambda>(k, e) acc. case acc of None \<Rightarrow> Some k | Some m \<Rightarrow> Some (min k m)) hs acc = r"
  shows "r = None \<longleftrightarrow> acc = None \<and> hs = []"
    and "r = Some k \<Longrightarrow> (acc = Some k \<or> k \<in> fst ` set hs) \<and> (\<forall>k' \<in> fst ` set hs. k \<le> k') \<and>
      (\<forall>m. acc = Some m \<longrightarrow> k \<le> m)"
proof -
  show "r = None \<longleftrightarrow> acc = None \<and> hs = []"
    using assms by (induction hs arbitrary: acc) (auto split: option.splits prod.splits)
  show "r = Some k \<Longrightarrow> (acc = Some k \<or> k \<in> fst ` set hs) \<and> (\<forall>k' \<in> fst ` set hs. k \<le> k') \<and>
      (\<forall>m. acc = Some m \<longrightarrow> k \<le> m)"
    using assms
  proof (induction hs arbitrary: acc)
    case (Cons h hs)
    obtain k1 e1 where h: "h = (k1, e1)" by force
    let ?acc = "case acc of None \<Rightarrow> Some k1 | Some m \<Rightarrow> Some (min k1 m)"
    have "(?acc = Some k \<or> k \<in> fst ` set hs) \<and> (\<forall>k' \<in> fst ` set hs. k \<le> k') \<and>
        (\<forall>m. ?acc = Some m \<longrightarrow> k \<le> m)"
      using Cons.IH [of ?acc] Cons.prems h by simp
    then have r: "?acc = Some k \<or> k \<in> fst ` set hs" "\<forall>k' \<in> fst ` set hs. k \<le> k'" "\<And>m. ?acc = Some m \<Longrightarrow> k \<le> m"
      by blast+
    show ?case
    proof (cases acc)
      case None
      with r show ?thesis by (auto simp: h)
    next
      case (Some a)
      have "k = k1 \<or> k = a \<or> k \<in> fst ` set hs" using r(1) Some by (auto simp: min_def split: if_splits)
      moreover have "k \<le> k1" "k \<le> a" using r(3) [of "min k1 a"] Some by simp_all
      ultimately show ?thesis using r(2) Some by (auto simp: h)
    qed
  qed auto
qed

lemma min_key_stands:
  assumes "iters_stand fs Q iters ess"
  shows "min_key iters = None \<Longrightarrow> \<forall>es \<in> set ess. es = []"
    and "min_key iters = Some k \<Longrightarrow> least_head ess k \<and> (\<exists>e. winner k iters = Some e \<and> best_head ess k e)"
proof -
  note mk = fold_min_step [OF assms, of None, folded min_key_def, symmetric]
  note wk = fold_winner_step [OF assms, of _ None, folded winner_def, symmetric]
  show "min_key iters = None \<Longrightarrow> \<forall>es \<in> set ess. es = []"
  proof
    fix es assume n: "min_key iters = None" and es: "es \<in> set ess"
    then show "es = []" using fold_min_heads(1) [OF mk] mem_heads [of "fst (hd es)" "snd (hd es)" ess] by (cases es) auto
  qed
  assume k: "min_key iters = Some k"
  note m = fold_min_heads(2) [OF mk k]
  from m obtain e1 where e1: "(k, e1) \<in> set (heads ess)" by auto
  have least: "least_head ess k"
    unfolding least_head_def using m e1 by (force simp flip: mem_heads)
  let ?hs = "map snd (filter (\<lambda>h. fst h = k) (heads ess))"
  have mem: "x \<in> set ?hs \<longleftrightarrow> (k, x) \<in> set (heads ess)" for x by force
  have "?hs \<noteq> []" using e1 mem [of e1] by (metis empty_iff empty_set)
  then obtain e where e: "winner k iters = Some e"
    using fold_newer_None [of ?hs None] wk [of k] by (cases "winner k iters") auto
  then have "(k, e) \<in> set (heads ess)" "\<And>e'. (k, e') \<in> set (heads ess) \<Longrightarrow> entry_seq e' \<le> entry_seq e"
    using fold_newer [of ?hs None e] wk [of k] by (simp_all add: mem [symmetric] del: set_map set_filter)
  then have "best_head ess k e" unfolding best_head_def mem_heads by blast
  with least e show "least_head ess k \<and> (\<exists>e. winner k iters = Some e \<and> best_head ess k e)" by blast
qed

section \<open>The output\<close>

abbreviation file_id_of :: "SSTableInfo \<Rightarrow> u32" where
  "file_id_of info \<equiv> meta_file_id (info_meta info)"

text \<open>Only table files from a given id on have changed.\<close>

definition frame_from :: "path \<Rightarrow> u32 \<Rightarrow> fs \<Rightarrow> fs \<Rightarrow> bool" where
  "frame_from dbp n fs fs' \<longleftrightarrow>
     (\<forall>q. (\<forall>i \<ge> n. q \<noteq> SSTableFilePath dbp i) \<longrightarrow> content fs' q = content fs q)"

lemma frame_from_refl [simp]: "frame_from dbp n fs fs"
  by (simp add: frame_from_def)

lemma frame_from_trans: "frame_from dbp n a b \<Longrightarrow> frame_from dbp n b c \<Longrightarrow> frame_from dbp n a c"
  by (simp add: frame_from_def)

lemma frame_from_upd:
  "n \<le> i \<Longrightarrow> content fs' = (content fs)(SSTableFilePath dbp i \<mapsto> c) \<Longrightarrow> frame_from dbp n fs fs'"
  by (auto simp: frame_from_def)

text \<open>
  The output of a merge: the finished tables hold the lists \<open>oss\<close>, the table being written has
  been given the entries \<open>cur\<close>, and all their files have been taken from the id \<open>n\<close> on.
\<close>

definition out_stands :: "u32 \<Rightarrow> DBImpl \<Rightarrow> fs \<Rightarrow> merge_out \<Rightarrow> sst_entries list \<Rightarrow> sst_entries \<Rightarrow> bool" where
  "out_stands n db fs mo oss cur \<longleftrightarrow>
     list_all2 (info_table fs (db_path db)) (mo_tables mo) oss \<and>
     distinct (map file_id_of (mo_tables mo)) \<and>
     (\<forall>info \<in> set (mo_tables mo). n \<le> file_id_of info \<and> file_id_of info < db_next_sstable_id db) \<and>
     (case mo_writer mo of
        None \<Rightarrow> cur = []
      | Some (i, sw) \<Rightarrow>
          cur \<noteq> [] \<and> sw_has sw (SSTableFilePath (db_path db) i) (db_options db) cur \<and>
          content fs (SSTableFilePath (db_path db) i) = Some [] \<and>
          n \<le> i \<and> i < db_next_sstable_id db \<and> i \<notin> file_id_of ` set (mo_tables mo))"

lemma tables_other_file:
  assumes "list_all2 (info_table fs dbp) infos ess" and "i \<notin> file_id_of ` set infos"
    and "content fs' = (content fs)(SSTableFilePath dbp i \<mapsto> c)"
  shows "list_all2 (info_table fs' dbp) infos ess"
  using assms(1,2)
proof (induction infos ess rule: list_all2_induct)
  case (Cons info infos es ess)
  have "content fs' (info_path dbp info) = content fs (info_path dbp info)"
    using Cons.prems assms(3) by (auto simp: info_path_def)
  from info_table_cong [OF this] Cons show ?case by auto
qed simp

lemma finish_table_stands:
  assumes rel: "reliable fs" and out: "out_stands n db fs mo oss cur"
    and ok: "cur \<noteq> [] \<Longrightarrow> sst_ok (db_options db) cur"
  obtains mo' fs' where "finish_table lvl mo db fs = (Status_OK, mo', fs')" and "reliable fs'"
    and "out_stands n db fs' mo' (if cur = [] then oss else oss @ [cur]) []" and "mo_writer mo' = None"
    and "frame_from (db_path db) n fs fs'"
proof (cases "mo_writer mo")
  case None
  with out show ?thesis
    by (intro that [of mo fs]) (use rel in \<open>simp_all add: finish_table_def out_stands_def\<close>)
next
  case (Some w)
  obtain i sw where w: "w = (i, sw)" by force
  let ?p = "SSTableFilePath (db_path db) i" and ?o = "db_options db"
  from out Some w have has: "sw_has sw ?p ?o cur" "cur \<noteq> []" "content fs ?p = Some []"
    and i: "n \<le> i" "i < db_next_sstable_id db" "i \<notin> file_id_of ` set (mo_tables mo)"
    and tabs: "list_all2 (info_table fs (db_path db)) (mo_tables mo) oss"
    by (simp_all add: out_stands_def)
  obtain sw' fs' where f: "Finish sw fs = (Status_OK, sw', fs')" "reliable fs'"
    "content fs' = (content fs)(?p \<mapsto> sst_file ?o cur)"
    "sw_smallest_key sw' = sw_smallest_key sw" "sw_largest_key sw' = sw_largest_key sw"
    using Finish_has [OF rel has(1,3)] by metis
  have con: "content fs' ?p = Some (sst_file ?o cur)" by (simp add: f(3))
  have op: "SSTableReader_Open ?p ?o fs' = (Status_OK, Some (sst_reader ?p ?o ?o cur))"
    using f(2) con ok [OF has(2)] by (rule SSTableReader_Open_file)
  let ?info = "\<lparr>info_meta = writer_meta i (int lvl + 1) sw', info_reader = sst_reader ?p ?o ?o cur\<rparr>"
  let ?mo = "mo\<lparr>mo_writer := None, mo_tables := mo_tables mo @ [?info]\<rparr>"
  have "info_table fs' (db_path db) ?info cur"
    using is_table_reader [OF ok [OF has(2)] con] f(4,5) has(1,2)
    by (simp add: info_table_def writer_meta_def sw_has_def)
  then have "out_stands n db fs' ?mo (oss @ [cur]) []"
    using out tables_other_file [OF tabs i(3) f(3)] i
    by (auto simp: out_stands_def writer_meta_def list_all2_appendI)
  then show ?thesis
    using has(2) f(1,2) op
    by (intro that [of ?mo fs']) (auto simp: finish_table_def Some w Let_def intro: frame_from_upd [OF i(1) f(3)])
qed

lemma open_table_stands:
  assumes rel: "reliable fs" and out: "out_stands n db fs mo oss cur"
    and id: "db_next_sstable_id db + 1 \<noteq> 0" "n \<le> db_next_sstable_id db"
  obtains i sw db' fs' where "open_table mo db fs = (Status_OK, (i, sw), db', fs')" and "reliable fs'"
    and "sw_has sw (SSTableFilePath (db_path db) i) (db_options db) cur"
    and "content fs' (SSTableFilePath (db_path db) i) = Some []"
    and "list_all2 (info_table fs' (db_path db)) (mo_tables mo) oss"
    and "n \<le> i" "i < db_next_sstable_id db'" "i \<notin> file_id_of ` set (mo_tables mo)"
    and "frame_from (db_path db) n fs fs'"
    and "db' = db\<lparr>db_next_sstable_id := db_next_sstable_id db'\<rparr>"
    and "db_next_sstable_id db \<le> db_next_sstable_id db'"
    and "unat (db_next_sstable_id db') \<le> Suc (unat (db_next_sstable_id db))"
proof (cases "mo_writer mo")
  case None
  let ?i = "db_next_sstable_id db"
  obtain sw fs' where o: "SSTableWriter_Open (SSTableWriter_new (SSTableFilePath (db_path db) ?i) (db_options db)) fs = (Status_OK, sw, fs')"
    "sw_has sw (SSTableFilePath (db_path db) ?i) (db_options db) []" "reliable fs'"
    "content fs' = (content fs)(SSTableFilePath (db_path db) ?i \<mapsto> [])"
    using rel by (rule SSTableWriter_Open_has)
  have new: "?i \<notin> file_id_of ` set (mo_tables mo)" using out by (force simp: out_stands_def)
  have lt: "?i < ?i + 1" "unat (?i + 1) = Suc (unat ?i)"
    using id(1) less_Suc_nonzero [OF id(1)] unat_Suc_nonzero by auto
  show ?thesis
    by (rule that [of ?i sw "db\<lparr>db_next_sstable_id := ?i + 1\<rparr>" fs'])
      (use None o new id lt out tables_other_file [OF _ new o(4)] frame_from_upd [OF id(2) o(4)] in
        \<open>simp_all add: open_table_def out_stands_def Let_def\<close>)
next
  case (Some w)
  with out rel id show ?thesis
    by (cases w) (auto intro!: that [of _ _ db fs] simp: open_table_def out_stands_def)
qed

lemma sst_ok_data: "sst_ok opts es \<Longrightarrow> length (sst_data es) < 2 ^ 63"
  by (simp add: sst_ok_def sst_file_def Let_def)

lemma emit_stands:
  assumes rel: "reliable fs" and out: "out_stands n db fs mo oss cur"
    and id: "db_next_sstable_id db + 1 \<noteq> 0" "n \<le> db_next_sstable_id db"
    and ok: "sst_ok (db_options db) (cur @ [(k, e)])"
  obtains mo' db' fs' oss' cur' where "emit lvl k e mo db fs = (Status_OK, mo', db', fs')" and "reliable fs'"
    and "out_stands n db' fs' mo' oss' cur'" and "concat oss' @ cur' = concat oss @ cur @ [(k, e)]"
    and "frame_from (db_path db) n fs fs'" and "db' = db\<lparr>db_next_sstable_id := db_next_sstable_id db'\<rparr>"
    and "db_next_sstable_id db \<le> db_next_sstable_id db'"
    and "unat (db_next_sstable_id db') \<le> Suc (unat (db_next_sstable_id db))"
proof -
  obtain i sw db1 fs1 where o: "open_table mo db fs = (Status_OK, (i, sw), db1, fs1)" and rel1: "reliable fs1"
    and has: "sw_has sw (SSTableFilePath (db_path db) i) (db_options db) cur"
    and fl: "content fs1 (SSTableFilePath (db_path db) i) = Some []"
    and tabs: "list_all2 (info_table fs1 (db_path db)) (mo_tables mo) oss"
    and i: "n \<le> i" "i < db_next_sstable_id db1" "i \<notin> file_id_of ` set (mo_tables mo)"
    and fr: "frame_from (db_path db) n fs fs1"
    and db1: "db1 = db\<lparr>db_next_sstable_id := db_next_sstable_id db1\<rparr>"
    and nx: "db_next_sstable_id db \<le> db_next_sstable_id db1"
      "unat (db_next_sstable_id db1) \<le> Suc (unat (db_next_sstable_id db))"
    by (rule open_table_stands [OF rel out id])
  have eqs: "db_path db1 = db_path db" "db_options db1 = db_options db"
    by (subst db1, simp)+
  have "length (sst_data cur) < 2 ^ 63" using sst_ok_data [OF ok] by simp
  then obtain sw1 where a: "SSTableWriter_Add k e sw fs1 = (Status_OK, sw1)"
    "sw_has sw1 (SSTableFilePath (db_path db) i) (db_options db) (cur @ [(k, e)])"
    by (rule SSTableWriter_Add_has [OF rel1 has])
  let ?mo = "mo\<lparr>mo_writer := Some (i, sw1)\<rparr>"
  have out1: "out_stands n db1 fs1 ?mo oss (cur @ [(k, e)])"
    using out a(2) fl tabs i nx(1) order_less_le_trans
    by (fastforce simp: out_stands_def eqs)
  have em: "emit lvl k e mo db fs =
      (if memtable_size_limit (db_options db) \<le> unat (Writer_FileSize sw1)
       then (let (s, mo, fs) = finish_table lvl ?mo db1 fs1 in (s, mo, db1, fs))
       else (Status_OK, ?mo, db1, fs1))"
    by (simp add: emit_def o a(1) eqs Let_def)
  show ?thesis
  proof (cases "memtable_size_limit (db_options db) \<le> unat (Writer_FileSize sw1)")
    case True
    obtain mo2 fs2 where f: "finish_table lvl ?mo db1 fs1 = (Status_OK, mo2, fs2)" "reliable fs2"
      "out_stands n db1 fs2 mo2 (oss @ [cur @ [(k, e)]]) []" "frame_from (db_path db) n fs1 fs2"
      by (rule finish_table_stands [OF rel1 out1, of lvl]) (use ok eqs in auto)
    show ?thesis
      by (rule that [of mo2 db1 fs2 "oss @ [cur @ [(k, e)]]" "[]"])
        (use em True f fr db1 nx frame_from_trans in auto)
  next
    case False
    show ?thesis
      by (rule that [of ?mo db1 fs1 oss "cur @ [(k, e)]"]) (use em False rel1 out1 fr db1 nx in auto)
  qed
qed

section \<open>The loop\<close>

text \<open>
  What has been written and what is still to be merged fits: the written keys are sorted and below
  all the others, and the total size stays far from the limits of the table format.
\<close>

definition fits_with :: "Options \<Rightarrow> sst_entries \<Rightarrow> sst_entries list \<Rightarrow> bool" where
  "fits_with opts os ess \<longleftrightarrow>
     keys_sorted os \<and> keys_fit os \<and> (\<forall>es \<in> set ess. keys_sorted es \<and> keys_fit es) \<and>
     (\<forall>k \<in> fst ` set os. \<forall>k' \<in> all_keys ess. k < k') \<and>
     length (sst_data os) + (\<Sum>es \<leftarrow> ess. length (sst_data es)) < 2 ^ 60 \<and>
     (length os + (\<Sum>es \<leftarrow> ess. length es)) * bloom_bits_per_key opts < 2 ^ 60"

lemma sst_ok_part:
  assumes "fits_with opts (xs @ ys) ess" and "ys \<noteq> []"
  shows "sst_ok opts ys"
proof (rule sst_ok_small [OF assms(2)])
  show "keys_sorted ys" "keys_fit ys" "length (sst_data ys) < 2 ^ 60"
    using assms(1) by (auto simp: fits_with_def keys_sorted_def sorted_wrt_append keys_fit_def)
  have "length ys * bloom_bits_per_key opts \<le> (length (xs @ ys) + (\<Sum>es \<leftarrow> ess. length es)) * bloom_bits_per_key opts"
    by (intro mult_right_mono) simp_all
  also have "\<dots> < 2 ^ 60" using assms(1) by (simp only: fits_with_def)
  finally show "length ys * bloom_bits_per_key opts < 2 ^ 60" .
qed

lemma fits_with_Nil:
  assumes "fits_with opts os ess"
  shows "fits_with opts os []"
proof -
  have "length os * bloom_bits_per_key opts \<le> (length os + (\<Sum>es \<leftarrow> ess. length es)) * bloom_bits_per_key opts"
    by (intro mult_right_mono) simp_all
  also have "\<dots> < 2 ^ 60" using assms by (simp only: fits_with_def)
  finally show ?thesis using assms by (simp add: fits_with_def all_keys_def)
qed

lemma fits_with_step:
  assumes fit: "fits_with opts os ess" and k: "least_head ess k" and e: "(k, e) # r \<in> set ess"
  shows "fits_with opts os (map (pop_key k) ess)" and "fits_with opts (os @ [(k, e)]) (map (pop_key k) ess)"
proof -
  have srt: "\<forall>es \<in> set ess. keys_sorted es \<and> keys_fit es" using fit by (simp add: fits_with_def)
  have pop: "\<forall>es \<in> set (map (pop_key k) ess). keys_sorted es \<and> keys_fit es"
    using srt pop_key_keys [of k] keys_sorted_pop [of _ k] by (fastforce simp: keys_fit_def)
  have sub: "all_keys (map (pop_key k) ess) \<subseteq> all_keys ess"
    unfolding all_keys_def set_map image_image using pop_key_keys [of k] by (blast intro: UN_mono)
  have above: "k < k'" if "k' \<in> all_keys (map (pop_key k) ess)" for k'
    using that pop_key_above [OF _ k] srt by (auto simp: all_keys_def)
  have kin: "k \<in> all_keys ess" using e by (force simp: all_keys_def)
  have kf: "length k < 2 ^ 32" using e srt by (force simp: keys_fit_def)
  note sums = sum_pop_le [OF e]
  have cnt: "(length os + (\<Sum>es \<leftarrow> map (pop_key k) ess. length es)) * bloom_bits_per_key opts < 2 ^ 60"
    "(length (os @ [(k, e)]) + (\<Sum>es \<leftarrow> map (pop_key k) ess. length es)) * bloom_bits_per_key opts < 2 ^ 60"
  proof -
    have "(length os + (\<Sum>es \<leftarrow> ess. length es)) * bloom_bits_per_key opts < 2 ^ 60"
      using fit by (simp only: fits_with_def)
    moreover have "length os + (\<Sum>es \<leftarrow> map (pop_key k) ess. length es) \<le> length os + (\<Sum>es \<leftarrow> ess. length es)"
      "length (os @ [(k, e)]) + (\<Sum>es \<leftarrow> map (pop_key k) ess. length es) \<le> length os + (\<Sum>es \<leftarrow> ess. length es)"
      using sums(2) by simp_all
    ultimately show "(length os + (\<Sum>es \<leftarrow> map (pop_key k) ess. length es)) * bloom_bits_per_key opts < 2 ^ 60"
      "(length (os @ [(k, e)]) + (\<Sum>es \<leftarrow> map (pop_key k) ess. length es)) * bloom_bits_per_key opts < 2 ^ 60"
      using le_less_trans [OF mult_right_mono] by blast+
  qed
  have data: "length (sst_data os) + (\<Sum>es \<leftarrow> map (pop_key k) ess. length (sst_data es)) < 2 ^ 60"
    "length (sst_data (os @ [(k, e)])) + (\<Sum>es \<leftarrow> map (pop_key k) ess. length (sst_data es)) < 2 ^ 60"
    using sums(1) fit by (simp_all add: fits_with_def)
  show "fits_with opts os (map (pop_key k) ess)"
    unfolding fits_with_def using fit [unfolded fits_with_def] pop sub data(1) cnt(1) by blast
  have "keys_sorted (os @ [(k, e)])" "keys_fit (os @ [(k, e)])"
    using fit kin kf by (auto simp: fits_with_def keys_sorted_def sorted_wrt_append keys_fit_def)
  moreover have "\<forall>j \<in> fst ` set (os @ [(k, e)]). \<forall>k' \<in> all_keys (map (pop_key k) ess). j < k'"
  proof -
    have "\<forall>j \<in> fst ` set os. \<forall>k' \<in> all_keys ess. j < k'" using fit unfolding fits_with_def by blast
    with sub above show ?thesis by fastforce
  qed
  ultimately show "fits_with opts (os @ [(k, e)]) (map (pop_key k) ess)"
    unfolding fits_with_def using pop data(2) cnt(2) by blast
qed

definition keeps :: "(bytes \<Rightarrow> bool) \<Rightarrow> bytes \<Rightarrow> InternalEntry \<Rightarrow> bool" where
  "keeps deeper k e \<longleftrightarrow> \<not> (entry_type e = kDeletion \<and> \<not> deeper k)"

text \<open>The database changes its next table id only, and files from \<open>n\<close> on.\<close>

definition out_step :: "u32 \<Rightarrow> DBImpl \<Rightarrow> fs \<Rightarrow> DBImpl \<Rightarrow> fs \<Rightarrow> bool" where
  "out_step n db fs db' fs' \<longleftrightarrow>
     reliable fs' \<and> frame_from (db_path db) n fs fs' \<and>
     db' = db\<lparr>db_next_sstable_id := db_next_sstable_id db'\<rparr> \<and>
     db_next_sstable_id db \<le> db_next_sstable_id db'"

lemma out_step_eqs:
  assumes "out_step n db fs db' fs'"
  shows "db_path db' = db_path db" "db_options db' = db_options db" "db_levels db' = db_levels db"
proof -
  have "db' = db\<lparr>db_next_sstable_id := db_next_sstable_id db'\<rparr>" using assms by (simp only: out_step_def)
  then show "db_path db' = db_path db" "db_options db' = db_options db" "db_levels db' = db_levels db"
    by (metis DBImpl.select_convs(1,2,8) DBImpl.surjective DBImpl.update_convs(9))+
qed

lemma out_step_trans:
  assumes "out_step n a fa b fb" and "out_step n b fb c fc"
  shows "out_step n a fa c fc"
proof -
  have "c = b\<lparr>db_next_sstable_id := db_next_sstable_id c\<rparr>" "b = a\<lparr>db_next_sstable_id := db_next_sstable_id b\<rparr>"
    using assms by (simp_all only: out_step_def)
  then have "c = a\<lparr>db_next_sstable_id := db_next_sstable_id c\<rparr>"
    by (metis (no_types, lifting) DBImpl.surjective DBImpl.update_convs(9))
  with assms out_step_eqs(1) [OF assms(1)] frame_from_trans show ?thesis
    unfolding out_step_def by (metis order_trans)
qed

lemma merge_step_stands:
  assumes rel: "reliable fs" and out: "out_stands n db fs mo oss cur" and n: "n \<le> db_next_sstable_id db"
    and ids: "unat (db_next_sstable_id db) + 1 < 2 ^ 32"
    and fit: "fits_with (db_options db) (concat oss @ cur) ess" and k: "least_head ess k" and r: "(k, e) # r \<in> set ess"
  shows "\<exists>mo1 db1 fs1 oss1 cur1.
    (if b then emit lvl k e mo db fs else (Status_OK, mo, db, fs)) = (Status_OK, mo1, db1, fs1) \<and>
    out_stands n db1 fs1 mo1 oss1 cur1 \<and>
    concat oss1 @ cur1 = concat oss @ cur @ (if b then [(k, e)] else []) \<and> out_step n db fs db1 fs1 \<and>
    unat (db_next_sstable_id db1) \<le> Suc (unat (db_next_sstable_id db))"
proof (cases b)
  case True
  have ok: "sst_ok (db_options db) (cur @ [(k, e)])"
    using fits_with_step(2) [OF fit k r] by (intro sst_ok_part [of _ "concat oss" "cur @ [(k, e)]"]) simp_all
  have id: "db_next_sstable_id db + 1 \<noteq> 0" using ids by (intro plus_one_nonzero) simp
  obtain mo1 db1 fs1 oss1 cur1 where em: "emit lvl k e mo db fs = (Status_OK, mo1, db1, fs1)"
    "reliable fs1" "out_stands n db1 fs1 mo1 oss1 cur1" "concat oss1 @ cur1 = concat oss @ cur @ [(k, e)]"
    "frame_from (db_path db) n fs fs1" "db1 = db\<lparr>db_next_sstable_id := db_next_sstable_id db1\<rparr>"
    "db_next_sstable_id db \<le> db_next_sstable_id db1"
    "unat (db_next_sstable_id db1) \<le> Suc (unat (db_next_sstable_id db))"
    by (rule emit_stands [OF rel out id n ok, of lvl])
  have "out_step n db fs db1 fs1" unfolding out_step_def using em(2,5,6,7) by blast
  then show ?thesis using em(1,3,4,8) True by auto
next
  case False
  with out rel show ?thesis by (auto intro: exI [of _ oss] exI [of _ cur] simp: out_step_def)
qed

lemma merge_loop_stands:
  assumes "reliable fs" and "iters_stand fs Q iters ess" and "out_stands n db fs mo oss cur"
    and "\<forall>q \<in> Q. \<forall>i \<ge> n. q \<noteq> SSTableFilePath (db_path db) i"
    and "n \<le> db_next_sstable_id db" and "unat (db_next_sstable_id db) + (\<Sum>es \<leftarrow> ess. length es) < 2 ^ 32"
    and "fits_with (db_options db) (concat oss @ cur) ess"
    and "\<And>k db' fs'. out_step n db fs db' fs' \<Longrightarrow> exists_deeper lvl k db' fs' = deeper k"
  shows "\<exists>os mo' db' fs' oss' cur'. merge_loop lvl iters mo db fs = (Status_OK, mo', db', fs') \<and>
    merge_result (keeps deeper) ess os \<and> out_stands n db' fs' mo' oss' cur' \<and>
    concat oss' @ cur' = concat oss @ cur @ os \<and> out_step n db fs db' fs' \<and>
    fits_with (db_options db) (concat oss @ cur @ os) [] \<and>
    unat (db_next_sstable_id db') \<le> unat (db_next_sstable_id db) + (\<Sum>es \<leftarrow> ess. length es)"
  using assms
proof (induction "\<Sum>es \<leftarrow> ess. length es" arbitrary: iters ess mo db fs oss cur rule: less_induct)
  case less
  note rel = less.prems(1) and st = less.prems(2) and out = less.prems(3) and Q = less.prems(4)
    and n = less.prems(5) and ids = less.prems(6) and fit = less.prems(7) and deep = less.prems(8)
  show ?case
  proof (cases "min_key iters")
    case None
    then have nil: "\<forall>es \<in> set ess. es = []" by (rule min_key_stands(1) [OF st])
    then have "merge_result (keeps deeper) ess []" by (rule merge_result_Nil)
    moreover have "fits_with (db_options db) (concat oss @ cur) []" using fit by (rule fits_with_Nil)
    moreover have "out_step n db fs db fs" using rel by (simp add: out_step_def)
    ultimately show ?thesis
      using None out by (intro exI [of _ "[]"] exI) (auto simp: merge_loop.simps)
  next
    case (Some k)
    from min_key_stands(2) [OF st Some] obtain e where k: "least_head ess k"
      and e: "winner k iters = Some e" "best_head ess k e" by blast
    from e(2) obtain r where r: "(k, e) # r \<in> set ess" by (auto simp: best_head_def)
    have srt: "\<forall>es \<in> set ess. keys_sorted es" using fit by (simp add: fits_with_def)
    let ?ess = "map (pop_key k) ess"
    have less_sum: "(\<Sum>es \<leftarrow> ?ess. length es) < (\<Sum>es \<leftarrow> ess. length es)" using sum_pop_le(2) [OF r] by simp
    have ex: "exists_deeper lvl k db fs = deeper k" using rel by (intro deep) (simp add: out_step_def)
    have loop: "merge_loop lvl iters mo db fs =
        (let (s, mo, db, fs) = (if keeps deeper k e then emit lvl k e mo db fs else (Status_OK, mo, db, fs))
         in if \<not> ok s then (s, mo, db, fs) else merge_loop lvl (advance k fs iters) mo db fs)"
      by (subst merge_loop.simps) (simp add: Some e(1) ex keeps_def Let_def)
    obtain mo1 db1 fs1 oss1 cur1 where step:
      "(if keeps deeper k e then emit lvl k e mo db fs else (Status_OK, mo, db, fs)) = (Status_OK, mo1, db1, fs1)"
      and out1: "out_stands n db1 fs1 mo1 oss1 cur1"
      and os1: "concat oss1 @ cur1 = concat oss @ cur @ (if keeps deeper k e then [(k, e)] else [])"
      and st1: "out_step n db fs db1 fs1"
      and nx: "unat (db_next_sstable_id db1) \<le> Suc (unat (db_next_sstable_id db))"
      using merge_step_stands [OF rel out n _ fit k r, of "keeps deeper k e" lvl] ids less_sum by auto
    note eqs = out_step_eqs [OF st1]
    have rel1: "reliable fs1" and fr: "frame_from (db_path db) n fs fs1" and nn: "db_next_sstable_id db \<le> db_next_sstable_id db1"
      using st1 by (simp_all add: out_step_def)
    have "content fs1 q = content fs q" if "q \<in> Q" for q
      using Q that fr unfolding frame_from_def by blast
    then have "iters_stand fs1 Q iters ess"
      using st iter_stands_cong [of Q fs1 fs] by (auto elim: list_all2_mono)
    then have adv: "iters_stand fs1 Q (advance k fs1 iters) ?ess" by (rule advance_stands [OF rel1])
    have fit1: "fits_with (db_options db1) (concat oss1 @ cur1) ?ess"
      using fits_with_step [OF fit k r] by (simp add: eqs os1)
    have ids1: "unat (db_next_sstable_id db1) + (\<Sum>es \<leftarrow> ?ess. length es) < 2 ^ 32"
      using ids nx less_sum by linarith
    have Q1: "\<forall>q \<in> Q. \<forall>i \<ge> n. q \<noteq> SSTableFilePath (db_path db1) i" using Q by (simp add: eqs)
    have deep1: "exists_deeper lvl k' db' fs' = deeper k'" if "out_step n db1 fs1 db' fs'" for k' db' fs'
      by (rule deep [OF out_step_trans [OF st1 that]])
    obtain os mo' db' fs' oss' cur' where IH:
      "merge_loop lvl (advance k fs1 iters) mo1 db1 fs1 = (Status_OK, mo', db', fs')"
      "merge_result (keeps deeper) ?ess os" "out_stands n db' fs' mo' oss' cur'"
      "concat oss' @ cur' = concat oss1 @ cur1 @ os" "out_step n db1 fs1 db' fs'"
      "fits_with (db_options db1) (concat oss1 @ cur1 @ os) []"
      "unat (db_next_sstable_id db') \<le> unat (db_next_sstable_id db1) + (\<Sum>es \<leftarrow> ?ess. length es)"
      using less.hyps [OF less_sum rel1 adv out1 Q1 order_trans [OF n nn] ids1 fit1 deep1] by blast
    let ?os = "(if keeps deeper k e then [(k, e)] else []) @ os"
    have os2: "concat oss1 @ cur1 @ os = concat oss @ cur @ ?os"
      using os1 by (metis append.assoc)
    have "merge_result (keeps deeper) ess ?os" by (rule merge_result_step [OF srt k e(2) IH(2)])
    moreover have "merge_loop lvl iters mo db fs = (Status_OK, mo', db', fs')"
      unfolding loop step using IH(1) by simp
    moreover have "unat (db_next_sstable_id db') \<le> unat (db_next_sstable_id db) + (\<Sum>es \<leftarrow> ess. length es)"
      using IH(7) nx less_sum by linarith
    ultimately show ?thesis
      using IH(3-6) out_step_trans [OF st1 IH(5)] unfolding os2 eqs(2) by blast
  qed
qed

end
