(* ===== verification/Compact_Refine.thy ===== *)
theory Compact_Refine
  imports Merge_Loop "HOL-Library.Multiset"
begin

text \<open>
  Compaction keeps the map: the tables that replace the inputs of \<open>CompactLevel\<close> hold the newest
  entry of every key, except for deletions that nothing deeper needs.
\<close>

section \<open>A state whose sources lose superseded entries only\<close>

lemma db_inv_subsources:
  assumes inv: "db_inv db fs kv" and rel: "reliable fs'"
    and look: "\<And>k. lookup_in (sources db' fs') k = lookup_in (sources db fs) k \<or>
      (lookup_in (sources db' fs') k = None \<and>
       (\<exists>e. lookup_in (sources db fs) k = Some e \<and> entry_type e = kDeletion))"
    and sub: "\<And>m k e. m \<in> set (sources db' fs') \<Longrightarrow> m k = Some e \<Longrightarrow> \<exists>m' \<in> set (sources db fs). m' k = Some e"
    and eqs: "db_path db' = db_path db" "db_sequence_number db' = db_sequence_number db"
    and vlog: "\<And>i. content fs' (vlog_file_path (db_path db) i) = content fs (vlog_file_path (db_path db) i)"
    and new: "mem_ok db'" "levels_ok db' fs'" "logs_ok db' fs'"
      "\<forall>level \<in> set (drop 1 (db_levels db')). disjoint_level level"
  shows "db_inv db' fs' kv"
proof -
  have newest: "newest (sources db fs)" and below: "seqs_below (db_sequence_number db) (sources db fs)"
    and repr: "represents db fs kv"
    using inv unfolding db_inv_def by blast+
  have st: "entry_stands fs' (db_path db) k e v = entry_stands fs (db_path db) k e v" for k e v
    using vlog by (rule entry_stands_cong)
  have "newest (sources db' fs')"
    unfolding newest_def
  proof (intro allI impI ballI)
    fix k e m e' assume l: "lookup_in (sources db' fs') k = Some e" and m: "m \<in> set (sources db' fs')" "m k = Some e'"
    have "lookup_in (sources db fs) k = Some e" using l look [of k] by auto
    then show "e' = e \<or> entry_seq e' < entry_seq e"
      using newest sub [OF m] unfolding newest_def by blast
  qed
  moreover have "seqs_below (db_sequence_number db') (sources db' fs')"
    using below sub unfolding seqs_below_def eqs(2) by blast
  moreover have "represents db' fs' kv"
    unfolding represents_def eqs st
  proof
    fix k
    have "entry_stands fs (db_path db) k (lookup_in (sources db fs) k) (kv k)"
      using repr by (simp add: represents_def)
    then show "entry_stands fs (db_path db) k (lookup_in (sources db' fs') k) (kv k)"
      using look [of k] by (auto simp: entry_stands_def)
  qed
  ultimately show ?thesis using rel new by (simp add: db_inv_def)
qed

section \<open>Levels as one list\<close>

definition flat :: "SSTableInfo list list \<Rightarrow> SSTableInfo list" where
  "flat L = (case L of [] \<Rightarrow> [] | X # R \<Rightarrow> rev X @ concat R)"

lemma set_flat [simp]: "set (flat L) = set (concat L)"
  by (cases L) (simp_all add: flat_def)

lemma sst_sources_flat: "db_levels db \<noteq> [] \<Longrightarrow> sst_sources db fs = map (tmap fs) (flat (db_levels db))"
  by (cases "db_levels db") (simp_all add: sst_sources_def flat_def map_concat)

definition in_order :: "SSTableInfo list list \<Rightarrow> SSTableInfo list \<Rightarrow> SSTableInfo list" where
  "in_order P X = (if P = [] then rev X else X)"

lemma set_in_order [simp]: "set (in_order P X) = set X"
  by (simp add: in_order_def)

lemma flat_split: "flat (P @ X # Y # R) = flat P @ in_order P X @ Y @ concat R"
  by (cases P) (simp_all add: flat_def in_order_def)

section \<open>First hits do not depend on the order when there is at most one\<close>

lemma first_hit_eq:
  assumes "x \<in> set xs" and "f x = Some b" and "\<And>y c. y \<in> set xs \<Longrightarrow> f y = Some c \<Longrightarrow> c = b"
  shows "first_hit f xs = Some b"
proof -
  have "first_hit f xs \<noteq> None" using assms(1,2) by (auto simp: first_hit_None_iff)
  then obtain c where c: "first_hit f xs = Some c" by blast
  with first_hit_Some [OF c] assms(3) show ?thesis by auto
qed

lemma first_hit_sub:
  assumes sub: "set xs \<subseteq> set ys" and out: "\<And>y. y \<in> set ys \<Longrightarrow> y \<notin> set xs \<Longrightarrow> f y = None"
    and uniq: "\<And>x y. x \<in> set xs \<Longrightarrow> y \<in> set xs \<Longrightarrow> f x \<noteq> None \<Longrightarrow> f y \<noteq> None \<Longrightarrow> x = y"
  shows "first_hit f ys = first_hit f xs"
proof (cases "first_hit f xs")
  case None
  then have "\<forall>x \<in> set xs. f x = None" by (simp add: first_hit_None_iff)
  with out have "first_hit f ys = None" unfolding first_hit_None_iff by blast
  with None show ?thesis by simp
next
  case (Some b)
  then obtain x where x: "x \<in> set xs" "f x = Some b" using first_hit_Some [OF Some] by blast
  have "c = b" if "y \<in> set ys" "f y = Some c" for y c
  proof -
    have y: "y \<in> set xs" using out that by fastforce
    have "x = y" by (rule uniq [OF x(1) y]) (simp_all add: x(2) that(2))
    with x(2) that(2) show ?thesis by simp
  qed
  with x sub have "first_hit f ys = Some b" by (intro first_hit_eq [of x]) auto
  with Some show ?thesis by simp
qed

section \<open>Key ranges\<close>

abbreviation low :: "SSTableInfo \<Rightarrow> bytes" where "low info \<equiv> meta_smallest_key (info_meta info)"

abbreviation high :: "SSTableInfo \<Rightarrow> bytes" where "high info \<equiv> meta_largest_key (info_meta info)"

lemma key_range_fold:
  "fold (\<lambda>info (s, l). (if low info < s then low info else s, if l < high info then high info else l)) infos (s, l) = (s', l') \<Longrightarrow>
    s' \<le> s \<and> l \<le> l' \<and> (\<forall>info \<in> set infos. s' \<le> low info \<and> high info \<le> l')"
proof (induction infos arbitrary: s l)
  case (Cons i infos)
  let ?s = "if low i < s then low i else s" and ?l = "if l < high i then high i else l"
  from Cons.IH [of ?s ?l] Cons.prems have "s' \<le> ?s" "?l \<le> l'" "\<forall>info \<in> set infos. s' \<le> low info \<and> high info \<le> l'"
    by simp_all
  then show ?case by (auto split: if_splits intro: order_trans less_imp_le)
qed simp

lemma key_range_covers:
  assumes "info \<in> set infos"
  shows "fst (key_range infos) \<le> low info" and "high info \<le> snd (key_range infos)"
proof -
  obtain i r where i: "infos = i # r" using assms by (cases infos) auto
  obtain s l where r: "key_range infos = (s, l)" by force
  then have "fold (\<lambda>info (s, l). (if low info < s then low info else s, if l < high info then high info else l)) r
      (low i, high i) = (s, l)"
    by (simp add: key_range_def i Let_def)
  from key_range_fold [OF this] r assms
  show "fst (key_range infos) \<le> low info" "high info \<le> snd (key_range infos)"
    by (auto simp: i)
qed

lemma disjoint_level_sort:
  assumes "distinct xs" and "\<And>a. a \<in> set xs \<Longrightarrow> low a \<le> high a"
    and "\<And>a b. a \<in> set xs \<Longrightarrow> b \<in> set xs \<Longrightarrow> a \<noteq> b \<Longrightarrow> high a < low b \<or> high b < low a"
  shows "disjoint_level (sort_key low xs)"
proof -
  have "sorted_wrt (\<lambda>a b. low a \<le> low b) (sort_key low xs)"
    using sorted_sort_key [of low xs] by (simp add: sorted_map)
  moreover have "sorted_wrt (\<noteq>) (sort_key low xs)"
    using assms(1) by (auto simp: sorted_wrt_iff_nth_less nth_eq_iff_index_eq)
  ultimately have "sorted_wrt (\<lambda>a b. low a \<le> low b \<and> a \<noteq> b) (sort_key low xs)"
    by (simp add: sorted_wrt_iff_nth_less)
  then show ?thesis
    unfolding disjoint_level_def
  proof (rule sorted_wrt_mono_rel [rotated])
    fix a b assume ab: "a \<in> set (sort_key low xs)" "b \<in> set (sort_key low xs)" "low a \<le> low b \<and> a \<noteq> b"
    then have "low a \<le> low b" "low b \<le> high b" "high a < low b \<or> high b < low a" using assms(2,3) by auto
    then show "high a < low b" by auto
  qed
qed

section \<open>What a merge does to a lookup\<close>

text \<open>
  \<open>A\<close> are the sources above the compacted level and \<open>D\<close> those below the next one. \<open>X\<close> holds the
  tables of the level, \<open>Y\<close> those of the next, of which \<open>nxt\<close> are merged and \<open>rest\<close> stay; \<open>Z\<close>
  is the next level afterwards. \<open>T\<close> and \<open>T'\<close> read a table before and after.
\<close>

definition merged ::
  "(bytes \<rightharpoonup> InternalEntry) list \<Rightarrow> (bytes \<rightharpoonup> InternalEntry) list \<Rightarrow> (SSTableInfo \<Rightarrow> bytes \<rightharpoonup> InternalEntry) \<Rightarrow>
    (SSTableInfo \<Rightarrow> bytes \<rightharpoonup> InternalEntry) \<Rightarrow> SSTableInfo list \<Rightarrow> SSTableInfo list \<Rightarrow> SSTableInfo list \<Rightarrow>
    SSTableInfo list \<Rightarrow> SSTableInfo list \<Rightarrow> sst_entries list \<Rightarrow> sst_entries \<Rightarrow> (bytes \<Rightarrow> bool) \<Rightarrow> bool" where
  "merged A D T T' X nxt rest news Z ess os deeper \<longleftrightarrow>
     list_all2 (\<lambda>i es. T i = map_of es) (X @ nxt) ess \<and> merge_result (keeps deeper) ess os \<and>
     (\<forall>i \<in> set rest. T' i = T i \<and> (\<forall>k \<in> all_keys ess. T i k = None)) \<and>
     (\<forall>i \<in> set rest. \<forall>j \<in> set rest. \<forall>k. T i k \<noteq> None \<and> T j k \<noteq> None \<longrightarrow> i = j) \<and>
     (\<forall>i \<in> set news. \<forall>k e. T' i k = Some e \<longrightarrow> map_of os k = Some e) \<and>
     (\<forall>k e. map_of os k = Some e \<longrightarrow> (\<exists>i \<in> set news. T' i k = Some e)) \<and>
     set Z = set rest \<union> set news \<and> (\<forall>k. \<not> deeper k \<longrightarrow> lookup_in D k = None)"

lemma lookup_in_map: "lookup_in (map T xs) k = first_hit (\<lambda>i. T i k) xs"
  by (simp add: lookup_in_def first_hit_map)

lemma is_best_hit:
  assumes "list_all2 (\<lambda>i es. T i = map_of es) xs ess"
  shows "is_best ess k e \<longleftrightarrow> (\<exists>i \<in> set xs. T i k = Some e) \<and>
    (\<forall>i \<in> set xs. \<forall>e'. T i k = Some e' \<longrightarrow> entry_seq e' \<le> entry_seq e)"
proof -
  have 1: "\<exists>es \<in> set ess. T i = map_of es" if "i \<in> set xs" for i
    using assms that by (auto simp: list_all2_conv_all_nth in_set_conv_nth) (metis nth_mem)
  have 2: "\<exists>i \<in> set xs. T i = map_of es" if "es \<in> set ess" for es
    using assms that by (auto simp: list_all2_conv_all_nth in_set_conv_nth) (metis nth_mem)
  show ?thesis unfolding is_best_def using 1 2 by metis
qed

lemma all_keys_hit:
  assumes "list_all2 (\<lambda>i es. T i = map_of es) xs ess" and "k \<notin> all_keys ess" and "i \<in> set xs"
  shows "T i k = None"
proof -
  obtain es where "es \<in> set ess" "T i = map_of es"
    using assms(1,3) by (auto simp: list_all2_conv_all_nth in_set_conv_nth) (metis nth_mem)
  with assms(2) show ?thesis by (auto simp: all_keys_def map_of_eq_None_iff)
qed

lemma merge_result_cases:
  assumes "merge_result keep ess os"
  obtains e where "map_of os k = Some e" and "is_best ess k e"
  | e where "map_of os k = None" and "is_best ess k e" and "\<not> keep k e"
  | "map_of os k = None" and "k \<notin> all_keys ess"
proof (cases "map_of os k")
  case (Some e)
  then have "(k, e) \<in> set os" by (rule map_of_SomeD)
  with assms Some that(1) show ?thesis by (auto simp: merge_result_def)
next
  case None
  then have "k \<notin> fst ` set os" by (simp add: map_of_eq_None_iff)
  with assms None that(2,3) show ?thesis unfolding merge_result_def by blast
qed

lemma best_is_newest:
  assumes tabs: "list_all2 (\<lambda>i es. T i = map_of es) xs ess"
    and newest: "newest (A @ map T ys @ D)" and A: "lookup_in A k = None"
    and sub: "set xs \<subseteq> set ys" and other: "\<And>i. i \<in> set ys - set xs \<Longrightarrow> T i k = None"
    and best: "is_best ess k e"
  shows "lookup_in (map T ys) k = Some e"
proof -
  from best obtain i where i: "i \<in> set xs" "T i k = Some e" using is_best_hit [OF tabs] by blast
  have "lookup_in (map T ys) k \<noteq> None"
    using i sub by (auto simp: lookup_in_None)
  then obtain e1 where e1: "lookup_in (map T ys) k = Some e1" by blast
  then obtain j where j: "j \<in> set ys" "T j k = Some e1"
    using first_hit_Some [of "\<lambda>i. T i k"] by (auto simp: lookup_in_map)
  have "j \<in> set xs" using j other by fastforce
  with j(2) best have le: "entry_seq e1 \<le> entry_seq e" using is_best_hit [OF tabs] by blast
  have "lookup_in (A @ map T ys @ D) k = Some e1"
    using A e1 by (simp add: lookup_in_append)
  moreover have "T i \<in> set (A @ map T ys @ D)" using i(1) sub by auto
  ultimately have "e = e1 \<or> entry_seq e < entry_seq e1"
    using newest i(2) unfolding newest_def by blast
  with e1 le show ?thesis by auto
qed

lemma merged_lookup:
  assumes m: "merged A D T T' X nxt rest news Z ess os deeper"
    and newest: "newest (A @ map T ys @ D)" and ys: "set ys = set X \<union> set nxt \<union> set rest"
  shows "lookup_in (A @ map T' Z @ D) k = lookup_in (A @ map T ys @ D) k \<or>
    (lookup_in (A @ map T' Z @ D) k = None \<and>
     (\<exists>e. lookup_in (A @ map T ys @ D) k = Some e \<and> entry_type e = kDeletion))"
proof (cases "lookup_in A k")
  case (Some e)
  then show ?thesis by (simp add: lookup_in_append)
next
  case None
  from m have tabs: "list_all2 (\<lambda>i es. T i = map_of es) (X @ nxt) ess"
    and mr: "merge_result (keeps deeper) ess os"
    and rest': "\<And>i. i \<in> set rest \<Longrightarrow> T' i = T i"
    and rest: "\<And>i. i \<in> set rest \<Longrightarrow> k \<in> all_keys ess \<Longrightarrow> T i k = None"
    and uniq: "\<And>i j. i \<in> set rest \<Longrightarrow> j \<in> set rest \<Longrightarrow> T i k \<noteq> None \<Longrightarrow> T j k \<noteq> None \<Longrightarrow> i = j"
    and news: "\<And>i e. i \<in> set news \<Longrightarrow> T' i k = Some e \<Longrightarrow> map_of os k = Some e"
    and hit: "\<And>e. map_of os k = Some e \<Longrightarrow> \<exists>i \<in> set news. T' i k = Some e"
    and Z: "set Z = set rest \<union> set news" and deep: "\<not> deeper k \<Longrightarrow> lookup_in D k = None"
    unfolding merged_def by blast+
  have Zrest: "first_hit (\<lambda>i. T' i k) Z = first_hit (\<lambda>i. T i k) rest" if os: "map_of os k = None"
  proof -
    have "T' i k = None" if "i \<in> set news" for i using news [OF that] os by (cases "T' i k") auto
    then have "first_hit (\<lambda>i. T' i k) Z = first_hit (\<lambda>i. T' i k) rest"
      using Z uniq rest' by (intro first_hit_sub) auto
    also have "\<dots> = first_hit (\<lambda>i. T i k) rest" by (intro first_hit_cong) (simp add: rest')
    finally show ?thesis .
  qed
  have key: "lookup_in (map T ys) k = Some e" if "is_best ess k e" for e
    using ys rest is_best_keys [OF that] by (intro best_is_newest [OF tabs newest None _ _ that]) auto
  show ?thesis
  proof (cases rule: merge_result_cases [OF mr, of k])
    case (1 e)
    from hit [OF 1(1)] obtain i where i: "i \<in> set news" "T' i k = Some e" by blast
    have "c = e" if "j \<in> set Z" "T' j k = Some c" for j c
      using that Z rest rest' is_best_keys [OF 1(2)] news 1(1) by fastforce
    then have "first_hit (\<lambda>i. T' i k) Z = Some e" using i Z by (intro first_hit_eq [of i]) auto
    then show ?thesis using None key [OF 1(2)] by (simp add: lookup_in_append lookup_in_map)
  next
    case (2 e)
    have "first_hit (\<lambda>i. T' i k) Z = None"
      using Zrest [OF 2(1)] rest is_best_keys [OF 2(2)] by (simp add: first_hit_None_iff)
    moreover have "lookup_in D k = None" "entry_type e = kDeletion" using deep 2(3) by (auto simp: keeps_def)
    ultimately show ?thesis using None key [OF 2(2)] by (simp add: lookup_in_append lookup_in_map)
  next
    case 3
    have "T i k = None" if "i \<in> set ys" "i \<notin> set rest" for i
      using all_keys_hit [OF tabs 3(2), of i] that ys by auto
    then have "first_hit (\<lambda>i. T i k) ys = first_hit (\<lambda>i. T i k) rest"
      using ys uniq by (intro first_hit_sub) auto
    then show ?thesis using None Zrest [OF 3(1)] by (simp add: lookup_in_append lookup_in_map)
  qed
qed

lemma merged_sub:
  assumes m: "merged A D T T' X nxt rest news Z ess os deeper"
    and ys: "set ys = set X \<union> set nxt \<union> set rest"
    and mem: "f \<in> set (A @ map T' Z @ D)" "f k = Some e"
  shows "\<exists>g \<in> set (A @ map T ys @ D). g k = Some e"
proof -
  from m have tabs: "list_all2 (\<lambda>i es. T i = map_of es) (X @ nxt) ess"
    and mr: "merge_result (keeps deeper) ess os"
    and rest': "\<And>i. i \<in> set rest \<Longrightarrow> T' i = T i"
    and news: "\<And>i. i \<in> set news \<Longrightarrow> T' i k = Some e \<Longrightarrow> map_of os k = Some e"
    and Z: "set Z = set rest \<union> set news"
    unfolding merged_def by blast+
  consider "f \<in> set A \<union> set D" | i where "i \<in> set rest" "f = T' i" | i where "i \<in> set news" "f = T' i"
    using mem(1) Z by auto
  then show ?thesis
  proof cases
    case 1
    with mem show ?thesis by auto
  next
    case (2 i)
    with mem(2) rest' ys show ?thesis by auto
  next
    case (3 i)
    then have "map_of os k = Some e" using news mem(2) by simp
    then have "is_best ess k e" by (cases rule: merge_result_cases [OF mr, of k]) auto
    then obtain j where "j \<in> set (X @ nxt)" "T j k = Some e" using is_best_hit [OF tabs] by blast
    with ys show ?thesis by auto
  qed
qed

section \<open>Tables and their lists\<close>

lemma info_table_bounds:
  assumes "info_table fs dbp info es" and "k \<in> fst ` set es"
  shows "low info \<le> k" and "k \<le> high info"
proof -
  have "keys_sorted es" using assms(1) is_table_data unfolding info_table_def by blast
  from keys_sorted_bounds [OF this assms(2)] assms(1)
  show "low info \<le> k" "k \<le> high info" by (simp_all add: info_table_def)
qed

lemma info_table_range:
  assumes "info_table fs dbp info es"
  shows "es \<noteq> []" and "low info \<in> fst ` set es" and "high info \<in> fst ` set es" and "low info \<le> high info"
proof -
  show ne: "es \<noteq> []" using assms is_table_data unfolding info_table_def by blast
  then show l: "low info \<in> fst ` set es" and "high info \<in> fst ` set es"
    using assms by (auto simp: info_table_def)
  show "low info \<le> high info" using info_table_bounds(2) [OF assms l] .
qed

lemma info_table_sizes:
  assumes "info_table fs dbp info es"
  shows "unat (rd_num_entries (info_reader info)) = length es"
    and "unat (rd_data_end_offset (info_reader info)) = length (sst_data es)"
    and "keys_sorted es" and "keys_fit es"
proof -
  let ?rd = "info_reader info"
  have t: "is_table fs ?rd es" using assms by (simp add: info_table_def)
  then obtain opts where "?rd = sst_reader (rd_path ?rd) (rd_options ?rd) opts es" by (auto simp: is_table_def)
  then have n: "rd_num_entries ?rd = u64_of (length es)"
    by (metis SSTableReader.select_convs(6) sst_reader_def)
  obtain post where d: "file_bytes fs (rd_path ?rd) = sst_data es @ post" "length (sst_data es) < 2 ^ 63"
    "unat (rd_data_end_offset ?rd) = length (sst_data es)" "keys_sorted es" "keys_fit es"
    using t by (rule is_table_data)
  have "length es < 2 ^ 64" using length_sst_data_ge [of es] d(2) by simp
  then show "unat (rd_num_entries ?rd) = length es" by (simp only: n unat_of_nat_64)
  show "unat (rd_data_end_offset ?rd) = length (sst_data es)" "keys_sorted es" "keys_fit es"
    by (rule d)+
qed

lemma infos_tables:
  assumes "\<forall>info \<in> set infos. info_ok fs dbp info"
  obtains ess where "list_all2 (info_table fs dbp) infos ess"
proof -
  have "\<exists>ess. list_all2 (info_table fs dbp) infos ess"
    using assms
  proof (induction infos)
    case (Cons i infos)
    then show ?case by (auto simp: info_ok_def list_all2_Cons1)
  qed (auto intro: exI [of _ "[]"])
  with that show ?thesis by blast
qed

lemma tables_sum:
  assumes "list_all2 (info_table fs dbp) infos ess"
  shows "(\<Sum>es \<leftarrow> ess. length es) = (\<Sum>info \<leftarrow> infos. unat (rd_num_entries (info_reader info)))"
    and "(\<Sum>es \<leftarrow> ess. length (sst_data es)) = (\<Sum>info \<leftarrow> infos. unat (rd_data_end_offset (info_reader info)))"
  using assms by (induction infos ess rule: list_all2_induct) (simp_all add: info_table_sizes)

lemma tables_maps:
  assumes "reliable fs" and "list_all2 (info_table fs dbp) infos ess"
  shows "list_all2 (\<lambda>i es. tmap fs i = map_of es) infos ess"
  using assms(2) tmap_table [OF assms(1)] by (auto simp: info_table_def elim!: list_all2_mono)

lemma list_all2_set1:
  assumes "list_all2 P xs ys" and "x \<in> set xs"
  obtains y where "y \<in> set ys" and "P x y"
  using assms unfolding list_all2_conv_all_nth by (metis in_set_conv_nth)

lemma list_all2_set2:
  assumes "list_all2 P xs ys" and "y \<in> set ys"
  obtains x where "x \<in> set xs" and "P x y"
  using assms unfolding list_all2_conv_all_nth by (metis in_set_conv_nth)

section \<open>The next level splits into inputs and bystanders\<close>

lemma disjoint_level_pair:
  assumes "disjoint_level Y" and "a \<in> set Y" and "b \<in> set Y" and "a \<noteq> b"
  shows "high a < low b \<or> high b < low a"
proof -
  obtain i j where i: "i < length Y" "a = Y ! i" and j: "j < length Y" "b = Y ! j"
    using assms(2,3) by (auto simp: in_set_conv_nth)
  with assms(4) have "i < j \<or> j < i" by (metis nat_neq_iff)
  with i j assms(1) show ?thesis by (auto simp: disjoint_level_def sorted_wrt_iff_nth_less)
qed

lemma rest_apart:
  assumes X: "list_all2 (info_table fs dbp) X xss" and N: "list_all2 (info_table fs dbp) nxt nss"
    and nxt: "nxt = filter (overlaps (key_range X)) Y" and dj: "disjoint_level Y"
    and r: "r \<in> set Y" "\<not> overlaps (key_range X) r" "low r \<le> high r"
  shows "(\<forall>k \<in> all_keys (xss @ nss). high r < k) \<or> (\<forall>k \<in> all_keys (xss @ nss). k < low r)"
proof -
  let ?s = "fst (key_range X)" and ?l = "snd (key_range X)"
  have inX: "?s \<le> k \<and> k \<le> ?l" if k: "k \<in> all_keys xss" for k
  proof -
    from k obtain es where es: "es \<in> set xss" "k \<in> fst ` set es" by (auto simp: all_keys_def)
    obtain i where i: "i \<in> set X" "info_table fs dbp i es" using X es(1) by (rule list_all2_set2)
    show ?thesis
      using key_range_covers [OF i(1)] info_table_bounds [OF i(2) es(2)] order_trans by blast
  qed
  have inN: "\<exists>t \<in> set nxt. low t \<le> k \<and> k \<le> high t" if k: "k \<in> all_keys nss" for k
  proof -
    from k obtain es where es: "es \<in> set nss" "k \<in> fst ` set es" by (auto simp: all_keys_def)
    obtain i where i: "i \<in> set nxt" "info_table fs dbp i es" using N es(1) by (rule list_all2_set2)
    then show ?thesis using info_table_bounds [OF i(2) es(2)] by blast
  qed
  have t: "low t \<le> ?l \<and> ?s \<le> high t \<and> (high r < low t \<or> high t < low r)" if "t \<in> set nxt" for t
    using that nxt r(1,2) disjoint_level_pair [OF dj r(1), of t] by (auto simp: overlaps_def)
  have un: "all_keys (xss @ nss) = all_keys xss \<union> all_keys nss" by (auto simp: all_keys_def)
  consider "high r < ?s" | "?l < low r" using r(2) by (auto simp: overlaps_def)
  then show ?thesis
  proof cases
    case 1
    have "high r < low t" if "t \<in> set nxt" for t using t [OF that] 1 r(3) by auto
    then have "\<forall>k \<in> all_keys (xss @ nss). high r < k" using inX inN 1 un by fastforce
    then show ?thesis ..
  next
    case 2
    have "high t < low r" if "t \<in> set nxt" for t using t [OF that] 2 r(3) by auto
    then have "\<forall>k \<in> all_keys (xss @ nss). k < low r" using inX inN 2 un by fastforce
    then show ?thesis ..
  qed
qed

lemma erase_file_filter:
  "distinct (map file_id_of Y) \<Longrightarrow> erase_file i Y = filter (\<lambda>info. file_id_of info \<noteq> i) Y"
proof (induction Y)
  case (Cons y Y)
  then have "file_id_of y \<notin> file_id_of ` set Y" by simp
  then have "filter (\<lambda>info. file_id_of info \<noteq> file_id_of y) Y = Y"
    by (intro filter_True) (metis image_eqI)
  with Cons show ?case by auto
qed simp

lemma erase_inputs_filter:
  "distinct (map file_id_of Y) \<Longrightarrow> erase_inputs X Y = filter (\<lambda>info. file_id_of info \<notin> file_id_of ` set X) Y"
proof (induction X arbitrary: Y)
  case (Cons x X)
  have "distinct (map file_id_of (erase_file (file_id_of x) Y))"
    using Cons.prems by (simp add: erase_file_filter distinct_map_filter)
  from Cons.IH [OF this] Cons.prems show ?case
    by (simp add: erase_inputs_def erase_file_filter conj_commute)
qed (simp add: erase_inputs_def)

lemma delete_tables_content:
  "reliable fs \<Longrightarrow> reliable (delete_tables dbp infos fs) \<and>
    (\<forall>q. content (delete_tables dbp infos fs) q = (if q \<in> info_path dbp ` set infos then None else content fs q))"
proof (induction infos arbitrary: fs)
  case (Cons i infos)
  let ?fs = "snd (DeleteFile (SSTableFilePath dbp (file_id_of i)) fs)"
  have rel: "reliable ?fs" using Cons.prems by (simp add: DeleteFile_def split: option.split)
  have con: "content ?fs = (content fs)(info_path dbp i := None)"
    using Cons.prems by (auto simp: DeleteFile_def info_path_def split: option.split)
  show ?case using Cons.IH [OF rel] con by (simp add: delete_tables_def)
qed (simp add: delete_tables_def)

section \<open>The new tables\<close>

lemma new_tables_maps:
  assumes "reliable fs" and "list_all2 (info_table fs dbp) news oss" and "keys_sorted (concat oss)"
  shows "i \<in> set news \<Longrightarrow> tmap fs i k = Some e \<Longrightarrow> map_of (concat oss) k = Some e"
    and "map_of (concat oss) k = Some e \<Longrightarrow> \<exists>i \<in> set news. tmap fs i k = Some e"
proof -
  have dist: "distinct (map fst (concat oss))"
    using assms(3) by (auto simp: keys_sorted_def strict_sorted_iff)
  note maps = tables_maps [OF assms(1,2)]
  have part: "distinct (map fst es)" if "es \<in> set oss" for es
    using dist that by (induction oss) auto
  show "map_of (concat oss) k = Some e" if i: "i \<in> set news" "tmap fs i k = Some e"
  proof -
    obtain es where "es \<in> set oss" "tmap fs i = map_of es" using maps i(1) by (rule list_all2_set1)
    with i(2) have "(k, e) \<in> set (concat oss)" by (auto dest: map_of_SomeD)
    with dist show ?thesis by (rule map_of_is_SomeI)
  qed
  show "\<exists>i \<in> set news. tmap fs i k = Some e" if m: "map_of (concat oss) k = Some e"
  proof -
    from map_of_SomeD [OF m] obtain es where es: "es \<in> set oss" "(k, e) \<in> set es" by auto
    obtain i where "i \<in> set news" "tmap fs i = map_of es" using maps es(1) by (rule list_all2_set2)
    with es part show ?thesis by (auto intro!: bexI [of _ i] map_of_is_SomeI)
  qed
qed

lemma new_tables_apart:
  "list_all2 (info_table fs dbp) news oss \<Longrightarrow> keys_sorted (concat oss) \<Longrightarrow>
    sorted_wrt (\<lambda>a b. high a < low b) news"
proof (induction news oss rule: list_all2_induct)
  case (Cons i news es oss)
  have "high i < low j" if mem: "j \<in> set news" for j
  proof -
    obtain es' where j: "es' \<in> set oss" "info_table fs dbp j es'"
      by (rule list_all2_set1 [OF Cons.hyps(2) mem])
    have "high i \<in> fst ` set es" by (rule info_table_range [OF Cons.hyps(1)])
    moreover have "low j \<in> fst ` set (concat oss)" using info_table_range(2) [OF j(2)] j(1) by force
    ultimately show ?thesis using Cons.prems by (fastforce simp: keys_sorted_def sorted_wrt_append)
  qed
  moreover have "keys_sorted (concat oss)" using Cons.prems by (simp add: keys_sorted_def sorted_wrt_append)
  ultimately show ?case using Cons.IH by simp
qed simp

section \<open>Deletions and deeper levels\<close>

lemma exists_deeper_iff:
  assumes rel: "reliable fs" and lv: "levels_ok db fs"
  shows "exists_deeper lvl k db fs \<longleftrightarrow> (\<exists>info \<in> set (concat (drop (lvl + 2) (db_levels db))). tmap fs info k \<noteq> None)"
proof -
  let ?L = "db_levels db"
  have len: "length ?L = max_sstable_levels (db_options db)" using lv by (simp add: levels_ok_def)
  have rng: "in_range k info" if "info \<in> set (?L ! d)" "d < length ?L" "table_hit fs k info \<noteq> None" for info d
  proof (rule tmap_in_range [OF rel])
    have "info \<in> set (concat ?L)" using that(1,2) by auto
    then show "info_ok fs (db_path db) info" using lv unfolding levels_ok_def by blast
    show "tmap fs info k \<noteq> None" using that(3) by (simp add: tmap_def)
  qed
  have mem: "info \<in> set (concat (drop (lvl + 2) ?L)) \<longleftrightarrow> (\<exists>d. lvl + 2 \<le> d \<and> d < length ?L \<and> info \<in> set (?L ! d))" for info
  proof
    assume "info \<in> set (concat (drop (lvl + 2) ?L))"
    then obtain level where level: "level \<in> set (drop (lvl + 2) ?L)" "info \<in> set level" by auto
    then obtain i where "i < length ?L - (lvl + 2)" "level = drop (lvl + 2) ?L ! i"
      by (metis in_set_conv_nth length_drop)
    with level show "\<exists>d. lvl + 2 \<le> d \<and> d < length ?L \<and> info \<in> set (?L ! d)"
      by (intro exI [of _ "lvl + 2 + i"]) auto
  next
    assume "\<exists>d. lvl + 2 \<le> d \<and> d < length ?L \<and> info \<in> set (?L ! d)"
    then obtain d where "lvl + 2 \<le> d" "d < length ?L" "info \<in> set (?L ! d)" by blast
    then have "d - (lvl + 2) < length (drop (lvl + 2) ?L)" "drop (lvl + 2) ?L ! (d - (lvl + 2)) = ?L ! d"
      by (simp_all only: length_drop nth_drop le_add_diff_inverse)
    then have "?L ! d \<in> set (drop (lvl + 2) ?L)" by (metis nth_mem)
    with \<open>info \<in> set (?L ! d)\<close> show "info \<in> set (concat (drop (lvl + 2) ?L))" by auto
  qed
  have "exists_deeper lvl k db fs \<longleftrightarrow>
      (\<exists>d. lvl + 2 \<le> d \<and> d < length ?L \<and> (\<exists>info \<in> set (?L ! d). table_hit fs k info \<noteq> None))"
    unfolding exists_deeper_def len [symmetric] list_ex_iff set_upt using rng by fastforce
  also have "\<dots> \<longleftrightarrow> (\<exists>info \<in> set (concat (drop (lvl + 2) ?L)). tmap fs info k \<noteq> None)"
    unfolding tmap_def using mem by blast
  finally show ?thesis .
qed

lemma exists_deeper_step:
  assumes "reliable fs" and "levels_ok db fs" and st: "out_step (db_next_sstable_id db) db fs db' fs'"
  shows "exists_deeper lvl k db' fs' = exists_deeper lvl k db fs"
proof -
  have eqs: "db_levels db' = db_levels db" "db_path db' = db_path db" "db_options db' = db_options db"
    using out_step_eqs [OF st] by simp_all
  have rel': "reliable fs'" and fr: "frame_from (db_path db) (db_next_sstable_id db) fs fs'"
    and nx: "db_next_sstable_id db \<le> db_next_sstable_id db'"
    using st by (simp_all add: out_step_def)
  have old: "content fs' (info_path (db_path db) i) = content fs (info_path (db_path db) i)"
    and ok: "info_ok fs (db_path db) i" and lt: "file_id_of i < db_next_sstable_id db"
    if "i \<in> set (concat (db_levels db))" for i
  proof -
    show lt: "file_id_of i < db_next_sstable_id db" and "info_ok fs (db_path db) i"
      using assms(2) that unfolding levels_ok_def by blast+
    have "\<forall>j \<ge> db_next_sstable_id db. info_path (db_path db) i \<noteq> SSTableFilePath (db_path db) j"
      using lt by (auto simp: info_path_def)
    with fr show "content fs' (info_path (db_path db) i) = content fs (info_path (db_path db) i)"
      unfolding frame_from_def by blast
  qed
  have lv': "levels_ok db' fs'"
  proof -
    have "info_ok fs' (db_path db) i" if "i \<in> set (concat (db_levels db))" for i
      using info_ok_cong [OF old [OF that]] ok [OF that] by simp
    then show ?thesis using assms(2) lt order_less_le_trans [OF _ nx] unfolding levels_ok_def eqs by blast
  qed
  have "tmap fs' i = tmap fs i" if "i \<in> set (concat (drop (lvl + 2) (db_levels db)))" for i
  proof -
    have i: "i \<in> set (concat (db_levels db))" using that by (auto dest: in_set_dropD)
    show ?thesis by (rule tmap_cong [OF assms(1) rel' ok [OF i] old [OF i]])
  qed
  then show ?thesis
    unfolding exists_deeper_iff [OF assms(1,2)] exists_deeper_iff [OF rel' lv'] eqs by auto
qed

section \<open>A run of the compaction up to the installation\<close>

text \<open>Room for \<open>j\<close> compactions: the sizes stay far from the limits and file ids do not run out.\<close>

definition compact_room :: "nat \<Rightarrow> DBImpl \<Rightarrow> bool" where
  "compact_room j db \<longleftrightarrow>
     (let infos = concat (db_levels db);
          n = (\<Sum>info \<leftarrow> infos. unat (rd_num_entries (info_reader info)))
      in (\<Sum>info \<leftarrow> infos. unat (rd_data_end_offset (info_reader info))) < 2 ^ 60 \<and>
         n * bloom_bits_per_key (db_options db) < 2 ^ 60 \<and> unat (db_next_sstable_id db) + j * n < 2 ^ 32)"

lemma compact_room_mono: "compact_room j db \<Longrightarrow> i \<le> j \<Longrightarrow> compact_room i db"
  unfolding compact_room_def Let_def by (meson add_left_mono le_less_trans mult_le_mono1)

lemma compact_room_fits:
  assumes room: "compact_room (Suc j) db" and L: "db_levels db = P @ X # Y # R" and nxt: "nxt = filter F Y"
    and ess: "list_all2 (info_table fs (db_path db)) (X @ nxt) ess"
  shows "fits_with (db_options db) [] ess"
    and "unat (db_next_sstable_id db) + (\<Sum>es \<leftarrow> ess. length es) < 2 ^ 32"
proof -
  have le: "(\<Sum>i \<leftarrow> X @ nxt. f i) \<le> (\<Sum>i \<leftarrow> concat (db_levels db). f i)" for f :: "SSTableInfo \<Rightarrow> nat"
    using sum_list_filter_le_nat [of f F Y] by (simp add: L nxt)
  note sums = tables_sum [OF ess]
  let ?n = "\<Sum>es \<leftarrow> ess. length es"
  let ?N = "\<Sum>i \<leftarrow> concat (db_levels db). unat (rd_num_entries (info_reader i))"
  have n: "?n \<le> ?N" unfolding sums by (rule le)
  have d: "(\<Sum>es \<leftarrow> ess. length (sst_data es)) \<le> (\<Sum>i \<leftarrow> concat (db_levels db). unat (rd_data_end_offset (info_reader i)))"
    unfolding sums by (rule le)
  have r: "(\<Sum>i \<leftarrow> concat (db_levels db). unat (rd_data_end_offset (info_reader i))) < 2 ^ 60"
    "?N * bloom_bits_per_key (db_options db) < 2 ^ 60" "unat (db_next_sstable_id db) + Suc j * ?N < 2 ^ 32"
    using room by (simp_all only: compact_room_def Let_def)
  have "?n * bloom_bits_per_key (db_options db) < 2 ^ 60"
    using le_less_trans [OF mult_right_mono [OF n] r(2)] by simp
  moreover have "keys_sorted es \<and> keys_fit es" if "es \<in> set ess" for es
    using that info_table_sizes(3,4) by (auto elim: list_all2_set2 [OF ess])
  ultimately show "fits_with (db_options db) [] ess"
    using le_less_trans [OF d r(1)] by (simp add: fits_with_def keys_sorted_def keys_fit_def)
  show "unat (db_next_sstable_id db) + ?n < 2 ^ 32" using n r(3) by simp
qed

lemma compact_run:
  assumes rel: "reliable fs" and lv: "levels_ok db fs" and L: "db_levels db = P @ X # Y # R"
    and X: "X \<noteq> []" and lvl: "length P = lvl" and nxt: "nxt = filter (overlaps (key_range X)) Y"
    and room: "compact_room (Suc j) db"
  obtains xss nss news oss db1 fs1 where
    "CompactLevel (int lvl) db fs =
      (let db2 = install lvl X nxt news db1; (s, fs2) = SaveManifest db2 fs1 in
       if \<not> ok s then (s, db2, fs2) else (Status_OK, db2, delete_tables (db_path db2) (X @ nxt) fs2))"
    and "list_all2 (info_table fs (db_path db)) X xss" and "list_all2 (info_table fs (db_path db)) nxt nss"
    and "merge_result (keeps (\<lambda>k. exists_deeper lvl k db fs)) (xss @ nss) (concat oss)"
    and "out_step (db_next_sstable_id db) db fs db1 fs1"
    and "list_all2 (info_table fs1 (db_path db)) news oss" and "distinct (map file_id_of news)"
    and "\<forall>info \<in> set news. db_next_sstable_id db \<le> file_id_of info \<and> file_id_of info < db_next_sstable_id db1"
    and "keys_sorted (concat oss)"
    and "unat (db_next_sstable_id db1) \<le> unat (db_next_sstable_id db) + (\<Sum>es \<leftarrow> xss @ nss. length es)"
proof -
  let ?n = "db_next_sstable_id db" and ?dbp = "db_path db" and ?infos = "X @ nxt"
  have ok: "info_ok fs ?dbp i" and lt: "file_id_of i < ?n" if "i \<in> set ?infos" for i
    using lv that unfolding levels_ok_def L nxt by auto
  obtain ess where ess: "list_all2 (info_table fs ?dbp) ?infos ess"
    by (rule infos_tables [of ?infos fs ?dbp]) (use ok in blast)+
  then obtain xss nss where xn: "ess = xss @ nss" "list_all2 (info_table fs ?dbp) X xss"
    "list_all2 (info_table fs ?dbp) nxt nss"
    by (auto simp: list_all2_append1)
  let ?Q = "info_path ?dbp ` set ?infos"
  obtain iters where it: "open_iters ?infos fs = Inr iters" "iters_stand fs ?Q iters ess"
    using open_iters_stand [OF rel ess, of ?Q] by auto
  let ?mo = "\<lparr>mo_writer = None, mo_tables = []\<rparr>"
  have fit: "fits_with (db_options db) [] ess" "unat ?n + (\<Sum>es \<leftarrow> ess. length es) < 2 ^ 32"
    by (rule compact_room_fits [OF room L nxt ess])+
  have out: "out_stands ?n db fs ?mo [] []" by (simp add: out_stands_def)
  have Q: "\<forall>q \<in> ?Q. \<forall>i \<ge> ?n. q \<noteq> SSTableFilePath ?dbp i"
    using lt by (fastforce simp: info_path_def)
  obtain os mo1 db1 fs1 oss1 cur1 where ml:
    "merge_loop lvl iters ?mo db fs = (Status_OK, mo1, db1, fs1)"
    "merge_result (keeps (\<lambda>k. exists_deeper lvl k db fs)) ess os" "out_stands ?n db1 fs1 mo1 oss1 cur1"
    "concat oss1 @ cur1 = os" "out_step ?n db fs db1 fs1" "fits_with (db_options db) os []"
    "unat (db_next_sstable_id db1) \<le> unat ?n + (\<Sum>es \<leftarrow> ess. length es)"
    using merge_loop_stands [OF rel it(2) out Q order_refl, where lvl = lvl and deeper = "\<lambda>k. exists_deeper lvl k db fs"]
      fit exists_deeper_step [OF rel lv] by auto
  have rel1: "reliable fs1" using ml(5) by (simp add: out_step_def)
  note eqs = out_step_eqs [OF ml(5)]
  have ok1: "sst_ok (db_options db1) cur1" if "cur1 \<noteq> []"
    using sst_ok_part [of "db_options db" "concat oss1" cur1 "[]"] ml(4,6) that eqs by simp
  obtain mo2 fs2 where ft: "finish_table lvl mo1 db1 fs1 = (Status_OK, mo2, fs2)" "reliable fs2"
    "out_stands ?n db1 fs2 mo2 (if cur1 = [] then oss1 else oss1 @ [cur1]) []"
    "frame_from (db_path db1) ?n fs1 fs2"
    by (rule finish_table_stands [OF rel1 ml(3) ok1, of lvl])
  let ?oss = "if cur1 = [] then oss1 else oss1 @ [cur1]"
  have os: "concat ?oss = os" using ml(4) by auto
  have st2: "out_step ?n db fs db1 fs2"
    using ml(5) ft(2,4) frame_from_trans eqs(1) unfolding out_step_def by metis
  have run: "CompactLevel (int lvl) db fs =
      (let db2 = install lvl X nxt (mo_tables mo2) db1; (s, fs3) = SaveManifest db2 fs2 in
       if \<not> ok s then (s, db2, fs3) else (Status_OK, db2, delete_tables (db_path db2) (X @ nxt) fs3))"
  proof -
    have "max_sstable_levels (db_options db) = lvl + 2 + length R" using lv lvl by (simp add: levels_ok_def L)
    moreover have "db_levels db ! lvl = X" "db_levels db ! (lvl + 1) = Y" using lvl by (simp_all add: L nth_append)
    ultimately show ?thesis
      using X it(1) ml(1) ft(1) nxt by (simp add: CompactLevel_def Let_def split: prod.split)
  qed
  show ?thesis
    by (rule that [OF run xn(2,3) _ st2]) (use ml(2,6,7) ft(3) xn(1) os eqs in \<open>auto simp: out_stands_def fits_with_def\<close>)
qed

section \<open>The installed state\<close>

lemma install_levels:
  assumes L: "db_levels db = P @ X # Y # R" and dist: "distinct (map file_id_of (concat (db_levels db)))"
    and nxt: "nxt = filter F Y"
  shows "install (length P) X nxt news db =
    db\<lparr>db_levels := P @ [] # sort_key low (filter (\<lambda>i. \<not> F i) Y @ news) # R\<rparr>"
proof -
  have dX: "distinct (map file_id_of X)" and dY: "distinct (map file_id_of Y)" using dist by (simp_all add: L)
  have "erase_inputs X X = []" unfolding erase_inputs_filter [OF dX] by (auto simp: filter_empty_conv)
  moreover have "erase_inputs nxt Y = filter (\<lambda>i. \<not> F i) Y"
    unfolding erase_inputs_filter [OF dY]
  proof (rule filter_cong [OF refl])
    fix i assume i: "i \<in> set Y"
    have "file_id_of i \<in> file_id_of ` set nxt \<longleftrightarrow> i \<in> set nxt"
      using i dY nxt by (auto simp: distinct_map inj_on_def)
    then show "(file_id_of i \<notin> file_id_of ` set nxt) = (\<not> F i)" using i nxt by simp
  qed
  ultimately show ?thesis by (simp add: install_def L nth_append list_update_append)
qed

text \<open>
  The situation after the installation: \<open>rest\<close> are the tables of the next level that were not
  merged, \<open>news\<close> the new ones with the lists \<open>oss\<close>, and the files of the others and of the logs
  are as before.
\<close>

definition compacted ::
  "DBImpl \<Rightarrow> fs \<Rightarrow> fs \<Rightarrow> SSTableInfo list list \<Rightarrow> SSTableInfo list \<Rightarrow> SSTableInfo list \<Rightarrow> SSTableInfo list list \<Rightarrow>
    SSTableInfo list \<Rightarrow> SSTableInfo list \<Rightarrow> sst_entries list \<Rightarrow> SSTableInfo list \<Rightarrow> sst_entries list \<Rightarrow> u32 \<Rightarrow> bool" where
  "compacted db fs fs' P X Y R nxt rest ess news oss nx \<longleftrightarrow>
     db_levels db = P @ X # Y # R \<and> nxt = filter (overlaps (key_range X)) Y \<and>
     rest = filter (\<lambda>i. \<not> overlaps (key_range X) i) Y \<and>
     list_all2 (info_table fs (db_path db)) (X @ nxt) ess \<and>
     merge_result (keeps (\<lambda>k. exists_deeper (length P) k db fs)) ess (concat oss) \<and>
     list_all2 (info_table fs' (db_path db)) news oss \<and> distinct (map file_id_of news) \<and>
     (\<forall>i \<in> set news. db_next_sstable_id db \<le> file_id_of i \<and> file_id_of i < nx) \<and>
     keys_sorted (concat oss) \<and> db_next_sstable_id db \<le> nx \<and> reliable fs' \<and>
     (\<forall>i \<in> set (concat P @ rest @ concat R).
        content fs' (info_path (db_path db) i) = content fs (info_path (db_path db) i)) \<and>
     (\<forall>i. content fs' (vlog_file_path (db_path db) i) = content fs (vlog_file_path (db_path db) i)) \<and>
     (\<forall>i. content fs' (WALFilePath (db_path db) i) = content fs (WALFilePath (db_path db) i))"

lemma compacted_rest:
  assumes c: "compacted db fs fs' P X Y R nxt rest ess news oss nx" and lv: "levels_ok db fs"
    and Y: "disjoint_level Y" and r: "r \<in> set rest"
  shows "low r \<le> high r"
    and "(\<forall>k \<in> all_keys ess. high r < k) \<or> (\<forall>k \<in> all_keys ess. k < low r)"
proof -
  from c have L: "db_levels db = P @ X # Y # R" and nxt: "nxt = filter (overlaps (key_range X)) Y"
    and rest: "rest = filter (\<lambda>i. \<not> overlaps (key_range X) i) Y"
    and tabs: "list_all2 (info_table fs (db_path db)) (X @ nxt) ess"
    unfolding compacted_def by blast+
  have "info_ok fs (db_path db) r" using lv r unfolding levels_ok_def L rest by auto
  then show rr: "low r \<le> high r" using info_table_range(4) by (auto simp: info_ok_def)
  obtain xss nss where "ess = xss @ nss" "list_all2 (info_table fs (db_path db)) X xss"
    "list_all2 (info_table fs (db_path db)) nxt nss"
    using tabs by (auto simp: list_all2_append1)
  with rest_apart [OF _ _ nxt Y _ _ rr] r rest
  show "(\<forall>k \<in> all_keys ess. high r < k) \<or> (\<forall>k \<in> all_keys ess. k < low r)" by auto
qed

lemma compacted_news:
  assumes c: "compacted db fs fs' P X Y R nxt rest ess news oss nx" and i: "i \<in> set news"
  shows "low i \<in> all_keys ess" and "high i \<in> all_keys ess" and "low i \<le> high i"
proof -
  from c have mr: "merge_result (keeps (\<lambda>k. exists_deeper (length P) k db fs)) ess (concat oss)"
    and news: "list_all2 (info_table fs' (db_path db)) news oss"
    unfolding compacted_def by blast+
  have key: "k \<in> all_keys ess" if "k \<in> fst ` set (concat oss)" for k
    using mr that is_best_keys unfolding merge_result_def by fastforce
  obtain es where es: "es \<in> set oss" "info_table fs' (db_path db) i es" using news i by (rule list_all2_set1)
  show "low i \<in> all_keys ess" "high i \<in> all_keys ess"
    using info_table_range(2,3) [OF es(2)] es(1) by (force intro!: key)+
  show "low i \<le> high i" by (rule info_table_range(4) [OF es(2)])
qed

lemma compacted_disjoint:
  assumes c: "compacted db fs fs' P X Y R nxt rest ess news oss nx" and lv: "levels_ok db fs"
    and Y: "disjoint_level Y"
  shows "disjoint_level (sort_key low (rest @ news))" and "distinct (map file_id_of (rest @ news))"
proof -
  from c have L: "db_levels db = P @ X # Y # R" and rest: "rest = filter (\<lambda>i. \<not> overlaps (key_range X) i) Y"
    and news: "list_all2 (info_table fs' (db_path db)) news oss" and dn: "distinct (map file_id_of news)"
    and ids: "\<forall>i \<in> set news. db_next_sstable_id db \<le> file_id_of i"
    and srt: "keys_sorted (concat oss)"
    unfolding compacted_def by blast+
  have dY: "distinct (map file_id_of Y)" and lt: "\<forall>i \<in> set Y. file_id_of i < db_next_sstable_id db"
    using lv by (auto simp: levels_ok_def L)
  then show dist: "distinct (map file_id_of (rest @ news))"
    using dn ids by (auto simp: rest distinct_map_filter) (metis leD)
  note r = compacted_rest [OF c lv Y] and n = compacted_news [OF c]
  have sep: "high a < low b \<or> high b < low a" if "a \<in> set rest" "b \<in> set news" for a b
    using r(2) [OF that(1)] n(1,2) [OF that(2)] by auto
  have nn: "high a < low b \<or> high b < low a" if "a \<in> set news" "b \<in> set news" "a \<noteq> b" for a b
    using new_tables_apart [OF news srt] disjoint_level_pair that unfolding disjoint_level_def by blast
  show "disjoint_level (sort_key low (rest @ news))"
  proof (rule disjoint_level_sort)
    show "distinct (rest @ news)" using dist by (simp only: distinct_map)
    show "low a \<le> high a" if "a \<in> set (rest @ news)" for a using that r(1) n(3) by auto
    show "high a < low b \<or> high b < low a" if "a \<in> set (rest @ news)" "b \<in> set (rest @ news)" "a \<noteq> b" for a b
    proof -
      have "set rest \<subseteq> set Y" by (auto simp: rest)
      then show ?thesis using that sep nn disjoint_level_pair [OF Y, of a b] by fastforce
    qed
  qed
qed

lemma compacted_kept:
  assumes c: "compacted db fs fs' P X Y R nxt rest ess news oss nx" and rel: "reliable fs" and lv: "levels_ok db fs"
    and i: "i \<in> set (concat P @ rest @ concat R)"
  shows "info_ok fs (db_path db) i" and "info_ok fs' (db_path db) i" and "tmap fs' i = tmap fs i"
    and "i \<in> set (concat (db_levels db))"
proof -
  from c have L: "db_levels db = P @ X # Y # R" and rest: "rest = filter (\<lambda>i. \<not> overlaps (key_range X) i) Y"
    and rel': "reliable fs'"
    and con: "content fs' (info_path (db_path db) i) = content fs (info_path (db_path db) i)"
    using i unfolding compacted_def by blast+
  show mem: "i \<in> set (concat (db_levels db))" using i by (auto simp: L rest)
  then show ok: "info_ok fs (db_path db) i" using lv unfolding levels_ok_def by blast
  then show "info_ok fs' (db_path db) i" by (simp only: info_ok_cong [OF con])
  show "tmap fs' i = tmap fs i" by (rule tmap_cong [OF rel rel' ok con])
qed

lemma compacted_merged:
  assumes c: "compacted db fs fs' P X Y R nxt rest ess news oss nx" and rel: "reliable fs" and lv: "levels_ok db fs"
    and Y: "disjoint_level Y"
  shows "merged A (map (tmap fs) (concat R)) (tmap fs) (tmap fs') X nxt rest news (sort_key low (rest @ news)) ess
    (concat oss) (\<lambda>k. exists_deeper (length P) k db fs)"
proof -
  from c have L: "db_levels db = P @ X # Y # R" and rest: "rest = filter (\<lambda>i. \<not> overlaps (key_range X) i) Y"
    and tabs: "list_all2 (info_table fs (db_path db)) (X @ nxt) ess"
    and mr: "merge_result (keeps (\<lambda>k. exists_deeper (length P) k db fs)) ess (concat oss)"
    and news: "list_all2 (info_table fs' (db_path db)) news oss"
    and srt: "keys_sorted (concat oss)" and rel': "reliable fs'"
    unfolding compacted_def by blast+
  note kept = compacted_kept [OF c rel lv]
  have rng: "low i \<le> k \<and> k \<le> high i" if "i \<in> set rest" "tmap fs i k \<noteq> None" for i k
    using tmap_in_range [OF rel kept(1) that(2)] that(1) by (simp add: in_range_def)
  have out: "tmap fs i k = None" if i: "i \<in> set rest" and k: "k \<in> all_keys ess" for i k
  proof (rule ccontr)
    assume "tmap fs i k \<noteq> None"
    from rng [OF i this] compacted_rest(2) [OF c lv Y i] k show False by fastforce
  qed
  have uniq: "i = j" if ij: "i \<in> set rest" "j \<in> set rest" "tmap fs i k \<noteq> None" "tmap fs j k \<noteq> None" for i j k
  proof (rule ccontr)
    assume "i \<noteq> j"
    with disjoint_level_pair [OF Y, of i j] ij have "high i < low j \<or> high j < low i" by (auto simp: rest)
    with rng [OF ij(1,3)] rng [OF ij(2,4)] show False by auto
  qed
  have deep: "lookup_in (map (tmap fs) (concat R)) k = None" if "\<not> exists_deeper (length P) k db fs" for k
    using that unfolding exists_deeper_iff [OF rel lv] by (auto simp: L lookup_in_None)
  show ?thesis
    unfolding merged_def
    using tables_maps [OF rel tabs] mr kept(3) out new_tables_maps [OF rel' news srt] deep
    by (intro conjI allI impI ballI) (auto intro: uniq)
qed

lemma distinct_map_parts:
  assumes "distinct (map f (concat (P @ X # Y # R)))"
  shows "distinct (map f (concat P @ filter F Y @ concat R))"
proof -
  have "distinct (concat P @ filter F Y @ concat R)" using assms unfolding distinct_map by auto
  moreover have "inj_on f (set (concat P @ filter F Y @ concat R))"
    using assms unfolding distinct_map by (auto elim!: inj_on_subset)
  ultimately show ?thesis unfolding distinct_map by blast
qed

lemma compacted_levels_ok:
  assumes c: "compacted db fs fs' P X Y R nxt rest ess news oss nx" and rel: "reliable fs" and lv: "levels_ok db fs"
    and Y: "disjoint_level Y"
  shows "levels_ok (db\<lparr>db_next_sstable_id := nx, db_levels := P @ [] # sort_key low (rest @ news) # R\<rparr>) fs'"
proof -
  from c have L: "db_levels db = P @ X # Y # R" and rest: "rest = filter (\<lambda>i. \<not> overlaps (key_range X) i) Y"
    and news: "list_all2 (info_table fs' (db_path db)) news oss"
    and ids: "\<And>i. i \<in> set news \<Longrightarrow> db_next_sstable_id db \<le> file_id_of i \<and> file_id_of i < nx"
    and nx: "db_next_sstable_id db \<le> nx"
    unfolding compacted_def by blast+
  from lv have len: "length (db_levels db) = max_sstable_levels (db_options db)"
    and dist: "distinct (map file_id_of (concat (db_levels db)))"
    and lt: "\<And>i. i \<in> set (concat (db_levels db)) \<Longrightarrow> file_id_of i < db_next_sstable_id db"
    unfolding levels_ok_def by blast+
  note kept = compacted_kept [OF c rel lv]
  let ?keep = "concat P @ rest @ concat R"
  have okn: "info_ok fs' (db_path db) i" if "i \<in> set news" for i
    using news that by (auto simp: info_ok_def elim: list_all2_set1)
  have all: "i \<in> set (concat (P @ [] # sort_key low (rest @ news) # R)) \<longleftrightarrow> i \<in> set ?keep \<or> i \<in> set news" for i
    by auto
  have perm: "distinct (map file_id_of (concat (P @ [] # sort_key low (rest @ news) # R))) \<longleftrightarrow>
      distinct (map file_id_of (?keep @ news))"
    unfolding distinct_map by (auto simp: Un_ac)
  have "distinct (map file_id_of ?keep)"
    using dist unfolding L rest by (rule distinct_map_parts)
  moreover have "file_id_of i \<noteq> file_id_of j" if "i \<in> set ?keep" "j \<in> set news" for i j
    using lt [OF kept(4) [OF that(1)]] ids [OF that(2)] by auto
  then have "file_id_of ` set ?keep \<inter> file_id_of ` set news = {}" by blast
  moreover have "distinct (map file_id_of news)" using compacted_disjoint(2) [OF c lv Y] by simp
  ultimately have dist': "distinct (map file_id_of (?keep @ news))"
    unfolding map_append [of _ ?keep] distinct_append [of "map _ ?keep"] set_map by blast
  have "file_id_of i < nx" if "i \<in> set ?keep \<or> i \<in> set news" for i
    using that ids lt [OF kept(4)] order_less_le_trans [OF _ nx] by blast
  moreover have "info_ok fs' (db_path db) i" if "i \<in> set ?keep \<or> i \<in> set news" for i
    using that okn kept(2) by blast
  moreover have "distinct (map file_id_of (concat (P @ [] # sort_key low (rest @ news) # R)))"
    using perm dist' by blast
  ultimately show ?thesis
    using len by (simp add: levels_ok_def L all del: concat_append concat.simps map_append set_append set_concat)
qed

text \<open>The sources before and after, and what a lookup sees of the change.\<close>

lemma compacted_sources:
  assumes inv: "db_inv db fs kv" and c: "compacted db fs fs' P X Y R nxt rest ess news oss nx"
  defines "db' \<equiv> db\<lparr>db_next_sstable_id := nx, db_levels := P @ [] # sort_key low (rest @ news) # R\<rparr>"
  shows "keeps_or_drops (sources db fs) (sources db' fs')"
    and "f \<in> set (sources db' fs') \<Longrightarrow> f k = Some e \<Longrightarrow> \<exists>m \<in> set (sources db fs). m k = Some e"
proof -
  from inv have rel: "reliable fs" and lv: "levels_ok db fs"
    and dj: "\<forall>level \<in> set (drop 1 (db_levels db)). disjoint_level level" and newest: "newest (sources db fs)"
    unfolding db_inv_def by blast+
  from c have L: "db_levels db = P @ X # Y # R" and rest: "rest = filter (\<lambda>i. \<not> overlaps (key_range X) i) Y"
    and nxt: "nxt = filter (overlaps (key_range X)) Y"
    unfolding compacted_def by blast+
  have Y: "disjoint_level Y" using dj by (cases P) (simp_all add: L)
  let ?A = "mem_sources db @ map (tmap fs) (flat P)" and ?D = "map (tmap fs) (concat R)"
  let ?ys = "in_order P X @ Y" and ?Z = "sort_key low (rest @ news)"
  note kept = compacted_kept(3) [OF c rel lv]
  have old: "sources db fs = ?A @ map (tmap fs) ?ys @ ?D"
    by (simp add: sources_def sst_sources_flat L flat_split)
  have "map (tmap fs') (flat P) = map (tmap fs) (flat P)" "map (tmap fs') (concat R) = map (tmap fs) (concat R)"
    using kept by auto
  then have new: "sources db' fs' = ?A @ map (tmap fs') ?Z @ ?D"
    by (simp add: db'_def sources_def sst_sources_flat flat_split mem_sources_def in_order_def)
  have ys: "set ?ys = set X \<union> set nxt \<union> set rest" by (auto simp: nxt rest)
  note m = compacted_merged [OF c rel lv Y, of ?A]
  show "keeps_or_drops (sources db fs) (sources db' fs')"
    using merged_lookup [OF m _ ys] newest unfolding keeps_or_drops_def old new by blast
  show "\<exists>m \<in> set (sources db fs). m k = Some e" if "f \<in> set (sources db' fs')" "f k = Some e"
    using merged_sub [OF m ys] that unfolding old new by blast
qed

lemma db_inv_compacted:
  assumes inv: "db_inv db fs kv" and c: "compacted db fs fs' P X Y R nxt rest ess news oss nx"
  shows "db_inv (db\<lparr>db_next_sstable_id := nx, db_levels := P @ [] # sort_key low (rest @ news) # R\<rparr>) fs' kv"
    (is "db_inv ?db fs' kv")
proof -
  from inv have rel: "reliable fs" and lv: "levels_ok db fs" and mem: "mem_ok db" and logs: "logs_ok db fs"
    and dj: "\<forall>level \<in> set (drop 1 (db_levels db)). disjoint_level level"
    unfolding db_inv_def by blast+
  from c have L: "db_levels db = P @ X # Y # R" and rel': "reliable fs'"
    and vlog: "\<And>i. content fs' (vlog_file_path (db_path db) i) = content fs (vlog_file_path (db_path db) i)"
    and wal: "\<And>i. content fs' (WALFilePath (db_path db) i) = content fs (WALFilePath (db_path db) i)"
    unfolding compacted_def by blast+
  have Y: "disjoint_level Y" using dj by (cases P) (simp_all add: L)
  let ?Z = "sort_key low (rest @ news)"
  show ?thesis
  proof (rule db_inv_subsources [OF inv rel'])
    show "lookup_in (sources ?db fs') k = lookup_in (sources db fs) k \<or>
      (lookup_in (sources ?db fs') k = None \<and> (\<exists>e. lookup_in (sources db fs) k = Some e \<and> entry_type e = kDeletion))" for k
      using compacted_sources(1) [OF inv c] unfolding keeps_or_drops_def by blast
    show "\<exists>m' \<in> set (sources db fs). m' k = Some e" if "f \<in> set (sources ?db fs')" "f k = Some e" for f k e
      using compacted_sources(2) [OF inv c that] .
    show "levels_ok ?db fs'" by (rule compacted_levels_ok [OF c rel lv Y])
    show "logs_ok ?db fs'"
      using logs wal vl_ok_cong [of fs' "db_vlog db" fs] vlogs_clean_cong [OF vlog] vlog
      by (auto simp: logs_ok_def VLogFilePath_def)
    have "set (drop 1 (db_levels ?db)) \<subseteq> set (drop 1 (db_levels db)) \<union> {[], ?Z}"
      by (cases P) (auto simp: L)
    moreover have "disjoint_level []" by (simp add: disjoint_level_def)
    ultimately show "\<forall>level \<in> set (drop 1 (db_levels ?db)). disjoint_level level"
      using dj compacted_disjoint(1) [OF c lv Y] by blast
  qed (use mem vlog in \<open>simp_all add: mem_ok_def\<close>)
qed

lemma compacted_room:
  assumes c: "compacted db fs fs' P X Y R nxt rest ess news oss nx" and room: "compact_room (Suc j) db"
    and nx: "unat nx \<le> unat (db_next_sstable_id db) + (\<Sum>es \<leftarrow> ess. length es)"
  shows "compact_room j (db\<lparr>db_next_sstable_id := nx, db_levels := P @ [] # sort_key low (rest @ news) # R\<rparr>)"
proof -
  from c have L: "db_levels db = P @ X # Y # R" and nxt: "nxt = filter (overlaps (key_range X)) Y"
    and rest: "rest = filter (\<lambda>i. \<not> overlaps (key_range X) i) Y"
    and tabs: "list_all2 (info_table fs (db_path db)) (X @ nxt) ess"
    and mr: "merge_result (keeps (\<lambda>k. exists_deeper (length P) k db fs)) ess (concat oss)"
    and news: "list_all2 (info_table fs' (db_path db)) news oss"
    unfolding compacted_def by blast+
  let ?Z = "sort_key low (rest @ news)"
  let ?sum = "\<lambda>(f :: SSTableInfo \<Rightarrow> nat) xs. \<Sum>i \<leftarrow> xs. f i"
  let ?num = "\<lambda>i. unat (rd_num_entries (info_reader i))" and ?dat = "\<lambda>i. unat (rd_data_end_offset (info_reader i))"
  have sorted: "?sum f ?Z = ?sum f rest + ?sum f news" for f
  proof -
    have "mset (map f ?Z) = mset (map f (rest @ news))" by simp
    then show ?thesis unfolding sum_mset_sum_list [symmetric] by simp
  qed
  have parts: "?sum f Y = ?sum f nxt + ?sum f rest" for f
    unfolding nxt rest by (induction Y) simp_all
  have old: "?sum f (concat (db_levels db)) = ?sum f (concat P) + ?sum f (X @ nxt) + ?sum f rest + ?sum f (concat R)" for f
    using parts [of f] by (simp add: L)
  have new: "?sum f (concat (P @ [] # ?Z # R)) = ?sum f (concat P) + ?sum f news + ?sum f rest + ?sum f (concat R)" for f
    using sorted [of f] by simp
  have cc: "(\<Sum>es \<leftarrow> oss. length es) = length (concat oss)" "(\<Sum>es \<leftarrow> oss. length (sst_data es)) = length (sst_data (concat oss))"
    by (induction oss) simp_all
  have le: "?sum ?num news \<le> ?sum ?num (X @ nxt)" "?sum ?dat news \<le> ?sum ?dat (X @ nxt)"
    using mr unfolding tables_sum [OF tabs, symmetric] tables_sum [OF news, symmetric] cc merge_result_def by blast+
  have n: "?sum ?num (X @ nxt) = (\<Sum>es \<leftarrow> ess. length es)" using tables_sum(1) [OF tabs] by simp
  let ?N = "?sum ?num (concat (db_levels db))" and ?N' = "?sum ?num (concat (P @ [] # ?Z # R))"
  have r: "?sum ?dat (concat (db_levels db)) < 2 ^ 60" "?N * bloom_bits_per_key (db_options db) < 2 ^ 60"
    "unat (db_next_sstable_id db) + Suc j * ?N < 2 ^ 32"
    using room by (simp_all only: compact_room_def Let_def)
  have N: "?N' \<le> ?N" unfolding old new using le(1) by linarith
  have D: "?sum ?dat (concat (P @ [] # ?Z # R)) \<le> ?sum ?dat (concat (db_levels db))"
    unfolding old new using le(2) by linarith
  have "?sum ?num (X @ nxt) \<le> ?N" unfolding old by linarith
  moreover have "j * ?N' \<le> j * ?N" using N by (rule mult_le_mono2)
  ultimately have "unat nx + j * ?N' < 2 ^ 32" using r(3) nx n unfolding mult_Suc by linarith
  moreover have "?N' * bloom_bits_per_key (db_options db) < 2 ^ 60"
    using le_less_trans [OF mult_right_mono [OF N] r(2)] by simp
  ultimately show ?thesis
    using le_less_trans [OF D r(1)] by (simp add: compact_room_def Let_def)
qed

section \<open>What the merge keeps, whatever happens\<close>

lemma merge_loop_invariant:
  assumes emit: "\<And>k e mo db fs s mo' db' fs'. emit lvl k e mo db fs = (s, mo', db', fs') \<Longrightarrow> P mo db \<Longrightarrow> P mo' db'"
  shows "merge_loop lvl iters mo db fs = (s, mo', db', fs') \<Longrightarrow> P mo db \<Longrightarrow> P mo' db'"
  using emit
proof (induction lvl iters mo db fs rule: merge_loop.induct)
  case (1 lvl iters mo db fs)
  show ?case
  proof (cases "min_key iters")
    case None
    with 1(2,3) show ?thesis by (simp add: merge_loop.simps)
  next
    case (Some k)
    define e where "e = the (winner k iters)"
    define d where "d = (entry_type e = kDeletion \<and> \<not> exists_deeper lvl k db fs)"
    obtain s1 mo1 db1 fs1 where st:
      "(if \<not> d then emit lvl k e mo db fs else (Status_OK, mo, db, fs)) = (s1, mo1, db1, fs1)"
      by (metis prod_cases4)
    then have P1: "P mo1 db1" using 1(3,4) by (auto split: if_splits)
    have "merge_loop lvl iters mo db fs =
        (let (s, mo, db, fs) = (if \<not> d then emit lvl k e mo db fs else (Status_OK, mo, db, fs))
         in if \<not> ok s then (s, mo, db, fs) else merge_loop lvl (advance k fs iters) mo db fs)"
      by (subst merge_loop.simps) (simp add: Some e_def d_def Let_def)
    with 1(2) have r: "(if \<not> ok s1 then (s1, mo1, db1, fs1) else merge_loop lvl (advance k fs1 iters) mo1 db1 fs1) = (s, mo', db', fs')"
      unfolding st by simp
    show ?thesis
    proof (cases "ok s1")
      case True
      with r have "merge_loop lvl (advance k fs1 iters) mo1 db1 fs1 = (s, mo', db', fs')" by simp
      from 1(1) [OF Some e_def d_def refl st [symmetric] refl refl _ this P1 1(4)] True show ?thesis by simp
    next
      case False
      with r P1 show ?thesis by simp
    qed
  qed
qed

text \<open>The new tables name the next level, and the levels stay numbered.\<close>

definition outputs_numbered :: "nat \<Rightarrow> SSTableInfo list list \<Rightarrow> merge_out \<Rightarrow> DBImpl \<Rightarrow> bool" where
  "outputs_numbered lvl L mo db \<longleftrightarrow>
     db_levels db = L \<and> (\<forall>info \<in> set (mo_tables mo). meta_level (info_meta info) = int lvl + 1)"

lemma finish_table_numbered:
  "finish_table lvl mo db fs = (s, mo', fs') \<Longrightarrow> outputs_numbered lvl L mo db \<Longrightarrow> outputs_numbered lvl L mo' db"
  by (auto simp: finish_table_def outputs_numbered_def writer_meta_def Let_def split: option.splits prod.splits if_splits)

lemma open_table_numbered:
  "open_table mo db fs = (s, w, db', fs') \<Longrightarrow> outputs_numbered lvl L mo db \<Longrightarrow> outputs_numbered lvl L mo db'"
  by (auto simp: open_table_def outputs_numbered_def Let_def split: option.splits prod.splits)

lemma outputs_numbered_writer [simp]:
  "outputs_numbered lvl L (mo\<lparr>mo_writer := w\<rparr>) db = outputs_numbered lvl L mo db"
  by (simp add: outputs_numbered_def)

lemma emit_numbered:
  assumes "emit lvl k e mo db fs = (s, mo', db', fs')" and "outputs_numbered lvl L mo db"
  shows "outputs_numbered lvl L mo' db'"
proof -
  obtain s1 i sw db1 fs1 where o: "open_table mo db fs = (s1, (i, sw), db1, fs1)" by (metis prod.exhaust)
  have n: "outputs_numbered lvl L mo db1" using open_table_numbered [OF o assms(2)] .
  show ?thesis
    using assms(1) n
    by (auto simp: emit_def o Let_def split: prod.splits if_splits dest: finish_table_numbered)
qed

lemma set_erase_inputs: "set (erase_inputs inputs level) \<subseteq> set level"
proof -
  have one: "set (erase_file i level) \<subseteq> set level" for i level by (induction level) auto
  have "set (fold (\<lambda>x. erase_file (f x)) xs level) \<subseteq> set level" for f :: "'c \<Rightarrow> u32" and xs level
    by (induction xs arbitrary: level) (auto dest: subsetD [OF one])
  then show ?thesis by (simp add: erase_inputs_def)
qed

lemma install_numbered:
  assumes "levels_numbered (db_levels db)" and "\<forall>info \<in> set news. meta_level (info_meta info) = int lvl + 1"
  shows "levels_numbered (db_levels (install lvl X nxt news db))"
  unfolding levels_numbered_def
proof (intro allI impI ballI)
  let ?L = "db_levels db"
  fix i info assume i: "i < length (db_levels (install lvl X nxt news db))" "info \<in> set (db_levels (install lvl X nxt news db) ! i)"
  then have len: "i < length ?L" by (simp add: install_def Let_def)
  have old: "meta_level (info_meta info) = int i" if "info \<in> set (?L ! i)" using assms(1) len that by (simp add: levels_numbered_def)
  consider "i = Suc lvl" | "i = lvl" | "i \<noteq> lvl" "i \<noteq> Suc lvl" by blast
  then show "meta_level (info_meta info) = int i"
    by cases (use i(2) len old assms(2) set_erase_inputs [of X "?L ! lvl"] set_erase_inputs [of nxt "?L ! Suc lvl"] in
      \<open>auto simp: install_def Let_def\<close>)
qed

lemma CompactLevel_numbered:
  assumes "CompactLevel lv db fs = (s, db', fs')" and "levels_numbered (db_levels db)"
  shows "levels_numbered (db_levels db')"
proof (cases "db_levels db' = db_levels db")
  case False
  let ?X = "db_levels db ! nat lv"
  let ?nxt = "filter (overlaps (key_range ?X)) (db_levels db ! (nat lv + 1))"
  obtain iters s1 mo1 db1 fs1 where
    m: "merge_loop (nat lv) iters \<lparr>mo_writer = None, mo_tables = []\<rparr> db fs = (s1, mo1, db1, fs1)"
    and db': "db' = db1 \<or> (\<exists>s2 mo2 fs2. finish_table (nat lv) mo1 db1 fs1 = (s2, mo2, fs2) \<and>
      db' = install (nat lv) ?X ?nxt (mo_tables mo2) db1)"
    using assms(1) False
    by (fastforce simp: CompactLevel_def Let_def split: prod.splits sum.splits if_splits)
  have "outputs_numbered (nat lv) (db_levels db) mo1 db1"
    by (rule merge_loop_invariant [where P = "outputs_numbered (nat lv) (db_levels db)", OF _ m])
      (auto simp: outputs_numbered_def [of _ _ "\<lparr>mo_writer = None, mo_tables = []\<rparr>"] intro: emit_numbered)
  with db' assms(2) finish_table_numbered show ?thesis
    by (auto simp: outputs_numbered_def intro!: install_numbered)
qed (use assms(2) in simp)

section \<open>The whole compaction\<close>

lemma CompactLevel_compacted:
  assumes inv: "db_inv db fs kv" and room: "compact_room (Suc j) db"
    and L: "db_levels db = P @ X # Y # R" and X: "X \<noteq> []"
  obtains db' fs' nxt rest ess news oss where
    "CompactLevel (int (length P)) db fs = (Status_OK, db', fs')"
    and "db' = db\<lparr>db_next_sstable_id := db_next_sstable_id db', db_levels := P @ [] # sort_key low (rest @ news) # R\<rparr>"
    and "compacted db fs fs' P X Y R nxt rest ess news oss (db_next_sstable_id db')"
    and "unat (db_next_sstable_id db') \<le> unat (db_next_sstable_id db) + (\<Sum>es \<leftarrow> ess. length es)"
    and "\<forall>q. \<not> table_file (db_path db) q \<longrightarrow> content fs' q = content fs q" and "manifest_says db' fs'"
proof -
  from inv have rel: "reliable fs" and lv: "levels_ok db fs" unfolding db_inv_def by blast+
  define nxt where "nxt = filter (overlaps (key_range X)) Y"
  define rest where "rest = filter (\<lambda>i. \<not> overlaps (key_range X) i) Y"
  let ?dbp = "db_path db" and ?n = "db_next_sstable_id db"
  from lv have dist: "distinct (map file_id_of (concat (db_levels db)))"
    and lt: "\<And>i. i \<in> set (concat (db_levels db)) \<Longrightarrow> file_id_of i < ?n"
    unfolding levels_ok_def by blast+
  obtain xss nss news oss db1 fs1 where run: "CompactLevel (int (length P)) db fs =
      (let db2 = install (length P) X nxt news db1; (s, fs2) = SaveManifest db2 fs1 in
       if \<not> ok s then (s, db2, fs2) else (Status_OK, db2, delete_tables (db_path db2) (X @ nxt) fs2))"
    and tabs: "list_all2 (info_table fs ?dbp) X xss" "list_all2 (info_table fs ?dbp) nxt nss"
    and mr: "merge_result (keeps (\<lambda>k. exists_deeper (length P) k db fs)) (xss @ nss) (concat oss)"
    and st: "out_step ?n db fs db1 fs1" and news: "list_all2 (info_table fs1 ?dbp) news oss"
    and dn: "distinct (map file_id_of news)"
    and ids: "\<forall>i \<in> set news. ?n \<le> file_id_of i \<and> file_id_of i < db_next_sstable_id db1"
    and srt: "keys_sorted (concat oss)"
    and nx: "unat (db_next_sstable_id db1) \<le> unat ?n + (\<Sum>es \<leftarrow> xss @ nss. length es)"
    by (rule compact_run [OF rel lv L X refl nxt_def room])
  note eqs = out_step_eqs [OF st]
  let ?db = "db1\<lparr>db_levels := P @ [] # sort_key low (rest @ news) # R\<rparr>"
  have db1: "db1 = db\<lparr>db_next_sstable_id := db_next_sstable_id db1\<rparr>" and rel1: "reliable fs1"
    and fr: "frame_from ?dbp ?n fs fs1" and nn: "?n \<le> db_next_sstable_id db1"
    using st unfolding out_step_def by blast+
  have ins: "install (length P) X nxt news db1 = ?db"
    using install_levels [OF _ _ nxt_def, of db1 P X R news] L dist by (simp add: eqs rest_def)
  obtain fs2 where m: "SaveManifest ?db fs1 = (Status_OK, fs2)" "reliable fs2"
    "content fs2 = (content fs1)(ManifestPath (db_path ?db) @ str ''.tmp'' := None,
      ManifestPath (db_path ?db) \<mapsto> manifest_text (db_next_sstable_id ?db) (db_levels ?db))"
    using rel1 by (rule SaveManifest_reliable)
  let ?fs = "delete_tables ?dbp (X @ nxt) fs2"
  note del = delete_tables_content [OF m(2), of ?dbp "X @ nxt"]
  have dead: "i \<in> set (concat (db_levels db))" if "i \<in> set (X @ nxt)" for i using that by (auto simp: L nxt_def)
  have con: "content ?fs q = content fs1 q"
    if "q \<notin> info_path ?dbp ` set (X @ nxt)" "q \<noteq> ManifestPath ?dbp" "q \<noteq> ManifestPath ?dbp @ str ''.tmp''" for q
    using del that by (simp add: m(3) eqs)
  have run': "CompactLevel (int (length P)) db fs = (Status_OK, ?db, ?fs)"
    using m(1) by (simp add: run ins eqs)
  have newp: "content ?fs (info_path ?dbp i) = content fs1 (info_path ?dbp i)" if "i \<in> set news" for i
  proof (rule con)
    have "file_id_of i \<noteq> file_id_of i'" if "i' \<in> set (X @ nxt)" for i'
      using lt [OF dead [OF that]] ids \<open>i \<in> set news\<close> by fastforce
    then show "info_path ?dbp i \<notin> info_path ?dbp ` set (X @ nxt)" by (auto simp: info_path_def)
  qed (simp_all add: info_path_def)
  have keepp: "content ?fs (info_path ?dbp i) = content fs (info_path ?dbp i)"
    if mem: "i \<in> set (concat P @ rest @ concat R)" for i
  proof -
    have i: "i \<in> set (concat (db_levels db))" using mem by (auto simp: L rest_def)
    have "i \<notin> set (X @ nxt)"
      using dist mem unfolding distinct_map L by (auto simp: nxt_def rest_def)
    then have "file_id_of i \<noteq> file_id_of i'" if "i' \<in> set (X @ nxt)" for i'
      using inj_onD [OF _ _ i dead [OF that], of file_id_of] dist that unfolding distinct_map by blast
    then have "content ?fs (info_path ?dbp i) = content fs1 (info_path ?dbp i)"
      by (intro con) (auto simp: info_path_def)
    also have "\<dots> = content fs (info_path ?dbp i)"
    proof -
      have "\<forall>j \<ge> ?n. info_path ?dbp i \<noteq> SSTableFilePath ?dbp j" using lt [OF i] by (auto simp: info_path_def)
      with fr show ?thesis unfolding frame_from_def by blast
    qed
    finally show ?thesis .
  qed
  have news': "list_all2 (info_table ?fs ?dbp) news oss"
    using news
  proof (rule list.rel_mono_strong)
    fix i es assume "i \<in> set news" "info_table fs1 ?dbp i es"
    then show "info_table ?fs ?dbp i es" using info_table_cong [OF newp] by blast
  qed
  have outer: "content ?fs q = content fs q" if q: "\<not> table_file ?dbp q" for q
  proof -
    have "content ?fs q = content fs1 q"
      by (rule con) (use q in \<open>auto simp: info_path_def table_file_def\<close>)
    also have "\<dots> = content fs q" using fr q unfolding frame_from_def table_file_def by blast
    finally show ?thesis .
  qed
  have vlog: "content ?fs (vlog_file_path ?dbp i) = content fs (vlog_file_path ?dbp i)" for i by (rule outer) simp
  have wal: "content ?fs (WALFilePath ?dbp i) = content fs (WALFilePath ?dbp i)" for i by (rule outer) simp
  have "content ?fs (ManifestPath ?dbp) = content fs2 (ManifestPath ?dbp)"
    using del by (auto simp: info_path_def)
  then have man: "manifest_says ?db ?fs" by (simp add: manifest_says_def m(3) eqs)
  have "compacted db fs ?fs P X Y R nxt rest (xss @ nss) news oss (db_next_sstable_id db1)"
    unfolding compacted_def
    by (intro conjI ballI allI L nxt_def rest_def list_all2_appendI tabs mr news' dn srt nn keepp vlog wal)
      (use ids del in blast)+
  then have c: "compacted db fs ?fs P X Y R nxt rest (xss @ nss) news oss (db_next_sstable_id ?db)" by simp
  have "?db = db\<lparr>db_next_sstable_id := db_next_sstable_id ?db, db_levels := db_levels ?db\<rparr>"
    using arg_cong [OF db1, of "db_levels_update (\<lambda>_. db_levels ?db)"] by simp
  then show ?thesis using nx outer man by (intro that [OF run' _ c]) simp_all
qed

lemma CompactLevel_refines:
  assumes inv: "db_inv db fs kv" and room: "compact_room (Suc j) db"
    and lvl: "lvl + 1 < max_sstable_levels (db_options db)"
  obtains db' fs' where "CompactLevel (int lvl) db fs = (Status_OK, db', fs')" and "db_inv db' fs' kv"
    and "compact_room j db'" and "db_levels db' ! lvl = []"
    and "db_options db' = db_options db" and "db_immutables db' = db_immutables db"
    and "tables_moved db fs db' fs'"
proof (cases "db_levels db ! lvl = []")
  case True
  have "compact_room j db" using room by (rule compact_room_mono) simp
  with True inv lvl show ?thesis by (intro that [of db fs]) (simp_all add: CompactLevel_def)
next
  case False
  let ?L = "db_levels db" let ?P = "take lvl ?L" and ?X = "?L ! lvl" and ?Y = "?L ! (lvl + 1)" and ?R = "drop (lvl + 2) ?L"
  have len: "lvl + 1 < length ?L" using inv lvl unfolding db_inv_def levels_ok_def by simp
  then have P: "length ?P = lvl" by simp
  have "?X # ?Y # ?R = drop lvl ?L" using len by (simp add: Cons_nth_drop_Suc)
  then have L: "?L = ?P @ ?X # ?Y # ?R" by (simp only: append_take_drop_id)
  obtain db' fs' nxt rest ess news oss where c:
    "CompactLevel (int (length ?P)) db fs = (Status_OK, db', fs')"
    "db' = db\<lparr>db_next_sstable_id := db_next_sstable_id db', db_levels := ?P @ [] # sort_key low (rest @ news) # ?R\<rparr>"
    "compacted db fs fs' ?P ?X ?Y ?R nxt rest ess news oss (db_next_sstable_id db')"
    "unat (db_next_sstable_id db') \<le> unat (db_next_sstable_id db) + (\<Sum>es \<leftarrow> ess. length es)"
    "\<forall>q. \<not> table_file (db_path db) q \<longrightarrow> content fs' q = content fs q" "manifest_says db' fs'"
    by (rule CompactLevel_compacted [OF inv room L False])
  note inv' = db_inv_compacted [OF inv c(3), folded c(2)] and room' = compacted_room [OF c(3) room c(4), folded c(2)]
  have "db_levels db' = ?P @ [] # sort_key low (rest @ news) # ?R" "db_options db' = db_options db"
    "db_immutables db' = db_immutables db"
    by (subst c(2), simp)+
  moreover have "tables_moved db fs db' fs'"
  proof -
    have "logs_of db' = logs_of db" by (subst c(2), simp add: logs_of_def)
    with compacted_sources(1) [OF inv c(3), folded c(2)] c(5,6) CompactLevel_numbered [OF c(1)] show ?thesis
      by (simp add: tables_moved_def)
  qed
  ultimately show ?thesis using c(1) inv' room' P by (intro that [of db' fs']) (simp_all add: nth_append)
qed

lemma compact_levels_refines:
  assumes "db_inv db fs kv" and "compact_room (length lvls + j) db"
    and "\<And>lvl. lvl \<in> set lvls \<Longrightarrow> lvl + 1 < max_sstable_levels (db_options db)"
  shows "\<exists>db' fs'. compact_levels lvls db fs = (Status_OK, db', fs') \<and> db_inv db' fs' kv \<and> compact_room j db' \<and>
    db_options db' = db_options db \<and> db_immutables db' = db_immutables db \<and> tables_moved db fs db' fs'"
  using assms
proof (induction lvls arbitrary: db fs)
  case (Cons lvl lvls)
  show ?case
  proof (cases "db_levels db ! lvl = []")
    case True
    have "compact_room (length lvls + j) db" using Cons.prems(2) by (rule compact_room_mono) simp
    with Cons.IH [OF Cons.prems(1) this] Cons.prems(3) True show ?thesis by simp
  next
    case False
    obtain db1 fs1 where c: "CompactLevel (int lvl) db fs = (Status_OK, db1, fs1)" "db_inv db1 fs1 kv"
      "compact_room (length lvls + j) db1" "db_levels db1 ! lvl = []"
      "db_options db1 = db_options db" "db_immutables db1 = db_immutables db" "tables_moved db fs db1 fs1"
      using Cons.prems by (auto intro: CompactLevel_refines [of db fs kv "length lvls + j" lvl])
    have "lvl' + 1 < max_sstable_levels (db_options db1)" if "lvl' \<in> set lvls" for lvl'
      using Cons.prems(3) that c(5) by simp
    from Cons.IH [OF c(2,3) this] False c show ?thesis by (auto intro: tables_moved_trans)
  qed
qed auto

lemma CompactRange_refines:
  assumes "db_inv db fs kv" and "compact_room (max_sstable_levels (db_options db)) db"
  obtains db' fs' where "CompactRange db fs = (Status_OK, db', fs')" and "db_inv db' fs' kv"
    and "tables_moved db fs db' fs'"
proof -
  let ?n = "max_sstable_levels (db_options db)"
  have "compact_room (length [0..<?n - 1] + 0) db"
    using assms(2) by (rule compact_room_mono) simp
  from compact_levels_refines [OF assms(1) this] have "\<exists>db' fs'. compact_levels [0..<?n - 1] db fs = (Status_OK, db', fs') \<and> db_inv db' fs' kv \<and>
      tables_moved db fs db' fs'"
    by fastforce
  with that show ?thesis by (auto simp: CompactRange_def)
qed

end
