(* ===== verification/Background.thy ===== *)
theory Background
  imports Compact_Refine Db_Start
begin

text \<open>
  The background thread: a round flushes the oldest immutable memtable, drops it and compacts the
  levels that are over their limit. A round keeps the map, and with any faults of the environment
  every round removes one memtable from the queue.
\<close>

section \<open>Rounds\<close>


lemma background_levels_refine:
  assumes "db_inv db fs kv" and "compact_room (length lvls + j) db"
    and "\<And>lvl. lvl \<in> set lvls \<Longrightarrow> lvl + 1 < max_sstable_levels (db_options db)"
  shows "\<exists>db' fs'. fold (\<lambda>lvl (db, fs). if needs_compaction lvl db then snd (CompactLevel (int lvl) db fs) else (db, fs))
      lvls (db, fs) = (db', fs') \<and> db_inv db' fs' kv \<and> compact_room j db' \<and>
    db_options db' = db_options db \<and> db_immutables db' = db_immutables db \<and> tables_moved db fs db' fs'"
  using assms
proof (induction lvls arbitrary: db fs)
  case (Cons lvl lvls)
  obtain db1 fs1 where c: "CompactLevel (int lvl) db fs = (Status_OK, db1, fs1)" "db_inv db1 fs1 kv"
    "compact_room (length lvls + j) db1" "db_levels db1 ! lvl = []"
    "db_options db1 = db_options db" "db_immutables db1 = db_immutables db" "tables_moved db fs db1 fs1"
    using Cons.prems by (auto intro: CompactLevel_refines [of db fs kv "length lvls + j" lvl])
  have r: "compact_room (length lvls + j) db" using Cons.prems(2) by (rule compact_room_mono) simp
  have lv: "lvl' + 1 < max_sstable_levels (db_options db)" if "lvl' \<in> set lvls" for lvl'
    using Cons.prems(3) that by simp
  have lv1: "lvl' + 1 < max_sstable_levels (db_options db1)" if "lvl' \<in> set lvls" for lvl'
    using lv [OF that] c(5) by simp
  show ?case
    using Cons.IH [OF Cons.prems(1) r lv] Cons.IH [OF c(2,3) lv1] c(1,5-7)
    by (auto split: if_splits intro: tables_moved_trans)
qed auto

text \<open>
  Flushes and compactions, with any faults of the environment, change only the levels and the next
  table id. \<open>outside_tables\<close> is everything else.
\<close>

definition outside_tables :: "DBImpl \<Rightarrow> (Options \<times> path \<times> MemTable \<times> MemTable list) \<times> VLog \<times> WAL \<times> u64 \<times> u64" where
  "outside_tables db = ((db_options db, db_path db, db_memtable db, db_immutables db), db_vlog db, db_wal db,
     db_wal_id db, db_sequence_number db)"

lemma outside_tables_upd [simp]:
  "outside_tables (db\<lparr>db_next_sstable_id := n\<rparr>) = outside_tables db"
  "outside_tables (db\<lparr>db_levels := L\<rparr>) = outside_tables db"
  by (simp_all add: outside_tables_def)

lemma FlushMemTable_effect: "FlushMemTable mt db fs = (s, db', fs') \<Longrightarrow> outside_tables db' = outside_tables db"
  by (auto simp: FlushMemTable_def Let_def split: prod.splits option.splits if_splits)

lemma emit_effect: "emit lvl k e mo db fs = (s, mo', db', fs') \<Longrightarrow> outside_tables db' = outside_tables db"
  by (auto simp: emit_def open_table_def Let_def split: prod.splits option.splits if_splits)

lemma merge_loop_effect: "merge_loop lvl iters mo db fs = (s, mo', db', fs') \<Longrightarrow> outside_tables db' = outside_tables db"
  by (rule merge_loop_invariant [where P = "\<lambda>_ db'. outside_tables db' = outside_tables db"]) (auto dest: emit_effect)

lemma CompactLevel_effect: "CompactLevel lv db fs = (s, db', fs') \<Longrightarrow> outside_tables db' = outside_tables db"
  by (auto simp: CompactLevel_def install_def Let_def split: prod.splits sum.splits if_splits dest: merge_loop_effect)

lemma background_compact_refines:
  assumes "db_inv db fs kv" and "compact_room (max_sstable_levels (db_options db)) db"
  obtains db' fs' where "background_compact db fs = (db', fs')" and "db_inv db' fs' kv"
    and "db_options db' = db_options db" and "db_immutables db' = db_immutables db"
    and "tables_moved db fs db' fs'"
proof -
  let ?n = "max_sstable_levels (db_options db)"
  have "compact_room (length [0..<?n - 1] + 0) db"
    using assms(2) by (rule compact_room_mono) simp
  from background_levels_refine [OF assms(1) this] that show ?thesis
    unfolding background_compact_def by fastforce
qed

text \<open>
  Room for one round of the background thread: the oldest immutable memtable makes a table, and
  the tables with it leave room for a compaction of every level.
\<close>

definition round_room :: "DBImpl \<Rightarrow> bool" where
  "round_room db \<longleftrightarrow>
     (case db_immutables db of
        [] \<Rightarrow> True
      | mt # _ \<Rightarrow>
          (let es = GetSortedEntries mt; infos = concat (db_levels db);
               n = length es + (\<Sum>info \<leftarrow> infos. unat (rd_num_entries (info_reader info)))
           in keys_fit es \<and>
              length (sst_data es) + (\<Sum>info \<leftarrow> infos. unat (rd_data_end_offset (info_reader info))) < 2 ^ 60 \<and>
              n * bloom_bits_per_key (db_options db) < 2 ^ 60 \<and>
              unat (db_next_sstable_id db) + 1 + max_sstable_levels (db_options db) * n < 2 ^ 32))"

lemma round_room_flush:
  assumes inv: "db_inv db fs kv" and imm: "db_immutables db = mt # mts" and room: "round_room db"
  shows "MemTable_Count mt \<noteq> 0 \<Longrightarrow> sst_ok (db_options db) (GetSortedEntries mt)"
    and "db_next_sstable_id db + 1 \<noteq> 0"
    and "compact_room (max_sstable_levels (db_options db)) (pop_front (fst (snd (FlushMemTable mt db fs))))"
proof -
  let ?es = "GetSortedEntries mt" and ?infos = "concat (db_levels db)" and ?m = "max_sstable_levels (db_options db)"
  let ?N = "\<Sum>i \<leftarrow> ?infos. unat (rd_num_entries (info_reader i))"
  let ?D = "\<Sum>i \<leftarrow> ?infos. unat (rd_data_end_offset (info_reader i))"
  from inv have rel: "reliable fs" and mem: "mem_ok db" and lv: "levels_ok db fs" unfolding db_inv_def by blast+
  have r: "keys_fit ?es" "length (sst_data ?es) + ?D < 2 ^ 60" "(length ?es + ?N) * bloom_bits_per_key (db_options db) < 2 ^ 60"
    "unat (db_next_sstable_id db) + 1 + ?m * (length ?es + ?N) < 2 ^ 32"
    using room by (simp_all only: round_room_def imm list.case Let_def)
  have mt: "mt_invar mt" using mem by (simp add: mem_ok_def imm)
  show ok: "sst_ok (db_options db) ?es" if "MemTable_Count mt \<noteq> 0"
    using r mt that GetSortedEntries_sorted [OF mt] Count_entries [OF mt]
    by (intro sst_ok_small) (auto simp: keys_sorted_def algebra_simps)
  have u: "unat (db_next_sstable_id db) + 1 < 2 ^ 32" using r(4) by linarith
  then show id: "db_next_sstable_id db + 1 \<noteq> 0" by (intro plus_one_nonzero) simp
  show "compact_room ?m (pop_front (fst (snd (FlushMemTable mt db fs))))"
  proof (cases "MemTable_Count mt = 0")
    case True
    have "?N * bloom_bits_per_key (db_options db) \<le> (length ?es + ?N) * bloom_bits_per_key (db_options db)"
      "?m * ?N \<le> ?m * (length ?es + ?N)" by (simp_all only: le_add2 mult_le_mono1 mult_le_mono2)
    with True r have "?D < 2 ^ 60" "?N * bloom_bits_per_key (db_options db) < 2 ^ 60"
      "unat (db_next_sstable_id db) + ?m * ?N < 2 ^ 32" by linarith+
    with True show ?thesis
      by (simp add: FlushMemTable_def pop_front_def compact_room_def Let_def)
  next
    case False
    let ?id = "db_next_sstable_id db"
    obtain info fs' where fl: "FlushMemTable mt db fs = (Status_OK,
        db\<lparr>db_next_sstable_id := ?id + 1, db_levels := (db_levels db)[0 := db_levels db ! 0 @ [info]]\<rparr>, fs')"
      and it: "info_table fs' (db_path db) info ?es"
      using FlushMemTable_reliable [OF rel False ok [OF False]] by metis
    obtain L0 Ls where L: "db_levels db = L0 # Ls" using lv by (cases "db_levels db") (auto simp: levels_ok_def)
    have "unat (?id + 1) = unat ?id + 1" using unat_Suc_nonzero [OF id] by simp
    with r(2-4) show ?thesis
      by (simp add: fl pop_front_def compact_room_def Let_def L info_table_sizes [OF it] algebra_simps)
  qed
qed

lemma BackgroundFlush_round_refines:
  assumes inv: "db_inv db fs kv" and room: "round_room db"
  obtains db' fs' where "BackgroundFlush_round db fs = (db', fs')" and "db_inv db' fs' kv"
    and "db_immutables db' = tl (db_immutables db)" and "tables_moved db fs db' fs'"
proof (cases "db_immutables db")
  case Nil
  with inv show ?thesis by (intro that [of db fs]) (simp_all add: BackgroundFlush_round_def)
next
  case (Cons mt mts)
  note rr = round_room_flush [OF inv Cons room]
  obtain db1 fs1 where f: "FlushMemTable mt db fs = (Status_OK, db1, fs1)" "db_inv (pop_front db1) fs1 kv"
    "tables_moved db fs (pop_front db1) fs1"
    by (rule flush_front_refines [OF inv Cons rr(1,2)])
  have "db_options db1 = db_options db" "db_immutables db1 = db_immutables db"
    using FlushMemTable_effect [OF f(1)] by (simp_all add: outside_tables_def)
  with rr(3) f(1) have room1: "compact_room (max_sstable_levels (db_options (pop_front db1))) (pop_front db1)"
    by (simp add: pop_front_def)
  obtain db2 fs2 where b: "background_compact (pop_front db1) fs1 = (db2, fs2)" "db_inv db2 fs2 kv"
    "db_options db2 = db_options (pop_front db1)" "db_immutables db2 = db_immutables (pop_front db1)"
    "tables_moved (pop_front db1) fs1 db2 fs2"
    by (rule background_compact_refines [OF f(2) room1])
  show ?thesis
    by (rule that [of db2 fs2])
      (use f(1) b Cons \<open>db_immutables db1 = db_immutables db\<close> tables_moved_trans [OF f(3) b(5)] in
        \<open>simp_all add: BackgroundFlush_round_def flush_front_def pop_front_def\<close>)
qed

lemma background_levels_effect:
  "fold (\<lambda>lvl (db, fs). if needs_compaction lvl db then snd (CompactLevel (int lvl) db fs) else (db, fs)) lvls (db, fs) =
    (db', fs') \<Longrightarrow> outside_tables db' = outside_tables db"
proof (induction lvls arbitrary: db fs)
  case (Cons lvl lvls)
  obtain s db1 fs1 where c: "CompactLevel (int lvl) db fs = (s, db1, fs1)" by (metis prod_cases3)
  show ?case
    using Cons.prems CompactLevel_effect [OF c]
      Cons.IH [of db fs] Cons.IH [of db1 fs1] c by (auto split: if_splits)
qed simp

lemma BackgroundFlush_round_pops:
  "db_immutables (fst (BackgroundFlush_round db fs)) = tl (db_immutables db)"
proof (cases "db_immutables db")
  case (Cons mt mts)
  obtain s db1 fs1 where f: "FlushMemTable mt db fs = (s, db1, fs1)" by (metis prod_cases3)
  obtain db2 fs2 where b: "background_compact (pop_front db1) fs1 = (db2, fs2)" by force
  have "db_immutables db1 = db_immutables db" "db_immutables db2 = db_immutables (pop_front db1)"
    using FlushMemTable_effect [OF f] background_levels_effect [OF b [unfolded background_compact_def]]
    by (simp_all add: outside_tables_def)
  with f b Cons show ?thesis by (simp add: BackgroundFlush_round_def flush_front_def pop_front_def)
qed (simp add: BackgroundFlush_round_def)

text \<open>The thread's loop: \<open>n\<close> rounds.\<close>

fun background_rounds :: "nat \<Rightarrow> DBImpl \<Rightarrow> fs \<Rightarrow> DBImpl \<times> fs" where
  "background_rounds 0 db fs = (db, fs)"
| "background_rounds (Suc n) db fs = (let (db, fs) = BackgroundFlush_round db fs in background_rounds n db fs)"

lemma background_rounds_pop: "db_immutables (fst (background_rounds n db fs)) = drop n (db_immutables db)"
proof (induction n arbitrary: db fs)
  case (Suc n)
  obtain db1 fs1 where r: "BackgroundFlush_round db fs = (db1, fs1)" by force
  with BackgroundFlush_round_pops [of db fs] Suc show ?case by (simp add: drop_Suc)
qed simp

section \<open>Examples\<close>

text \<open>The database after one write and one flush: a table in level 0.\<close>

lemma round_room_example:
  obtains db fs where "db_inv db fs [[1] \<mapsto> [2]]" and "round_room db" and "length (db_immutables db) = 1"
    and "\<exists>mt db1 fs1. db_immutables db = [mt] \<and> FlushMemTable mt db fs = (Status_OK, db1, fs1) \<and>
      db_inv (pop_front db1) fs1 [[1] \<mapsto> [2]] \<and>
      compact_room (max_sstable_levels (db_options (pop_front db1))) (pop_front db1) \<and>
      max_sstable_levels (db_options (pop_front db1)) = 7"
proof -
  obtain db fs mt where i: "db_inv db fs [[1] \<mapsto> [2]]" "db_immutables db = [mt]"
    "sst_ok (db_options db) (GetSortedEntries mt)" "db_next_sstable_id db = 1"
    "db_options db = (default_Options (\<lambda>_ _. True))\<lparr>memtable_size_limit := 0\<rparr>"
    "db_levels db = replicate (max_sstable_levels (db_options db)) []" "\<exists>e. GetSortedEntries mt = [([1], e)]"
    by (rule db_with_immutable)
  from i(7) obtain e where e: "GetSortedEntries mt = [([1], e)]" by blast
  have rr: "round_room db"
    using length_EncodeVarint32(2) [of 1]
    by (simp add: round_room_def i e Let_def keys_fit_def length_sst_entry default_Options_def)
  note r = round_room_flush [OF i(1,2) rr]
  obtain db1 fs1 where f: "FlushMemTable mt db fs = (Status_OK, db1, fs1)" "db_inv (pop_front db1) fs1 [[1] \<mapsto> [2]]"
    by (rule flush_front_refines [OF i(1,2) r(1,2)])
  have "db_options db1 = db_options db" using FlushMemTable_effect [OF f(1)] by (simp add: outside_tables_def)
  then have "compact_room (max_sstable_levels (db_options (pop_front db1))) (pop_front db1)"
    "max_sstable_levels (db_options (pop_front db1)) = 7"
    using r(3) f(1) i(5) by (simp_all add: pop_front_def default_Options_def)
  with f i rr show ?thesis by (intro that [of db fs]) auto
qed

section \<open>Properties\<close>

text \<open>
  C6: compacting a level succeeds and keeps the map the database stands for: the level is empty
  afterwards, its tables and the overlapping ones of the next level are merged into tables that
  hold the newest entry of every key, and deletions are dropped only where no deeper level has
  the key. The options and the queue of immutable memtables stay as they are.
\<close>
theorem compact_level_refines:
  assumes "db_inv db fs kv" and "compact_room (Suc j) db" and "lvl + 1 < max_sstable_levels (db_options db)"
  shows "\<exists>db' fs'. CompactLevel (int lvl) db fs = (Status_OK, db', fs') \<and> db_inv db' fs' kv \<and>
    compact_room j db' \<and> db_levels db' ! lvl = [] \<and> db_options db' = db_options db \<and>
    db_immutables db' = db_immutables db"
  by (rule CompactLevel_refines [OF assms]) blast

theorem compact_level_refines_witness:
  "\<exists>db fs db' fs'. CompactLevel 0 db fs = (Status_OK, db', fs') \<and> db_inv db' fs' [[1] \<mapsto> [2]] \<and> db_levels db' ! 0 = []"
proof -
  obtain db fs where ex: "\<exists>mt db1 fs1. db_immutables db = [mt] \<and> FlushMemTable mt db fs = (Status_OK, db1, fs1) \<and>
      db_inv (pop_front db1) fs1 [[1] \<mapsto> [2]] \<and>
      compact_room (max_sstable_levels (db_options (pop_front db1))) (pop_front db1) \<and>
      max_sstable_levels (db_options (pop_front db1)) = 7"
    by (rule round_room_example)
  then obtain db1 fs1 where d: "db_inv (pop_front db1) fs1 [[1] \<mapsto> [2]]" "compact_room (Suc 6) (pop_front db1)"
    "0 + 1 < max_sstable_levels (db_options (pop_front db1))"
    by auto
  from compact_level_refines [OF d] show ?thesis by auto
qed



text \<open>
  C8: a round of the background thread (flush of the oldest immutable memtable, its removal and
  the compactions that are due) keeps the map the database stands for.
\<close>
theorem background_refines:
  assumes "db_inv db fs kv" and "round_room db"
  shows "\<exists>db' fs'. BackgroundFlush_round db fs = (db', fs') \<and> db_inv db' fs' kv \<and>
    db_immutables db' = tl (db_immutables db)"
  by (rule BackgroundFlush_round_refines [OF assms]) blast

theorem background_refines_witness:
  "\<exists>db fs db' fs'. length (db_immutables db) = 1 \<and> BackgroundFlush_round db fs = (db', fs') \<and>
     db_inv db' fs' [[1] \<mapsto> [2]] \<and> db_immutables db' = []"
proof -
  obtain db fs where d: "db_inv db fs [[1] \<mapsto> [2]]" "round_room db" "length (db_immutables db) = 1"
    by (rule round_room_example)
  then have "tl (db_immutables db) = []" by (cases "db_immutables db") simp_all
  with background_refines [OF d(1,2)] d(3) show ?thesis by metis
qed

text \<open>
  C9: the background thread makes progress: whatever fails in the environment, after as many
  rounds as there are immutable memtables the queue is empty, and until then every round removes
  exactly the oldest one.
\<close>
theorem background_drains:
  "db_immutables (fst (background_rounds n db fs)) = drop n (db_immutables db) \<and>
   db_immutables (fst (background_rounds (length (db_immutables db)) db fs)) = []"
  by (simp add: background_rounds_pop)

end
