(* ===== verification/Db_Interface.thy ===== *)
theory Db_Interface
  imports Gc_Refine Background
begin

text \<open>
  The class \<open>DB\<close> of \<open>include/splitkv/db.h\<close>: the virtual methods as a record of
  functions on the state of the implementation, the convenience methods, the contract a
  client relies on, and its proof for \<open>DBImpl\<close>.
\<close>

section \<open>The class\<close>

record 's DB =
  vt_Put :: "WriteOptions \<Rightarrow> bytes \<Rightarrow> bytes \<Rightarrow> 's \<Rightarrow> Status \<times> 's"
  vt_Get :: "ReadOptions \<Rightarrow> bytes \<Rightarrow> 's \<Rightarrow> Status \<times> bytes option \<times> 's"
  vt_Delete :: "WriteOptions \<Rightarrow> bytes \<Rightarrow> 's \<Rightarrow> Status \<times> 's"
  vt_CompactRange :: "'s \<Rightarrow> Status \<times> 's"
  vt_RunGC :: "'s \<Rightarrow> Status \<times> 's"
  vt_GetStats :: "'s \<Rightarrow> bytes"

definition default_WriteOptions :: WriteOptions where
  "default_WriteOptions = \<lparr>sync = False\<rparr>"

definition default_ReadOptions :: ReadOptions where
  "default_ReadOptions = \<lparr>verify_checksums = False\<rparr>"

definition Put :: "'s DB \<Rightarrow> bytes \<Rightarrow> bytes \<Rightarrow> 's \<Rightarrow> Status \<times> 's" where
  "Put vt key val s = vt_Put vt default_WriteOptions key val s"

definition Get :: "'s DB \<Rightarrow> bytes \<Rightarrow> 's \<Rightarrow> Status \<times> bytes option \<times> 's" where
  "Get vt key s = vt_Get vt default_ReadOptions key s"

definition Delete :: "'s DB \<Rightarrow> bytes \<Rightarrow> 's \<Rightarrow> Status \<times> 's" where
  "Delete vt key s = vt_Delete vt default_WriteOptions key s"

text \<open>The implementation: the object and the file system it works on.\<close>

type_synonym db_state = "DBImpl \<times> fs"

definition DBImpl_DB :: "db_state DB" where
  "DBImpl_DB =
     \<lparr>vt_Put = \<lambda>wo key val (db, fs). DB_Put wo key val db fs,
      vt_Get = \<lambda>ro key (db, fs). (let (s, val, db) = DB_Get ro key db fs in (s, val, (db, fs))),
      vt_Delete = \<lambda>wo key (db, fs). DB_Delete wo key db fs,
      vt_CompactRange = \<lambda>(db, fs). CompactRange db fs,
      vt_RunGC = \<lambda>(db, fs). RunGC db fs,
      vt_GetStats = \<lambda>(db, fs). GetStats db\<rparr>"

section \<open>The contract\<close>

text \<open>
  \<open>inv n s kv\<close>: the state \<open>s\<close> is sound, stands for the map \<open>kv\<close> and has
  room for \<open>n\<close> more writes. \<open>fits\<close> says which keys and values can be stored.
\<close>

locale kv_store =
  fixes vt :: "'s DB" and inv :: "nat \<Rightarrow> 's \<Rightarrow> (bytes \<rightharpoonup> bytes) \<Rightarrow> bool" and fits :: "bytes \<Rightarrow> bytes \<Rightarrow> bool"
  assumes Put_ok: "inv (Suc n) s kv \<Longrightarrow> fits k v \<Longrightarrow> \<exists>s'. Put vt k v s = (Status_OK, s') \<and> inv n s' (kv(k \<mapsto> v))"
    and Delete_ok: "inv (Suc n) s kv \<Longrightarrow> fits k [] \<Longrightarrow> \<exists>s'. Delete vt k s = (Status_OK, s') \<and> inv n s' (kv(k := None))"
    and Get_ok: "inv n s kv \<Longrightarrow> \<exists>st s'. Get vt k s = (st, kv k, s') \<and> inv n s' kv \<and>
      (case kv k of Some v \<Rightarrow> st = Status_OK | None \<Rightarrow> IsNotFound st \<and> \<not> ok st)"
    and inv_mono: "inv (Suc n) s kv \<Longrightarrow> inv n s kv"
begin

lemma inv_less: "inv n s kv \<Longrightarrow> m \<le> n \<Longrightarrow> inv m s kv"
  by (induction n) (auto simp: le_Suc_eq intro: inv_mono)

lemma Get_after_Put:
  assumes "inv (Suc n) s kv" and "fits k v"
  obtains s' s'' where "Put vt k v s = (Status_OK, s')" and "Get vt k s' = (Status_OK, Some v, s'')"
    and "inv n s'' (kv(k \<mapsto> v))"
proof -
  from Put_ok [OF assms] obtain s' where p: "Put vt k v s = (Status_OK, s')" "inv n s' (kv(k \<mapsto> v))" by blast
  from Get_ok [OF p(2), of k] p(1) that show ?thesis by auto
qed

end

definition db_rel :: "nat \<Rightarrow> db_state \<Rightarrow> (bytes \<rightharpoonup> bytes) \<Rightarrow> bool" where
  "db_rel n s kv \<longleftrightarrow> db_inv (fst s) (snd s) kv \<and> room n (fst s)"

definition kv_fits :: "bytes \<Rightarrow> bytes \<Rightarrow> bool" where
  "kv_fits k v \<longleftrightarrow> length k + length v + 29 < 2 ^ 32"

lemma DB_Put_refines:
  assumes "db_rel (Suc n) (db, fs) kv" and "kv_fits k v"
  obtains s' where "DB_Put wo k v db fs = (Status_OK, s')" and "db_rel n s' (kv(k \<mapsto> v))"
proof -
  from assms have a: "db_inv db fs kv" "list_all entry_fits (WriteBatch_Put WriteBatch_new k v)"
    "room (length (WriteBatch_Put WriteBatch_new k v) + n) db"
    by (simp_all add: db_rel_def kv_fits_def entry_fits_def WriteBatch_Put_def WriteBatch_new_def)
  show ?thesis
    by (rule DB_Write_refines [OF a, of wo])
      (rule that, auto simp: DB_Put_def db_rel_def apply_batch_def WriteBatch_Put_def WriteBatch_new_def)
qed

lemma DB_Delete_refines:
  assumes "db_rel (Suc n) (db, fs) kv" and "kv_fits k []"
  obtains s' where "DB_Delete wo k db fs = (Status_OK, s')" and "db_rel n s' (kv(k := None))"
proof -
  from assms have a: "db_inv db fs kv" "list_all entry_fits (WriteBatch_Delete WriteBatch_new k)"
    "room (length (WriteBatch_Delete WriteBatch_new k) + n) db"
    by (simp_all add: db_rel_def kv_fits_def entry_fits_def WriteBatch_Delete_def WriteBatch_new_def)
  show ?thesis
    by (rule DB_Write_refines [OF a, of wo])
      (rule that, auto simp: DB_Delete_def db_rel_def apply_batch_def WriteBatch_Delete_def WriteBatch_new_def)
qed

lemma DB_Get_rel:
  assumes "db_rel n (db, fs) kv"
  obtains st db' where "DB_Get ro k db fs = (st, kv k, db')" and "db_rel n (db', fs) kv"
    and "case kv k of Some v \<Rightarrow> st = Status_OK | None \<Rightarrow> IsNotFound st \<and> \<not> ok st"
proof -
  have i: "db_inv db fs kv" using assms by (simp add: db_rel_def)
  obtain db' where g: "DB_Get ro k db fs =
      (case kv k of
         Some v \<Rightarrow> (Status_OK, Some v, db')
       | None \<Rightarrow> (NotFound (if find_latest db fs k = None then str ''Key not found''
                            else str ''Key deleted''), None, db'))" "db_inv db' fs kv"
    "db' = db\<lparr>db_vlog := (db_vlog db)\<lparr>vl_readers := vl_readers (db_vlog db')\<rparr>\<rparr>"
    by (rule DB_Get_refines [OF i])
  have "room n db'" using assms by (subst g(3)) (simp add: db_rel_def room_def)
  with g(1,2) show ?thesis
    by (cases "kv k") (auto intro!: that simp: db_rel_def status_defs)
qed

interpretation db: kv_store DBImpl_DB db_rel kv_fits
proof
  show "\<exists>s'. Put DBImpl_DB k v s = (Status_OK, s') \<and> db_rel n s' (kv(k \<mapsto> v))"
    if rl: "db_rel (Suc n) s kv" "kv_fits k v" for n s kv k v
  proof (cases s)
    case (Pair db fs)
    obtain s' where "DB_Put default_WriteOptions k v db fs = (Status_OK, s')" "db_rel n s' (kv(k \<mapsto> v))"
      by (rule DB_Put_refines [OF rl [unfolded Pair]])
    then show ?thesis by (simp add: Pair Put_def DBImpl_DB_def)
  qed
  show "\<exists>s'. Delete DBImpl_DB k s = (Status_OK, s') \<and> db_rel n s' (kv(k := None))"
    if rl: "db_rel (Suc n) s kv" "kv_fits k []" for n s kv k
  proof (cases s)
    case (Pair db fs)
    obtain s' where "DB_Delete default_WriteOptions k db fs = (Status_OK, s')" "db_rel n s' (kv(k := None))"
      by (rule DB_Delete_refines [OF rl [unfolded Pair]])
    then show ?thesis by (simp add: Pair Delete_def DBImpl_DB_def)
  qed
  show "\<exists>st s'. Get DBImpl_DB k s = (st, kv k, s') \<and> db_rel n s' kv \<and>
      (case kv k of Some v \<Rightarrow> st = Status_OK | None \<Rightarrow> IsNotFound st \<and> \<not> ok st)"
    if rl: "db_rel n s kv" for n s kv k
  proof (cases s)
    case (Pair db fs)
    obtain st db' where "DB_Get default_ReadOptions k db fs = (st, kv k, db')" "db_rel n (db', fs) kv"
      "case kv k of Some v \<Rightarrow> st = Status_OK | None \<Rightarrow> IsNotFound st \<and> \<not> ok st"
      by (rule DB_Get_rel [OF rl [unfolded Pair]])
    then show ?thesis by (auto simp: Pair Get_def DBImpl_DB_def)
  qed
  show "db_rel n s kv" if "db_rel (Suc n) s kv" for n s kv
    using that by (simp add: db_rel_def room_def)
qed

end
