(* ===== verification/Server.thy ===== *)
theory Server
  imports Db_Interface
begin

text \<open>
  The TCP server of \<open>tools/server.cpp\<close>: \<open>handle_client\<close> collects what it reads
  from a connection, cuts it into lines and answers one command per line. A connection is the
  list of the chunks that successive reads return; a read that returns nothing ends it.
\<close>

section \<open>Lines\<close>

text \<open>\<open>std::string::find\<close>: the first position of a pattern.\<close>

fun find_str :: "bytes \<Rightarrow> bytes \<Rightarrow> nat option" where
  "find_str pat [] = (if pat = [] then Some 0 else None)"
| "find_str pat (b # s) = (if take (length pat) (b # s) = pat then Some 0 else map_option Suc (find_str pat s))"

definition CR :: byte where "CR = 13"
definition LF :: byte where "LF = 10"

definition find_line_end :: "bytes \<Rightarrow> nat option" where
  "find_line_end request = (case find_str [CR, LF] request of Some pos \<Rightarrow> Some pos | None \<Rightarrow> find_str [LF] request)"

definition next_line :: "bytes \<Rightarrow> (bytes \<times> bytes) option" where
  "next_line request =
     (case find_line_end request of
        None \<Rightarrow> None
      | Some pos \<Rightarrow> Some (take pos request, drop (pos + (if request ! pos = CR then 2 else 1)) request))"

section \<open>Commands\<close>

definition crlf :: "bytes \<Rightarrow> bytes" where
  "crlf s = s @ [CR, LF]"

definition err_response :: "Status \<Rightarrow> bytes" where
  "err_response s = crlf (str ''-ERR '' @ Status_ToString s)"

definition bulk_response :: "bytes \<Rightarrow> bytes" where
  "bulk_response val = crlf (str ''$'' @ show_nat (length val)) @ crlf val"

definition handle_line :: "'s DB \<Rightarrow> bytes \<Rightarrow> 's \<Rightarrow> bytes \<times> 's" where
  "handle_line vt line st =
     (let (cmd, _, iss) = read_word line in
      if cmd = str ''PING'' then (crlf (str ''+PONG''), st)
      else if cmd = str ''PUT'' then
        (let (key, _, iss) = read_word iss;
             (val, _, iss) = read_word iss;
             (s, st) = Put vt key val st
         in (if ok s then crlf (str ''+OK'') else err_response s, st))
      else if cmd = str ''GET'' then
        (let (key, _, iss) = read_word iss;
             (s, val, st) = Get vt key st
         in (if ok s then bulk_response (the val)
             else if IsNotFound s then crlf (str ''$-1'')
             else err_response s, st))
      else if cmd = str ''DEL'' then
        (let (key, _, iss) = read_word iss;
             (s, st) = Delete vt key st
         in (if ok s then crlf (str ''+OK'') else err_response s, st))
      else if cmd = str ''STATS'' then (bulk_response (vt_GetStats vt st), st)
      else (crlf (str ''-ERR unknown command''), st))"

section \<open>The connection\<close>

lemma find_str_less: "find_str pat s = Some pos \<Longrightarrow> pat \<noteq> [] \<Longrightarrow> pos < length s"
  by (induction pat s arbitrary: pos rule: find_str.induct) (auto split: if_splits)

lemma next_line_less: "next_line request = Some (line, rest) \<Longrightarrow> length rest < length request"
  by (auto simp: next_line_def find_line_end_def split: option.splits dest!: find_str_less)

text \<open>The loop over the lines of the request: the responses, what is left of it, and the state.\<close>

function handle_request :: "'s DB \<Rightarrow> bytes \<Rightarrow> 's \<Rightarrow> bytes list \<times> bytes \<times> 's" where
  "handle_request vt request st =
     (case next_line request of
        None \<Rightarrow> ([], request, st)
      | Some (line, request) \<Rightarrow>
          (let (response, st) = handle_line vt line st;
               (responses, request, st) = handle_request vt request st
           in (response # responses, request, st)))"
  by pat_completeness auto
termination
  by (relation "measure (\<lambda>(vt, request, st). length request)") (auto dest: next_line_less)

declare handle_request.simps [simp del]

text \<open>What is sent, in order; the results of the sends are ignored.\<close>

fun client_loop :: "'s DB \<Rightarrow> bytes list \<Rightarrow> bytes \<Rightarrow> 's \<Rightarrow> bytes list \<times> 's" where
  "client_loop vt [] request st = ([], st)"
| "client_loop vt (buffer # reads) request st =
     (if buffer = [] then ([], st)
      else let (sent, request, st) = handle_request vt (request @ buffer) st;
               (more, st) = client_loop vt reads request st
           in (sent @ more, st))"

definition handle_client :: "'s DB \<Rightarrow> bytes list \<Rightarrow> 's \<Rightarrow> bytes list \<times> 's" where
  "handle_client vt reads st = client_loop vt reads [] st"

section \<open>Start\<close>

text \<open>
  \<open>main\<close> up to the accept loop: the usage message, the port, and the database. The
  exception of \<open>std::stoi\<close> is not caught. Each accepted connection is then handled by a
  thread of its own that runs \<open>handle_client\<close>.
\<close>

datatype server_start = Server_Exit int bytes | Server_Throws | Server_Listens int DBImpl

definition stoi :: "bytes \<Rightarrow> int option" where
  "stoi s =
     (case scan_number s of
        (neg, ds, _) \<Rightarrow>
          (let n = (if neg then - int (dec_val ds) else int (dec_val ds))
           in if ds = [] \<or> n < - (2 ^ 31) \<or> 2 ^ 31 \<le> n then None else Some n))"

definition server_main :: "(u64 \<Rightarrow> u64 \<Rightarrow> bool) \<Rightarrow> bytes list \<Rightarrow> fs \<Rightarrow> server_start \<times> fs" where
  "server_main gc argv fs =
     (if length argv < 2
      then (Server_Exit 1 (str ''Usage: '' @ concat (take 1 argv) @ str '' <db_path> [port]'' @ [LF]), fs)
      else case (if 3 \<le> length argv then stoi (argv ! 2) else Some 7777) of
        None \<Rightarrow> (Server_Throws, fs)
      | Some port \<Rightarrow>
          (case DB_Open (default_Options gc) (argv ! 1) fs of
             (s, Some db, fs) \<Rightarrow> (Server_Listens port db, fs)
           | (s, None, fs) \<Rightarrow> (Server_Exit 1 (str ''Failed to open DB: '' @ Status_ToString s @ [LF]), fs)))"

section \<open>Framing\<close>

text \<open>Lines without line ends, each sent with both characters, are a framed log.\<close>

definition line_valid :: "bytes \<Rightarrow> bool" where
  "line_valid l \<longleftrightarrow> CR \<notin> set l \<and> LF \<notin> set l"

lemma find_crlf: "CR \<notin> set l \<Longrightarrow> find_str [CR, LF] (l @ CR # LF # rest) = Some (length l)"
  by (induction l) auto

lemma find_no_lf: "LF \<notin> set s \<Longrightarrow> find_str [CR, LF] s = None \<and> find_str [LF] s = None"
proof (induction s)
  case (Cons b s)
  then show ?case by (cases s) auto
qed simp

lemma next_line_no_cr: "CR \<notin> set l \<Longrightarrow> next_line (crlf l @ rest) = Some (l, rest)"
  by (simp add: next_line_def find_line_end_def find_crlf crlf_def)

lemma next_line_crlf: "line_valid l \<Longrightarrow> next_line (crlf l @ rest) = Some (l, rest)"
  by (rule next_line_no_cr) (simp add: line_valid_def)

lemma next_line_torn: "line_valid l \<Longrightarrow> strict_prefix t (crlf l) \<Longrightarrow> next_line t = None"
proof -
  assume l: "line_valid l" and t: "strict_prefix t (crlf l)"
  have "crlf l = (l @ [CR]) @ [LF]" by (simp add: crlf_def)
  with t have "prefix t (l @ [CR])" by (metis prefix_snoc strict_prefix_def)
  then have "set t \<subseteq> set l \<union> {CR}" using set_mono_prefix by fastforce
  then have "LF \<notin> set t" using l by (auto simp: line_valid_def CR_def LF_def)
  from find_no_lf [OF this] show ?thesis by (simp add: next_line_def find_line_end_def)
qed

interpretation crlf_log: framed_log crlf next_line line_valid
proof
  show "next_line (crlf l @ rest) = Some (l, rest)" if "line_valid l" for l rest
    using that by (rule next_line_crlf)
  show "next_line t = None" if "line_valid l" "strict_prefix t (crlf l)" for l t
    using that by (rule next_line_torn)
qed (simp_all add: crlf_def next_line_def find_line_end_def)

text \<open>The commands of a list of lines, one after another.\<close>

fun run_lines :: "'s DB \<Rightarrow> bytes list \<Rightarrow> 's \<Rightarrow> bytes list \<times> 's" where
  "run_lines vt [] st = ([], st)"
| "run_lines vt (l # ls) st =
     (let (r, st) = handle_line vt l st; (rs, st) = run_lines vt ls st in (r # rs, st))"

lemma run_lines_append:
  "run_lines vt (ls @ ls') st =
    (let (rs, st) = run_lines vt ls st; (rs', st) = run_lines vt ls' st in (rs @ rs', st))"
  by (induction ls arbitrary: st) (auto split: prod.splits)

lemma handle_request_lines:
  "list_all line_valid ls \<Longrightarrow> next_line t = None \<Longrightarrow>
    handle_request vt (crlf_log.log_of ls @ t) st = (let (rs, st) = run_lines vt ls st in (rs, t, st))"
proof (induction ls arbitrary: st)
  case Nil
  then show ?case by (simp add: handle_request.simps)
next
  case (Cons l ls)
  have nl: "next_line (crlf_log.log_of (l # ls) @ t) = Some (l, crlf_log.log_of ls @ t)"
    using Cons.prems by (simp add: next_line_crlf)
  show ?case
    by (subst handle_request.simps, subst nl) (use Cons in \<open>auto split: prod.splits\<close>)
qed

lemma client_loop_lines:
  "list_all line_valid ls \<Longrightarrow> [] \<notin> set reads \<Longrightarrow> request @ concat reads = crlf_log.log_of ls \<Longrightarrow>
    next_line request = None \<Longrightarrow> client_loop vt reads request st = run_lines vt ls st"
proof (induction reads arbitrary: request ls st)
  case Nil
  then show ?case by (cases ls) (auto simp: next_line_crlf)
next
  case (Cons b reads)
  have "prefix (request @ b) (crlf_log.log_of ls)"
    by (rule prefixI [of _ _ "concat reads"]) (simp add: Cons.prems(3) [symmetric])
  then obtain k t where k: "k \<le> length ls" "request @ b = crlf_log.log_of (take k ls) @ t"
    "t = [] \<or> (k < length ls \<and> strict_prefix t (crlf (ls ! k)))"
    by (rule crlf_log.prefix_of_log)
  have ok: "list_all line_valid (take k ls)" "list_all line_valid (drop k ls)"
    using Cons.prems(1) by (auto simp: list_all_iff dest: in_set_takeD in_set_dropD)
  have t: "next_line t = None"
    using k(3) Cons.prems(1) next_line_torn [of "ls ! k" t] crlf_log.dec_empty by (auto simp: list_all_length)
  have "crlf_log.log_of ls = crlf_log.log_of (take k ls) @ crlf_log.log_of (drop k ls)"
    by (metis append_take_drop_id crlf_log.log_of_simps(3))
  with Cons.prems(3) have "crlf_log.log_of (take k ls) @ t @ concat reads =
      crlf_log.log_of (take k ls) @ crlf_log.log_of (drop k ls)"
    using k(2) by (metis append.assoc concat.simps(2))
  then have rest: "t @ concat reads = crlf_log.log_of (drop k ls)" by simp
  have IH: "client_loop vt reads t st' = run_lines vt (drop k ls) st'" for st'
    using Cons.IH [OF ok(2) _ rest t] Cons.prems(2) by simp
  have "run_lines vt ls st = run_lines vt (take k ls @ drop k ls) st" by simp
  also have "\<dots> = client_loop vt (b # reads) request st"
    unfolding run_lines_append
    using Cons.prems(2) k(2) handle_request_lines [OF ok(1) t, of vt st] IH by (auto split: prod.splits)
  finally show ?case ..
qed

section \<open>The commands refine the map\<close>

text \<open>The command language over an abstract map.\<close>

definition line_spec :: "bytes \<Rightarrow> (bytes \<rightharpoonup> bytes) \<Rightarrow> bytes \<times> (bytes \<rightharpoonup> bytes)" where
  "line_spec line kv =
     (let (cmd, _, args) = read_word line; (key, _, args') = read_word args; (val, _, _) = read_word args'
      in if cmd = str ''PING'' then (str ''+PONG'' @ [CR, LF], kv)
         else if cmd = str ''PUT'' then (str ''+OK'' @ [CR, LF], kv(key \<mapsto> val))
         else if cmd = str ''GET'' then
           (case kv key of
              None \<Rightarrow> str ''$-1'' @ [CR, LF]
            | Some v \<Rightarrow> str ''$'' @ show_nat (length v) @ [CR, LF] @ v @ [CR, LF], kv)
         else if cmd = str ''DEL'' then (str ''+OK'' @ [CR, LF], kv(key := None))
         else (str ''-ERR unknown command'' @ [CR, LF], kv))"

fun lines_spec :: "bytes list \<Rightarrow> (bytes \<rightharpoonup> bytes) \<Rightarrow> bytes list \<times> (bytes \<rightharpoonup> bytes)" where
  "lines_spec [] kv = ([], kv)"
| "lines_spec (l # ls) kv = (let (r, kv) = line_spec l kv; (rs, kv) = lines_spec ls kv in (r # rs, kv))"

text \<open>A line of the language: not the statistics, and with words that can be stored.\<close>

definition plain_line :: "(bytes \<Rightarrow> bytes \<Rightarrow> bool) \<Rightarrow> bytes \<Rightarrow> bool" where
  "plain_line fits line \<longleftrightarrow>
     (let (cmd, _, args) = read_word line; (key, _, args') = read_word args; (val, _, _) = read_word args'
      in cmd \<noteq> str ''STATS'' \<and> fits key val \<and> fits key [])"

context kv_store
begin

lemma handle_line_refines:
  assumes i: "inv (Suc n) s kv" and plain: "plain_line fits line"
  shows "\<exists>s'. handle_line vt line s = (fst (line_spec line kv), s') \<and> inv n s' (snd (line_spec line kv))"
proof -
  obtain cmd g1 args where w1: "read_word line = (cmd, g1, args)" by (metis prod_cases3)
  obtain key g2 args' where w2: "read_word args = (key, g2, args')" by (metis prod_cases3)
  obtain val g3 args'' where w3: "read_word args' = (val, g3, args'')" by (metis prod_cases3)
  have f: "cmd \<noteq> str ''STATS''" "fits key val" "fits key []" using plain by (simp_all add: plain_line_def w1 w2 w3)
  note defs = handle_line_def line_spec_def w1 w2 w3 bulk_response_def crlf_def str_def
  consider "cmd = str ''PUT''" | "cmd = str ''GET''" | "cmd = str ''DEL''"
    | "cmd \<notin> {str ''PUT'', str ''GET'', str ''DEL''}" by blast
  then show ?thesis
  proof cases
    case 1
    from Put_ok [OF i f(2)] 1 show ?thesis by (auto simp: defs)
  next
    case 2
    obtain st s' where g: "Get vt key s = (st, kv key, s')" "inv (Suc n) s' kv"
      "case kv key of Some v \<Rightarrow> st = Status_OK | None \<Rightarrow> IsNotFound st \<and> \<not> ok st"
      using Get_ok [OF i, of key] by blast
    with 2 inv_mono [OF g(2)] show ?thesis by (cases "kv key") (auto simp: defs)
  next
    case 3
    from Delete_ok [OF i f(3)] 3 show ?thesis by (auto simp: defs)
  next
    case 4
    with f(1) inv_mono [OF i] show ?thesis by (auto simp: defs)
  qed
qed

lemma run_lines_refines:
  "inv (length ls + n) s kv \<Longrightarrow> list_all (plain_line fits) ls \<Longrightarrow>
    \<exists>s'. run_lines vt ls s = (fst (lines_spec ls kv), s') \<and> inv n s' (snd (lines_spec ls kv))"
proof (induction ls arbitrary: s kv)
  case (Cons l ls)
  from handle_line_refines [of "length ls + n" s kv l] Cons.prems obtain s1
    where h: "handle_line vt l s = (fst (line_spec l kv), s1)" "inv (length ls + n) s1 (snd (line_spec l kv))" by auto
  from Cons.IH [OF h(2)] Cons.prems(2) h(1) show ?case by (auto split: prod.splits)
qed simp

end

section \<open>Properties\<close>

text \<open>
  C29: a connection whose commands are lines ended by carriage return and line feed gets one
  response per line, in order, however the network cuts the stream into reads: the server
  behaves as if each line had been handled on its own.
\<close>
theorem server_framing:
  assumes "list_all line_valid ls" and "concat reads = concat (map crlf ls)" and "[] \<notin> set reads"
  shows "handle_client vt reads st = run_lines vt ls st"
  using client_loop_lines [OF assms(1,3), of "[]" vt st] assms(2) crlf_log.dec_empty
  by (simp add: handle_client_def crlf_log.log_of_def)

theorem server_framing_witness:
  "\<forall>st. handle_client DBImpl_DB [[80, 73, 78], [71, 13], [10]] st = ([[43, 80, 79, 78, 71, 13, 10]], st)"
proof
  fix st
  have "handle_client DBImpl_DB [[80, 73, 78], [71, 13], [10]] st = run_lines DBImpl_DB [[80, 73, 78, 71]] st"
    by (rule server_framing) (simp_all add: line_valid_def crlf_def CR_def LF_def)
  then show "handle_client DBImpl_DB [[80, 73, 78], [71, 13], [10]] st = ([[43, 80, 79, 78, 71, 13, 10]], st)"
    by (simp add: handle_line_def read_word_def skip_ws_def is_space_def str_def crlf_def CR_def LF_def Let_def)
qed



text \<open>
  C39: a line feed alone ends a line only while no carriage return and line feed follows in what
  has been read: a command that ends in a line feed is joined with the commands after it, up to
  the first one that ends in both characters, and the joined line gets a single answer.
\<close>
theorem server_mixed_line_ends:
  assumes "CR \<notin> set l" and "CR \<notin> set l'"
  shows "next_line (l @ [LF] @ l' @ [CR, LF] @ rest) = Some (l @ [LF] @ l', rest)"
proof -
  have "CR \<notin> set (l @ [LF] @ l')" using assms by (simp add: CR_def LF_def)
  from next_line_no_cr [OF this, of rest] show ?thesis by (simp add: crlf_def)
qed

theorem server_mixed_line_ends_witness:
  "next_line (str ''PUT a b'' @ [LF] @ str ''PING'' @ [CR, LF]) = Some (str ''PUT a b'' @ [LF] @ str ''PING'', [])"
  using server_mixed_line_ends [of "str ''PUT a b''" "str ''PING''" "[]"] by (simp add: str_def CR_def)

end
