(* ===== verification/Cli.thy ===== *)
theory Cli
  imports Server
begin

text \<open>
  The interactive tool \<open>tools/cli.cpp\<close>: it opens a database, reads commands line by line
  from the standard input and prints the answers. Input and output are byte lists.
\<close>

section \<open>Commands\<close>

definition println :: "bytes \<Rightarrow> bytes" where
  "println s = s @ [newline]"

definition print_help :: bytes where
  "print_help =
     println (str ''Commands:'') @
     println (str ''  put <key> <value>  - Insert key-value pair'') @
     println (str ''  get <key>          - Retrieve value'') @
     println (str ''  delete <key>       - Remove key'') @
     println (str ''  stats              - Show database statistics'') @
     println (str ''  compact            - Trigger manual compaction'') @
     println (str ''  gc                 - Trigger garbage collection'') @
     println (str ''  help               - Print this help'') @
     println (str ''  exit               - Exit'')"

definition report :: "Status \<Rightarrow> bytes" where
  "report s = (if ok s then println (str ''OK'') else println (str ''Error: '' @ Status_ToString s))"

definition is_exit :: "bytes \<Rightarrow> bool" where
  "is_exit line \<longleftrightarrow> (let (cmd, _, _) = read_word line in cmd = str ''exit'' \<or> cmd = str ''quit'')"

definition cli_command :: "'s DB \<Rightarrow> bytes \<Rightarrow> 's \<Rightarrow> bytes \<times> 's" where
  "cli_command vt line st =
     (let (cmd, _, iss) = read_word line in
      if cmd = str ''help'' then (print_help, st)
      else if cmd = str ''put'' then
        (let (key, _, iss) = read_word iss; (val, _, iss) = read_word iss in
         if key = [] then (println (str ''Error: put requires key and value''), st)
         else let (s, st) = Put vt key val st in (report s, st))
      else if cmd = str ''get'' then
        (let (key, _, iss) = read_word iss in
         if key = [] then (println (str ''Error: get requires key''), st)
         else let (s, val, st) = Get vt key st in
         (if ok s then println (the val)
          else if IsNotFound s then println (str ''(nil)'')
          else println (str ''Error: '' @ Status_ToString s), st))
      else if cmd = str ''delete'' then
        (let (key, _, iss) = read_word iss in
         if key = [] then (println (str ''Error: delete requires key''), st)
         else let (s, st) = Delete vt key st in (report s, st))
      else if cmd = str ''stats'' then (println (vt_GetStats vt st), st)
      else if cmd = str ''compact'' then (let (s, st) = vt_CompactRange vt st in (report s, st))
      else if cmd = str ''gc'' then (let (s, st) = vt_RunGC vt st in (report s, st))
      else (println (str ''Unknown command: '' @ cmd), st))"

section \<open>The loop\<close>

text \<open>\<open>std::getline\<close>: a last line without a line end counts, an empty rest does not.\<close>

definition getline :: "bytes \<Rightarrow> (bytes \<times> bytes) option" where
  "getline input =
     (if input = [] then None
      else Some (takeWhile (\<lambda>b. b \<noteq> newline) input, drop 1 (dropWhile (\<lambda>b. b \<noteq> newline) input)))"

lemma getline_less: "getline input = Some (line, rest) \<Longrightarrow> length rest < length input"
proof -
  assume g: "getline input = Some (line, rest)"
  then have "input \<noteq> []" "rest = drop 1 (dropWhile (\<lambda>b. b \<noteq> newline) input)"
    by (auto simp: getline_def split: if_splits)
  then show ?thesis
    using length_dropWhile_le [of "\<lambda>b. b \<noteq> newline" input] by (cases input) auto
qed

function cli_loop :: "'s DB \<Rightarrow> bytes \<Rightarrow> 's \<Rightarrow> bytes \<times> 's" where
  "cli_loop vt input st =
     (case getline input of
        None \<Rightarrow> (str ''> '', st)
      | Some (line, input) \<Rightarrow>
          if line = [] then (let (out, st) = cli_loop vt input st in (str ''> '' @ out, st))
          else if is_exit line then (str ''> '', st)
          else (let (out, st) = cli_command vt line st;
                    (more, st) = cli_loop vt input st
                in (str ''> '' @ out @ more, st)))"
  by pat_completeness auto
termination
  by (relation "measure (\<lambda>(vt, input, st). length input)") (auto dest: getline_less)

declare cli_loop.simps [simp del]

text \<open>The exit code, the standard output, the error output and the file system.\<close>

definition cli_main :: "(u64 \<Rightarrow> u64 \<Rightarrow> bool) \<Rightarrow> bytes list \<Rightarrow> bytes \<Rightarrow> fs \<Rightarrow> int \<times> bytes \<times> bytes \<times> fs" where
  "cli_main gc argv input fs =
     (if length argv < 2
      then (1, [], println (str ''Usage: '' @ concat (take 1 argv) @ str '' <db_path>''), fs)
      else case DB_Open ((default_Options gc)\<lparr>sync_writes := True\<rparr>) (argv ! 1) fs of
             (s, None, fs) \<Rightarrow> (1, [], println (str ''Failed to open DB: '' @ Status_ToString s), fs)
           | (s, Some db, fs) \<Rightarrow>
               (let (out, db, fs) = cli_loop DBImpl_DB input (db, fs)
                in (0, println (str ''Opened database at '' @ argv ! 1) @ print_help @ out, [],
                    DBImpl_destroy db fs)))"

section \<open>The commands refine the map\<close>

text \<open>The commands on single keys over an abstract map.\<close>

definition cli_spec :: "bytes \<Rightarrow> (bytes \<rightharpoonup> bytes) \<Rightarrow> bytes \<times> (bytes \<rightharpoonup> bytes)" where
  "cli_spec line kv =
     (let (cmd, _, args) = read_word line; (key, _, args') = read_word args; (val, _, _) = read_word args'
      in if cmd = str ''put'' then
           (if key = [] then (str ''Error: put requires key and value'' @ [newline], kv)
            else (str ''OK'' @ [newline], kv(key \<mapsto> val)))
         else if cmd = str ''get'' then
           (if key = [] then str ''Error: get requires key'' @ [newline]
            else case kv key of None \<Rightarrow> str ''(nil)'' @ [newline] | Some v \<Rightarrow> v @ [newline], kv)
         else if cmd = str ''delete'' then
           (if key = [] then (str ''Error: delete requires key'' @ [newline], kv)
            else (str ''OK'' @ [newline], kv(key := None)))
         else if cmd = str ''help'' then (print_help, kv)
         else (str ''Unknown command: '' @ cmd @ [newline], kv))"

text \<open>The other commands, and keys or values that cannot be stored, are left out.\<close>

definition key_command :: "(bytes \<Rightarrow> bytes \<Rightarrow> bool) \<Rightarrow> bytes \<Rightarrow> bool" where
  "key_command fits line \<longleftrightarrow>
     (let (cmd, _, args) = read_word line; (key, _, args') = read_word args; (val, _, _) = read_word args'
      in cmd \<notin> {str ''stats'', str ''compact'', str ''gc''} \<and> fits key val \<and> fits key [])"

text \<open>A whole session over an abstract map: the lines of the input up to the first exit.\<close>

function session_spec :: "bytes \<Rightarrow> (bytes \<rightharpoonup> bytes) \<Rightarrow> bytes \<times> (bytes \<rightharpoonup> bytes)" where
  "session_spec input kv =
     (case getline input of
        None \<Rightarrow> (str ''> '', kv)
      | Some (line, input) \<Rightarrow>
          if line = [] then (let (out, kv) = session_spec input kv in (str ''> '' @ out, kv))
          else if is_exit line then (str ''> '', kv)
          else (let (out, kv) = cli_spec line kv; (more, kv) = session_spec input kv
                in (str ''> '' @ out @ more, kv)))"
  by pat_completeness auto
termination
  by (relation "measure (\<lambda>(input, kv). length input)") (auto dest: getline_less)

declare session_spec.simps [simp del]

function session_ok :: "(bytes \<Rightarrow> bytes \<Rightarrow> bool) \<Rightarrow> bytes \<Rightarrow> bool" where
  "session_ok fits input =
     (case getline input of
        None \<Rightarrow> True
      | Some (line, input) \<Rightarrow> (line = [] \<or> key_command fits line) \<and> session_ok fits input)"
  by pat_completeness auto
termination
  by (relation "measure (\<lambda>(fits, input). length input)") (auto dest: getline_less)

declare session_ok.simps [simp del]

context kv_store
begin

lemma cli_command_refines:
  assumes i: "inv (Suc n) s kv" and kc: "key_command fits line"
  shows "\<exists>s'. cli_command vt line s = (fst (cli_spec line kv), s') \<and> inv n s' (snd (cli_spec line kv))"
proof -
  obtain cmd g1 args where w1: "read_word line = (cmd, g1, args)" by (metis prod_cases3)
  obtain key g2 args' where w2: "read_word args = (key, g2, args')" by (metis prod_cases3)
  obtain val g3 args'' where w3: "read_word args' = (val, g3, args'')" by (metis prod_cases3)
  have f: "cmd \<noteq> str ''stats''" "cmd \<noteq> str ''compact''" "cmd \<noteq> str ''gc''" "fits key val" "fits key []"
    using kc by (simp_all add: key_command_def w1 w2 w3)
  note defs = cli_command_def cli_spec_def w1 w2 w3 report_def println_def str_def
  consider "cmd = str ''put''" "key \<noteq> []" | "cmd = str ''get''" "key \<noteq> []" | "cmd = str ''delete''" "key \<noteq> []"
    | "cmd \<notin> {str ''put'', str ''get'', str ''delete''} \<or> key = []" by blast
  then show ?thesis
  proof cases
    case 1
    from Put_ok [OF i f(4)] 1 show ?thesis by (auto simp: defs)
  next
    case 2
    obtain st s' where g: "Get vt key s = (st, kv key, s')" "inv (Suc n) s' kv"
      "case kv key of Some v \<Rightarrow> st = Status_OK | None \<Rightarrow> IsNotFound st \<and> \<not> ok st"
      using Get_ok [OF i, of key] by blast
    with 2 inv_mono [OF g(2)] show ?thesis by (cases "kv key") (auto simp: defs)
  next
    case 3
    from Delete_ok [OF i f(5)] 3 show ?thesis by (auto simp: defs)
  next
    case 4
    with f inv_mono [OF i] show ?thesis by (auto simp: defs)
  qed
qed

lemma cli_loop_refines:
  "inv (length input) s kv \<Longrightarrow> session_ok fits input \<Longrightarrow>
    \<exists>s' n. cli_loop vt input s = (fst (session_spec input kv), s') \<and> inv n s' (snd (session_spec input kv))"
proof (induction "length input" arbitrary: input s kv rule: less_induct)
  case less
  show ?case
  proof (cases "getline input")
    case None
    with less.prems(1) show ?thesis by (auto simp: cli_loop.simps session_spec.simps)
  next
    case (Some lr)
    obtain line rest where lr: "getline input = Some (line, rest)" using Some by (cases lr) auto
    have lt: "length rest < length input" by (rule getline_less [OF lr])
    have ok: "session_ok fits rest" "line = [] \<or> key_command fits line"
      using less.prems(2) lr by (simp_all add: session_ok.simps [of fits input])
    note defs = cli_loop.simps [of vt input] session_spec.simps [of input] lr
    consider "line = []" | "line \<noteq> []" "is_exit line" | "line \<noteq> []" "\<not> is_exit line" by blast
    then show ?thesis
    proof cases
      case 1
      have "inv (length rest) s kv" using inv_less [OF less.prems(1)] lt by simp
      from less.hyps [OF lt this ok(1)] 1 show ?thesis by (auto simp: defs split: prod.splits)
    next
      case 2
      with less.prems(1) show ?thesis by (auto simp: defs)
    next
      case 3
      have "inv (Suc (length rest)) s kv" using inv_less [OF less.prems(1)] lt by simp
      with cli_command_refines [OF this] ok(2) 3(1) obtain s1
        where c: "cli_command vt line s = (fst (cli_spec line kv), s1)" "inv (length rest) s1 (snd (cli_spec line kv))"
        by auto
      from less.hyps [OF lt c(2) ok(1)] 3 c(1) show ?thesis by (auto simp: defs split: prod.splits)
    qed
  qed
qed

end

section \<open>Properties\<close>



end
