(* ===== verification/Manifest_Load.thy ===== *)
theory Manifest_Load
  imports Db_Start
begin

text \<open>
  The manifest is read back: the fields of a line, the lines of the text, and the levels of the
  tables with their readers opened anew. Keys are written raw between blanks, so that this holds
  for keys that are not empty and have no white space only.
\<close>

section \<open>Fields\<close>

definition plain_key :: "bytes \<Rightarrow> bool" where
  "plain_key k \<longleftrightarrow> k \<noteq> [] \<and> (\<forall>b \<in> set k. \<not> is_space b)"

lemma digit_not_space: "is_digit b \<Longrightarrow> \<not> is_space b"
  by (auto simp: is_digit_def is_space_def word_le_nat_alt)

lemma digit_not_sign: "is_digit b \<Longrightarrow> b \<noteq> 45 \<and> b \<noteq> 43"
  by (auto simp: is_digit_def)

lemma show_nat_Cons:
  obtains d ds where "show_nat n = d # ds" and "is_digit d" and "\<forall>b \<in> set ds. is_digit b"
  by (cases "show_nat n") (use set_show_nat [of _ n] in \<open>auto intro: that\<close>)

lemma scan_number_show:
  assumes "list_all is_space w" and "\<not> is_digit c"
  shows "scan_number (w @ show_nat n @ c # rest) = (False, show_nat n, c # rest)"
proof -
  obtain d ds where d: "show_nat n = d # ds" "is_digit d" "\<forall>b \<in> set ds. is_digit b" by (rule show_nat_Cons)
  have sk: "skip_ws (w @ show_nat n @ c # rest) = show_nat n @ c # rest"
    using assms(1) digit_not_space [OF d(2)] by (induction w) (simp_all add: skip_ws_def d)
  have "takeWhile is_digit (show_nat n @ c # rest) = show_nat n" "dropWhile is_digit (show_nat n @ c # rest) = c # rest"
    using set_show_nat [of _ n] assms(2) by (simp_all add: takeWhile_append2 dropWhile_append2)
  then show ?thesis
    unfolding scan_number_def sk Let_def using d digit_not_sign [OF d(2)] by simp
qed

lemma read_uint_show:
  assumes "list_all is_space w" and "\<not> is_digit c" and "n \<le> mx"
  shows "read_uint mx (w @ show_nat n @ c # rest) = (n, True, c # rest)"
  unfolding read_uint_def scan_number_show [OF assms(1,2)] using assms(3) by simp

lemma read_int_show:
  assumes "list_all is_space w" and "\<not> is_digit c" and "n < 2 ^ 31"
  shows "read_int (w @ show_nat n @ c # rest) = (int n, True, c # rest)"
  unfolding read_int_def scan_number_show [OF assms(1,2)] using assms(3) by simp

lemma read_word_plain:
  assumes "list_all is_space w" and "is_space c" and "plain_key k"
  shows "read_word (w @ k @ c # rest) = (k, True, c # rest)"
proof -
  have sk: "skip_ws (w @ k @ c # rest) = k @ c # rest"
    using assms(1,3) by (induction w) (auto simp: skip_ws_def plain_key_def neq_Nil_conv)
  show ?thesis
    unfolding read_word_def sk Let_def
    using assms(2,3) by (simp add: plain_key_def takeWhile_append2 dropWhile_append2)
qed

lemma separators [simp]:
  "is_space blank" "is_space newline" "\<not> is_digit blank" "\<not> is_digit newline"
  by (simp_all add: is_space_def is_digit_def blank_def newline_def)

section \<open>Lines\<close>

definition meta_plain :: "SSTableMeta \<Rightarrow> bool" where
  "meta_plain meta \<longleftrightarrow> plain_key (meta_smallest_key meta) \<and> plain_key (meta_largest_key meta) \<and>
     0 \<le> meta_level meta \<and> meta_level meta < 2 ^ 31"

lemma read_line_fields:
  assumes "list_all is_space w" and "plain_key x" and "plain_key y" and "is_space c" and l: "l < 2 ^ 31"
  shows "read_line (w @ show_nat (unat i) @ blank # show_nat l @ blank # show_nat (unat n) @ blank # x @ blank # y @ c # rest) =
    Some (i, int l, n, x, y, c # rest)"
proof -
  let ?s3 = "[blank] @ x @ blank # y @ c # rest"
  let ?s2 = "[blank] @ show_nat (unat n) @ ?s3"
  let ?s1 = "[blank] @ show_nat l @ ?s2"
  have "read_uint (2 ^ 32 - 1) (w @ show_nat (unat i) @ ?s1) = (unat i, True, ?s1)"
    using read_uint_show [OF assms(1), of blank "unat i" "2 ^ 32 - 1"] unat_u32_bound [of i] by simp
  moreover have "read_int ?s1 = (int l, True, ?s2)"
    using read_int_show [of "[blank]" blank l] l by simp
  moreover have "read_uint (2 ^ 64 - 1) ?s2 = (unat n, True, ?s3)"
    using read_uint_show [of "[blank]" blank "unat n" "2 ^ 64 - 1"] unat_u64_bound [of n] by simp
  moreover have "read_word ?s3 = (x, True, [blank] @ y @ c # rest)"
    using read_word_plain [of "[blank]" blank x] assms(2) by simp
  moreover have "read_word ([blank] @ y @ c # rest) = (y, True, c # rest)"
    using read_word_plain [of "[blank]" c y] assms(3,4) by simp
  ultimately show ?thesis by (simp add: read_line_def Let_def)
qed

lemma show_level: "0 \<le> l \<Longrightarrow> show_int l = show_nat (nat l)"
  by (simp add: show_int_def)

lemma read_manifest_line:
  assumes "list_all is_space w" and "meta_plain meta"
  shows "read_line (w @ manifest_line meta @ rest) =
    Some (meta_file_id meta, meta_level meta, meta_num_entries meta, meta_smallest_key meta,
      meta_largest_key meta, newline # rest)"
  using read_line_fields [OF assms(1), of "meta_smallest_key meta" "meta_largest_key meta" newline "nat (meta_level meta)"] assms(2)
  by (simp add: meta_plain_def manifest_line_def show_level nat_less_iff)

lemma read_line_end: "read_line [newline] = None"
  by (simp add: read_line_def read_uint_def read_int_def read_word_def scan_number_def skip_ws_def Let_def)

lemma load_lines_text:
  assumes "\<forall>meta \<in> set metas. meta_plain meta"
  shows "load_lines options dbp fs (newline # concat (map manifest_line metas)) levels =
    fold (\<lambda>meta levels. load_line options dbp fs (meta_file_id meta) (meta_level meta) (meta_num_entries meta)
      (meta_smallest_key meta) (meta_largest_key meta) levels) metas levels"
  using assms
proof (induction metas arbitrary: levels)
  case Nil
  then show ?case by (simp add: load_lines.simps read_line_end)
next
  case (Cons meta metas)
  have "read_line (newline # concat (map manifest_line (meta # metas))) =
    Some (meta_file_id meta, meta_level meta, meta_num_entries meta, meta_smallest_key meta,
      meta_largest_key meta, newline # concat (map manifest_line metas))"
    using read_manifest_line [of "[newline]" meta "concat (map manifest_line metas)"] Cons.prems by simp
  with Cons show ?case by (subst load_lines.simps) simp
qed

section \<open>Tables\<close>

text \<open>A listed table with its size taken and its reader opened anew.\<close>

definition reload :: "Options \<Rightarrow> path \<Rightarrow> fs \<Rightarrow> SSTableInfo \<Rightarrow> SSTableInfo" where
  "reload options dbp fs info =
     \<lparr>info_meta = (info_meta info)\<lparr>meta_file_size := u64_of (length (file_bytes fs (info_path dbp info)))\<rparr>,
      info_reader = the (snd (SSTableReader_Open (info_path dbp info) options fs))\<rparr>"

lemma reload_table:
  assumes "reliable fs" and "info_table fs dbp info es"
  shows "SSTableReader_Open (info_path dbp info) options fs = (Status_OK, Some (info_reader (reload options dbp fs info)))"
    and "info_table fs dbp (reload options dbp fs info) es"
proof -
  from assms(2) have t: "is_table fs (info_reader info) es" and p: "rd_path (info_reader info) = info_path dbp info"
    by (simp_all add: info_table_def info_path_def)
  from t p obtain opts where o: "sst_ok opts es" "content fs (info_path dbp info) = Some (sst_file opts es)"
    by (auto simp: is_table_def)
  have op: "SSTableReader_Open (info_path dbp info) options fs = (Status_OK, Some (sst_reader (info_path dbp info) options opts es))"
    by (rule SSTableReader_Open_file [OF assms(1) o(2,1)])
  then show "SSTableReader_Open (info_path dbp info) options fs = (Status_OK, Some (info_reader (reload options dbp fs info)))"
    by (simp add: reload_def)
  have "is_table fs (sst_reader (info_path dbp info) options opts es) es"
    by (rule is_table_reader [OF o])
  moreover have "rd_path (sst_reader (info_path dbp info) options opts es) = info_path dbp info"
    by (simp add: sst_reader_def Let_def)
  ultimately show "info_table fs dbp (reload options dbp fs info) es"
    using assms(2) op by (simp add: info_table_def reload_def info_path_def)
qed

lemma load_line_table:
  assumes "reliable fs" and "info_ok fs dbp info"
  shows "load_line options dbp fs (meta_file_id (info_meta info)) (meta_level (info_meta info))
      (meta_num_entries (info_meta info)) (meta_smallest_key (info_meta info)) (meta_largest_key (info_meta info)) levels =
    levels[nat (meta_level (info_meta info)) := levels ! nat (meta_level (info_meta info)) @ [reload options dbp fs info]]"
proof -
  from assms(2) obtain es where es: "info_table fs dbp info es" by (auto simp: info_ok_def)
  then obtain c where c: "content fs (info_path dbp info) = Some c"
    by (auto simp: info_table_def is_table_def info_path_def)
  note op = reload_table(1) [OF assms(1) es, of options]
  have "FileSize (info_path dbp info) fs = (Status_OK, Some (u64_of (length (file_bytes fs (info_path dbp info)))))"
    using assms(1) c by (simp add: FileSize_def file_bytes_Some)
  moreover obtain r where "SSTableReader_Open (info_path dbp info) options fs = (Status_OK, Some r)" using op by blast
  ultimately show ?thesis
    by (cases "info_meta info") (simp add: load_line_def info_path_def reload_def Let_def)
qed

section \<open>Levels\<close>

lemma fold_levels:
  fixes L :: "'a list list"
  assumes "\<And>i x. i < length L \<Longrightarrow> x \<in> set (L ! i) \<Longrightarrow> lv x = i"
  shows "fold (\<lambda>x ls. ls[lv x := ls ! lv x @ [g x]]) (concat L) (replicate (length L) []) = map (map g) L"
proof -
  let ?f = "fold (\<lambda>x ls. ls[lv x := ls ! lv x @ [g x]])"
  have len: "length (?f xs ls) = length ls" for xs ls
    by (induction xs arbitrary: ls) simp_all
  have nth: "\<forall>x \<in> set xs. lv x < length ls \<Longrightarrow> i < length ls \<Longrightarrow>
      ?f xs ls ! i = ls ! i @ map g (filter (\<lambda>x. lv x = i) xs)" for xs ls i
    by (induction xs arbitrary: ls) (auto simp: nth_list_update)
  have all: "\<forall>x \<in> set (concat L). lv x < length L"
    using assms by (auto simp: in_set_conv_nth) (metis in_set_conv_nth)
  have flt: "filter (\<lambda>x. lv x = i) (concat L) = L ! i" if "i < length L" for i
    using assms that
  proof (induction L arbitrary: i rule: rev_induct)
    case (snoc xs L)
    have xs: "\<forall>x \<in> set xs. lv x = length L" using snoc.prems(1) [of "length L"] by simp
    have L: "lv x = j" if "j < length L" "x \<in> set (L ! j)" for j x
      using snoc.prems(1) [of j x] that by (simp add: nth_append)
    have lt: "\<forall>x \<in> set (concat L). lv x < length L"
      using L by (auto simp: in_set_conv_nth) (metis in_set_conv_nth)
    show ?case
    proof (cases "i < length L")
      case True
      then have "filter (\<lambda>x. lv x = i) xs = []" using xs by (auto simp: filter_empty_conv)
      with True snoc.IH [OF L True] show ?thesis by (simp add: nth_append)
    next
      case False
      then have i: "i = length L" using snoc.prems(2) by simp
      have "filter (\<lambda>x. lv x = i) (concat L) = []" using lt i by (fastforce simp: filter_empty_conv)
      moreover have "filter (\<lambda>x. lv x = i) xs = xs" using xs i by (auto simp: filter_id_conv)
      ultimately show ?thesis by (simp add: i)
    qed
  qed simp
  show ?thesis
    by (rule nth_equalityI) (use all len nth flt in \<open>simp_all del: set_concat\<close>)
qed

text \<open>The levels are numbered, and the manifest names them.\<close>

definition levels_plain :: "SSTableInfo list list \<Rightarrow> bool" where
  "levels_plain L \<longleftrightarrow> length L < 2 ^ 31 \<and>
     (\<forall>i < length L. \<forall>info \<in> set (L ! i). meta_level (info_meta info) = int i \<and>
        plain_key (meta_smallest_key (info_meta info)) \<and> plain_key (meta_largest_key (info_meta info)))"

lemma load_levels:
  assumes rel: "reliable fs" and ok: "\<forall>info \<in> set (concat L). info_ok fs dbp info" and plain: "levels_plain L"
  shows "load_lines options dbp fs (newline # concat (map (\<lambda>info. manifest_line (info_meta info)) (concat L)))
    (replicate (length L) []) = map (map (reload options dbp fs)) L"
proof -
  let ?lv = "\<lambda>info. nat (meta_level (info_meta info))"
  have metas: "\<forall>meta \<in> set (map info_meta (concat L)). meta_plain meta"
  proof
    fix meta assume "meta \<in> set (map info_meta (concat L))"
    then obtain level info where "level \<in> set L" "info \<in> set level" "meta = info_meta info" by auto
    then obtain i where "i < length L" "info \<in> set (L ! i)" "meta = info_meta info" by (metis in_set_conv_nth)
    with plain show "meta_plain meta" by (simp add: levels_plain_def meta_plain_def)
  qed
  have "load_lines options dbp fs (newline # concat (map manifest_line (map info_meta (concat L)))) (replicate (length L) []) =
      fold (\<lambda>info levels. load_line options dbp fs (meta_file_id (info_meta info)) (meta_level (info_meta info))
        (meta_num_entries (info_meta info)) (meta_smallest_key (info_meta info)) (meta_largest_key (info_meta info)) levels)
        (concat L) (replicate (length L) [])"
    unfolding load_lines_text [OF metas] by (simp add: fold_map comp_def)
  also have "\<dots> = fold (\<lambda>info levels. levels[?lv info := levels ! ?lv info @ [reload options dbp fs info]]) (concat L) (replicate (length L) [])"
    using ok load_line_table [OF rel] by (intro fold_cong) auto
  also have "\<dots> = map (map (reload options dbp fs)) L"
    by (rule fold_levels) (use plain in \<open>simp add: levels_plain_def\<close>)
  finally show ?thesis by (simp add: comp_def)
qed

section \<open>The whole manifest\<close>

lemma LoadManifest_text:
  assumes rel: "reliable fs" and c: "content fs (ManifestPath (db_path db)) = Some (manifest_text n L)"
    and len: "length (manifest_text n L) < 2 ^ 64"
    and ok: "\<forall>info \<in> set (concat L). info_ok fs (db_path db) info" and plain: "levels_plain L"
    and lv: "db_levels db = replicate (length L) []"
  shows "LoadManifest db fs = (Status_OK,
    db\<lparr>db_next_sstable_id := n, db_levels := map (map (reload (db_options db) (db_path db) fs)) L\<rparr>)"
proof -
  let ?rest = "newline # concat (map (\<lambda>info. manifest_line (info_meta info)) (concat L))"
  have mt: "manifest_text n L = [] @ show_nat (unat n) @ ?rest" by (simp add: manifest_text_def)
  have rd: "read_uint (2 ^ 32 - 1) (manifest_text n L) = (unat n, True, ?rest)"
    unfolding mt by (rule read_uint_show) (use unat_u32_bound [of n] in simp_all)
  have sz: "unat (u64_of (length (manifest_text n L))) = length (manifest_text n L)" using len by simp
  show ?thesis
    using rel c rd load_levels [OF rel ok plain, of "db_options db"] lv sz
    by (simp add: LoadManifest_def FileExists_def Seq_Open_def fopen_rb_def FileSize_def Seq_Read_reliable
        SequentialFileReader_new_def file_bytes_Some Let_def)
qed

lemma reload_levels:
  assumes rel: "reliable fs" and lv: "levels_ok db fs" and path: "db_path db' = db_path db"
    and opts: "db_options db' = db_options db" and nx: "db_next_sstable_id db' = db_next_sstable_id db"
    and L: "db_levels db' = map (map (reload (db_options db) (db_path db) fs)) (db_levels db)"
  shows "levels_ok db' fs" and "sst_sources db' fs = sst_sources db fs"
proof -
  let ?r = "reload (db_options db) (db_path db) fs"
  have meta: "meta_file_id (info_meta (?r i)) = meta_file_id (info_meta i)" for i by (simp add: reload_def)
  have ok: "info_ok fs (db_path db) (?r i) \<and> tmap fs (?r i) = tmap fs i" if "i \<in> set (concat (db_levels db))" for i
  proof -
    from lv that obtain es where es: "info_table fs (db_path db) i es" unfolding levels_ok_def info_ok_def by blast
    from reload_table(2) [OF rel this] es tmap_table [OF rel] show ?thesis by (auto simp: info_ok_def info_table_def)
  qed
  have conc: "concat (db_levels db') = map ?r (concat (db_levels db))" by (simp add: L map_concat)
  show "levels_ok db' fs"
    using lv ok unfolding levels_ok_def conc path opts nx by (auto simp: meta comp_def L)
  have "db_levels db \<noteq> []" using lv by (simp add: levels_ok_def)
  then obtain X R where X: "db_levels db = X # R" by (cases "db_levels db") auto
  have "\<forall>i \<in> set X. tmap fs (?r i) = tmap fs i" "\<forall>level \<in> set R. \<forall>i \<in> set level. tmap fs (?r i) = tmap fs i"
    using ok by (auto simp: X)
  then show "sst_sources db' fs = sst_sources db fs"
    by (simp add: sst_sources_def L X rev_map) (auto intro!: arg_cong [where f = concat])
qed

section \<open>Properties\<close>

text \<open>
  C27: the manifest is a faithful record of the tables: saving it succeeds, and a new object that
  loads it has the same next table id and, level by level, the same tables in the same order with
  the same metadata, each opened and readable, so that lookups in the tables give the same
  entries. Keys must not be empty and must not contain white space.
\<close>
theorem manifest_roundtrip:
  assumes "reliable fs" and "levels_ok db fs" and "levels_plain (db_levels db)"
    and "length (manifest_text (db_next_sstable_id db) (db_levels db)) < 2 ^ 64"
  shows "\<exists>fs' db'. SaveManifest db fs = (Status_OK, fs') \<and>
    LoadManifest (DBImpl_new (db_options db) (db_path db)) fs' = (Status_OK, db') \<and>
    db_next_sstable_id db' = db_next_sstable_id db \<and> levels_ok db' fs' \<and> sst_sources db' fs' = sst_sources db fs \<and>
    map (map (\<lambda>i. (info_meta i)\<lparr>meta_file_size := 0\<rparr>)) (db_levels db') =
      map (map (\<lambda>i. (info_meta i)\<lparr>meta_file_size := 0\<rparr>)) (db_levels db)"
proof -
  obtain fs' where s: "SaveManifest db fs = (Status_OK, fs')" and rel': "reliable fs'"
    and con: "content fs' = (content fs)(ManifestPath (db_path db) @ str ''.tmp'' := None,
      ManifestPath (db_path db) \<mapsto> manifest_text (db_next_sstable_id db) (db_levels db))"
    using assms(1) by (rule SaveManifest_reliable)
  have same: "content fs' (info_path (db_path db) i) = content fs (info_path (db_path db) i)" for i
    using con by (simp add: info_path_def)
  have lv: "levels_ok db fs'" by (rule levels_ok_cong [OF assms(2)]) (use same in simp_all)
  have src: "sst_sources db fs' = sst_sources db fs"
    by (rule sst_sources_cong [OF assms(1) rel' assms(2) refl]) (rule same)
  let ?db0 = "DBImpl_new (db_options db) (db_path db)"
  let ?db' = "?db0\<lparr>db_next_sstable_id := db_next_sstable_id db,
    db_levels := map (map (reload (db_options db) (db_path db) fs')) (db_levels db)\<rparr>"
  have "LoadManifest ?db0 fs' = (Status_OK, ?db')"
    using LoadManifest_text [OF rel', of ?db0 "db_next_sstable_id db" "db_levels db"] con assms(3,4) lv
    by (simp add: DBImpl_new_def levels_ok_def)
  moreover have "levels_ok ?db' fs'" "sst_sources ?db' fs' = sst_sources db fs"
    using reload_levels [OF rel' lv, of ?db'] src by (simp_all add: DBImpl_new_def)
  moreover have "map (map (\<lambda>i. (info_meta i)\<lparr>meta_file_size := 0\<rparr>)) (db_levels ?db') =
      map (map (\<lambda>i. (info_meta i)\<lparr>meta_file_size := 0\<rparr>)) (db_levels db)"
    by (simp add: reload_def comp_def)
  ultimately show ?thesis using s by (intro exI [of _ fs'] exI [of _ ?db']) simp_all
qed

theorem manifest_roundtrip_witness:
  "\<exists>db fs fs' db'. length (db_levels db ! 0) = 1 \<and> SaveManifest db fs = (Status_OK, fs') \<and>
     LoadManifest (DBImpl_new (db_options db) (db_path db)) fs' = (Status_OK, db') \<and>
     sst_sources db' fs' = sst_sources db fs"
proof -
  obtain db0 fs0 mt where i: "db_inv db0 fs0 [[1] \<mapsto> [2]]" "db_immutables db0 = [mt]"
    "sst_ok (db_options db0) (GetSortedEntries mt)" "db_next_sstable_id db0 = 1"
    "db_options db0 = (default_Options (\<lambda>_ _. True))\<lparr>memtable_size_limit := 0\<rparr>"
    "db_levels db0 = replicate (max_sstable_levels (db_options db0)) []" "\<exists>e. GetSortedEntries mt = [([1], e)]"
    by (rule db_with_immutable)
  from i(1) have rel: "reliable fs0" and "mt_invar mt" using i(2) by (auto simp: db_inv_def mem_ok_def)
  then have ne: "MemTable_Count mt \<noteq> 0" using i(7) Count_entries [of mt] by auto
  obtain info fs where fl: "FlushMemTable mt db0 fs0 = (Status_OK,
      db0\<lparr>db_next_sstable_id := db_next_sstable_id db0 + 1,
         db_levels := (db_levels db0)[0 := db_levels db0 ! 0 @ [info]]\<rparr>, fs)"
    and rel': "reliable fs" and it: "info_table fs (db_path db0) info (GetSortedEntries mt)"
    and id: "meta_file_id (info_meta info) = db_next_sstable_id db0"
    and "\<forall>q. q \<noteq> SSTableFilePath (db_path db0) (db_next_sstable_id db0) \<and> q \<noteq> ManifestPath (db_path db0) \<and>
      q \<noteq> ManifestPath (db_path db0) @ str ''.tmp'' \<longrightarrow> content fs q = content fs0 q"
    and lvl: "meta_level (info_meta info) = 0"
    by (rule FlushMemTable_reliable [OF rel ne i(3)])
  let ?db = "db0\<lparr>db_next_sstable_id := db_next_sstable_id db0 + 1, db_levels := (db_levels db0)[0 := db_levels db0 ! 0 @ [info]]\<rparr>"
  have "max_sstable_levels (db_options db0) = 7" using i(5) by (simp add: default_Options_def)
  moreover have "replicate 7 ([] :: SSTableInfo list) = [[], [], [], [], [], [], []]" by (simp add: numeral_eq_Suc)
  ultimately have L: "db_levels ?db = [[info], [], [], [], [], [], []]" using i(6) by simp
  have keys: "meta_smallest_key (info_meta info) = [1]" "meta_largest_key (info_meta info) = [1]"
    using it i(7) by (auto simp: info_table_def)
  have "levels_ok ?db fs"
    using it id i(4,5,6) unfolding levels_ok_def L by (auto simp: info_ok_def default_Options_def)
  moreover have "plain_key [1]" by (simp add: plain_key_def is_space_def word_le_nat_alt)
  then have "levels_plain (db_levels ?db)"
    unfolding L levels_plain_def using lvl keys
    by (auto simp: nth_Cons' split: if_splits)
  moreover have "length (manifest_text (db_next_sstable_id ?db) (db_levels ?db)) < 2 ^ 64"
  proof -
    have l32: "length (show_nat (unat (w :: u32))) \<le> 10" for w
      using unat_u32_bound [of w] by (intro length_show_nat_le) simp_all
    have l64: "length (show_nat (unat (w :: u64))) \<le> 20" for w
      using unat_u64_bound [of w] by (intro length_show_nat_le) simp_all
    have "show_int 0 = [digit 0]" by (simp add: show_int_def show_nat.simps)
    then have "length (manifest_text n [[info], [], [], [], [], [], []]) =
        length (show_nat (unat n)) + length (show_nat (unat (meta_file_id (info_meta info)))) +
        length (show_nat (unat (meta_num_entries (info_meta info)))) + 9" for n
      using keys lvl by (simp add: manifest_text_def manifest_line_def)
    with l32 [of "db_next_sstable_id ?db"] l32 [of "meta_file_id (info_meta info)"] l64 [of "meta_num_entries (info_meta info)"]
    show ?thesis unfolding L by simp
  qed
  ultimately have "\<exists>fs' db'. SaveManifest ?db fs = (Status_OK, fs') \<and>
      LoadManifest (DBImpl_new (db_options ?db) (db_path ?db)) fs' = (Status_OK, db') \<and>
      sst_sources db' fs' = sst_sources ?db fs"
    using manifest_roundtrip [OF rel', of ?db] by blast
  moreover have "length (db_levels ?db ! 0) = 1" unfolding L by simp
  ultimately show ?thesis by blast
qed

text \<open>
  C40: a key with a blank in it breaks the manifest: the line of its table is read back with the
  parts of the key as the bounds of the table, and the other bound is left over as the beginning
  of the next line.
\<close>
theorem manifest_blank_key:
  assumes "plain_key x" and "plain_key y" and "0 \<le> meta_level meta" and "meta_level meta < 2 ^ 31"
    and "meta_smallest_key meta = x @ [blank] @ y"
  shows "read_line (manifest_line meta @ rest) =
    Some (meta_file_id meta, meta_level meta, meta_num_entries meta, x, y, [blank] @ meta_largest_key meta @ [newline] @ rest)"
  using read_line_fields [of "[]" x y blank "nat (meta_level meta)"] assms
  by (simp add: manifest_line_def show_level nat_less_iff)

theorem manifest_blank_key_witness:
  "read_line (manifest_line \<lparr>meta_file_id = 1, meta_level = 0, meta_smallest_key = str ''a b'', meta_largest_key = str ''c'',
      meta_num_entries = 2, meta_file_size = 0\<rparr>) =
    Some (1, 0, 2, str ''a'', str ''b'', str '' c'' @ [newline])"
proof -
  let ?m = "\<lparr>meta_file_id = 1, meta_level = 0, meta_smallest_key = str ''a b'', meta_largest_key = str ''c'',
      meta_num_entries = 2, meta_file_size = 0\<rparr>"
  have "plain_key (str ''a'')" "plain_key (str ''b'')" by (simp_all add: plain_key_def is_space_def str_def word_le_nat_alt)
  then show ?thesis
    using manifest_blank_key [of "str ''a''" "str ''b''" ?m "[]"] by (simp add: str_def blank_def)
qed

end
