(* ===== verification/Recover.thy ===== *)
theory Recover
  imports Manifest_Load Background Gc_Refine
begin

text \<open>
  Recovery from what is on disk: \<open>DB_Open\<close> in a directory that holds value-log files, a
  sequence of write-ahead logs and, if tables were written, a manifest and its tables, gives a
  database whose entry for every key is the last one that was logged.
\<close>

section \<open>File names\<close>

definition wal_name :: "u64 \<Rightarrow> bytes" where
  "wal_name i = str ''wal_'' @ pad5 (show_nat (unat i)) @ str ''.log''"

definition vlog_name :: "u32 \<Rightarrow> bytes" where
  "vlog_name i = str ''vlog_'' @ pad5 (show_nat (unat i)) @ str ''.dat''"

lemma wal_path_child: "WALFilePath dbp i = dbp @ slash # wal_name i"
  by (simp add: WALFilePath_def wal_name_def str_def slash_def)

lemma vlog_path_name: "vlog_file_path dbp i = dbp @ slash # vlog_name i"
  by (simp add: vlog_name_def vlog_path_child)

lemma slash_not_in_names: "slash \<notin> set (wal_name i)" "slash \<notin> set (vlog_name j)"
  by (auto simp: wal_name_def vlog_name_def str_def slash_def dest: digit_not_slash [unfolded slash_def])

lemma contains_append: "contains pat (pat @ post)"
  by (cases pat; cases post) auto

lemma contains_prepend: "contains pat s \<Longrightarrow> contains pat (pre @ s)"
  by (induction pre) auto

lemma scan_number_digits:
  assumes "ds \<noteq> []" and "\<forall>b \<in> set ds. is_digit b"
  shows "scan_number ds = (False, ds, [])"
proof -
  obtain d ds' where d: "ds = d # ds'" "is_digit d" using assms by (cases ds) auto
  have "skip_ws ds = ds" using digit_not_space [OF d(2)] by (simp add: skip_ws_def d(1))
  moreover have "takeWhile is_digit ds = ds" "dropWhile is_digit ds = []" using assms(2) by auto
  ultimately show ?thesis unfolding scan_number_def using d digit_not_sign [OF d(2)] by (simp add: Let_def)
qed

lemma stoul_pad5:
  assumes "n < 100000"
  shows "stoul (pad5 (show_nat n)) = Some n"
proof -
  have "pad5 (show_nat n) \<noteq> []" using length_pad5 [OF assms] by auto
  then have "scan_number (pad5 (show_nat n)) = (False, pad5 (show_nat n), [])"
    by (rule scan_number_digits) (auto dest: set_pad5)
  then show ?thesis using assms \<open>pad5 (show_nat n) \<noteq> []\<close> by (simp add: stoul_def)
qed

lemma is_wal_name_wal: "is_wal_name (wal_name i)"
  unfolding is_wal_name_def wal_name_def
  by (auto simp: str_def intro!: contains_prepend [where pre = "pad5 x" for x] contains_append [where post = "[]", simplified])

lemma wal_name_id: "unat i < 100000 \<Longrightarrow> stoul (take 5 (drop 4 (wal_name i))) = Some (unat i)"
  using length_pad5 [of "unat i"] stoul_pad5 [of "unat i"] by (simp add: wal_name_def str_def)

lemma vlog_name_id_vlog: "unat i < 100000 \<Longrightarrow> vlog_name_id (vlog_name i) = Some i"
  using length_pad5 [of "unat i"] set_pad5 [of _ "unat i"]
  by (auto simp: vlog_name_id_def vlog_name_def str_def list_all_iff Let_def)

text \<open>The files of a database directory.\<close>

definition db_file :: "path \<Rightarrow> path \<Rightarrow> bool" where
  "db_file dbp q \<longleftrightarrow> (\<exists>i. q = WALFilePath dbp i) \<or> (\<exists>i. q = vlog_file_path dbp i) \<or>
     (\<exists>i. q = SSTableFilePath dbp i) \<or> q = ManifestPath dbp \<or> q = ManifestPath dbp @ str ''.tmp''"

definition dir_ok :: "path \<Rightarrow> fs \<Rightarrow> bool" where
  "dir_ok dbp fs \<longleftrightarrow> (\<forall>q. content fs q \<noteq> None \<longrightarrow> db_file dbp q \<or> child_name dbp q = None)"

lemma dir_ok_frame: "dir_ok dbp fs \<Longrightarrow> (\<And>q. \<not> db_file dbp q \<Longrightarrow> content fs' q = content fs q) \<Longrightarrow> dir_ok dbp fs'"
  unfolding dir_ok_def by metis

lemma db_file_intros [simp]:
  "db_file dbp (WALFilePath dbp i)" "db_file dbp (vlog_file_path dbp j)" "table_file dbp q \<Longrightarrow> db_file dbp q"
  by (auto simp: db_file_def table_file_def)

lemma db_file_names:
  assumes "db_file dbp (dbp @ slash # name)"
  shows "is_wal_name name \<Longrightarrow> \<exists>i. name = wal_name i" "vlog_name_id name \<noteq> None \<Longrightarrow> \<exists>i. name = vlog_name i"
  using assms
  by (auto simp: db_file_def wal_path_child vlog_path_name SSTableFilePath_def ManifestPath_def str_def slash_def
      is_wal_name_def vlog_name_id_def vlog_name_def wal_name_def Let_def)

lemma child_is_db_file:
  assumes "reliable fs" and "dir_ok dbp fs" and "name \<in> set (snd (GetChildren dbp fs))"
  shows "db_file dbp (dbp @ slash # name)" and "content fs (dbp @ slash # name) \<noteq> None"
proof -
  have n: "slash \<notin> set name" "content fs (dbp @ slash # name) \<noteq> None"
    using assms(1,3) mem_GetChildren [of fs dbp name] by auto
  then show "db_file dbp (dbp @ slash # name)"
    using assms(2) child_name_path [OF n(1), of dbp] by (fastforce simp: dir_ok_def)
  show "content fs (dbp @ slash # name) \<noteq> None" by fact
qed

section \<open>Ids\<close>

lemma collect_ids_map:
  assumes "\<And>name. name \<in> set names \<Longrightarrow> test name \<Longrightarrow> stoul (take 5 (drop pos name)) \<noteq> None"
  shows "collect_ids test pos names = Some (map (\<lambda>name. the (stoul (take 5 (drop pos name)))) (filter test names))"
  using assms
proof (induction names)
  case (Cons name names)
  have "collect_ids test pos names = Some (map (\<lambda>name. the (stoul (take 5 (drop pos name)))) (filter test names))"
    using Cons.prems by (intro Cons.IH) simp_all
  with Cons.prems [of name] show ?case by auto
qed simp

lemma length_GetChildren: "length (snd (GetChildren dbp fs)) \<le> length (fs_files fs)"
  by (auto simp: GetChildren_def map_filter_def split: option.split)

text \<open>The bytes of all files.\<close>

definition disk_bytes :: "fs \<Rightarrow> nat" where
  "disk_bytes fs = (\<Sum>p \<leftarrow> map fst (fs_files fs). length (file_bytes fs p))"

lemma content_disk_bytes:
  assumes "content fs p = Some c"
  shows "length c \<le> disk_bytes fs"
proof -
  have "p \<in> set (map fst (fs_files fs))"
    using assms by (auto simp: content_def dest!: map_of_SomeD intro!: rev_image_eqI)
  then have "length (file_bytes fs p) \<le> disk_bytes fs"
    unfolding disk_bytes_def by (intro member_le_sum_list) (auto simp: image_image)
  then show ?thesis using assms by (simp add: file_bytes_Some)
qed

lemma children_bytes:
  assumes "reliable fs"
  shows "(\<Sum>name \<leftarrow> snd (GetChildren dbp fs). length (file_bytes fs (dbp @ slash # name))) \<le> disk_bytes fs"
proof -
  have "(\<Sum>name \<leftarrow> List.map_filter (\<lambda>(p, _). child_name dbp p) files. g (dbp @ slash # name)) \<le> (\<Sum>p \<leftarrow> map fst files. g p)"
    for g :: "path \<Rightarrow> nat" and files :: "(path \<times> bytes) list"
    by (induction files) (auto simp: map_filter_simps split: option.split dest!: child_name_Some)
  then show ?thesis using assms by (simp add: GetChildren_def disk_bytes_def)
qed

lemma wal_ids_collected:
  assumes rel: "reliable fs" and dir: "dir_ok dbp fs" and n: "n < 100000"
    and ex: "\<And>i. content fs (WALFilePath dbp i) \<noteq> None \<longleftrightarrow> 1 \<le> unat i \<and> unat i \<le> n"
  obtains ids where "collect_ids is_wal_name 4 (snd (GetChildren dbp fs)) = Some ids"
    and "set ids = {1..n}" and "length ids \<le> length (fs_files fs)"
    and "(\<Sum>i \<leftarrow> ids. length (file_bytes fs (WALFilePath dbp (u64_of i)))) \<le> disk_bytes fs"
proof -
  let ?ch = "snd (GetChildren dbp fs)" and ?id = "\<lambda>name. the (stoul (take 5 (drop 4 name)))"
  have wal: "\<exists>i. name = wal_name i \<and> 1 \<le> unat i \<and> unat i \<le> n" if "name \<in> set ?ch" "is_wal_name name" for name
  proof -
    from db_file_names(1) [OF child_is_db_file(1) [OF rel dir that(1)] that(2)] obtain i where "name = wal_name i" ..
    with child_is_db_file(2) [OF rel dir that(1)] ex [of i] show ?thesis by (auto simp: wal_path_child)
  qed
  have some: "stoul (take 5 (drop 4 name)) \<noteq> None" if "name \<in> set ?ch" "is_wal_name name" for name
    using wal [OF that] wal_name_id n by fastforce
  have "set (map ?id (filter is_wal_name ?ch)) = {1..n}"
  proof (intro set_eqI iffI)
    fix j assume "j \<in> set (map ?id (filter is_wal_name ?ch))"
    then obtain name where "name \<in> set ?ch" "is_wal_name name" "j = ?id name" by auto
    with wal wal_name_id n show "j \<in> {1..n}" by fastforce
  next
    fix j assume j: "j \<in> {1..n}"
    let ?i = "u64_of j"
    have u: "unat ?i = j" using j n by (intro unat_of_nat_64) auto
    then have "content fs (dbp @ slash # wal_name ?i) \<noteq> None" using ex [of ?i] j by (simp add: wal_path_child)
    then have "wal_name ?i \<in> set ?ch" using rel slash_not_in_names mem_GetChildren [of fs dbp "wal_name ?i"] by simp
    moreover have "?id (wal_name ?i) = j" using wal_name_id [of ?i] u j n by simp
    ultimately show "j \<in> set (map ?id (filter is_wal_name ?ch))"
      using is_wal_name_wal by (auto intro!: image_eqI [of _ _ "wal_name ?i"])
  qed
  moreover have "length (map ?id (filter is_wal_name ?ch)) \<le> length (fs_files fs)"
    using order_trans [OF length_filter_le [of is_wal_name ?ch] length_GetChildren] by simp
  moreover have "(\<Sum>i \<leftarrow> map ?id (filter is_wal_name ?ch). length (file_bytes fs (WALFilePath dbp (u64_of i)))) \<le> disk_bytes fs"
  proof -
    let ?g = "\<lambda>name. length (file_bytes fs (dbp @ slash # name))"
    have "WALFilePath dbp (u64_of (?id name)) = dbp @ slash # name" if "name \<in> set (filter is_wal_name ?ch)" for name
      using wal [of name] that wal_name_id n by (fastforce simp: wal_path_child)
    then have eq: "map (\<lambda>i. length (file_bytes fs (WALFilePath dbp (u64_of i)))) (map ?id (filter is_wal_name ?ch)) =
        map ?g (filter is_wal_name ?ch)" by simp
    show ?thesis unfolding eq by (rule order_trans [OF sum_list_filter_le_nat children_bytes [OF rel]])
  qed
  ultimately show ?thesis using collect_ids_map [of ?ch is_wal_name 4, OF some] by (intro that)
qed

lemma fold_max_ids:
  fixes f :: "'a \<Rightarrow> ('b :: linorder) option"
  defines "step \<equiv> \<lambda>x m. case f x of None \<Rightarrow> m | Some i \<Rightarrow> if m < i then i else m"
  shows "m \<le> fold step xs m" and "(\<exists>x \<in> set xs. f x = Some (fold step xs m)) \<or> fold step xs m = m"
    and "x \<in> set xs \<Longrightarrow> f x = Some i \<Longrightarrow> i \<le> fold step xs m"
proof -
  show le: "m \<le> fold step xs m" for xs m
  proof (induction xs arbitrary: m)
    case (Cons x xs)
    have "m \<le> step x m" by (auto simp: step_def split: option.split)
    also have "\<dots> \<le> fold step xs (step x m)" by (rule Cons.IH)
    finally show ?case by simp
  qed simp
  show "(\<exists>x \<in> set xs. f x = Some (fold step xs m)) \<or> fold step xs m = m"
  proof (induction xs arbitrary: m)
    case (Cons x xs)
    have "step x m = m \<or> f x = Some (step x m)" by (auto simp: step_def split: option.split)
    with Cons.IH [of "step x m"] show ?case by auto
  qed simp
  show "x \<in> set xs \<Longrightarrow> f x = Some i \<Longrightarrow> i \<le> fold step xs m"
  proof (induction xs arbitrary: m)
    case (Cons y xs)
    show ?case
    proof (cases "y = x")
      case True
      then have "i \<le> step y m" using Cons.prems by (auto simp: step_def)
      also have "\<dots> \<le> fold step xs (step y m)" by (rule le)
      finally show ?thesis by simp
    next
      case False
      with Cons show ?thesis by simp
    qed
  qed simp
qed

section \<open>The value log\<close>

lemma set_content_same: "content fs p = Some c \<Longrightarrow> set_content p c fs = fs"
proof -
  have "map_of al p = Some c \<Longrightarrow> AList.update p c al = al" for al by (induction al) auto
  then show "content fs p = Some c \<Longrightarrow> set_content p c fs = fs" by (simp add: set_content_def content_def)
qed

lemma VLog_Open_existing:
  assumes rel: "reliable fs" and dir: "dir_ok dbp fs" and cur: "0 < cur" "unat cur < 100000"
    and c: "content fs (vlog_file_path dbp cur) = Some c" "length c < 2 ^ 63" and lim: "vlog_file_size_limit options < 2 ^ 63"
    and le: "\<And>i. content fs (vlog_file_path dbp i) \<noteq> None \<Longrightarrow> i \<le> cur"
  obtains vl where "VLog_Open (VLog_new dbp options) fs = (Status_OK, vl, fs)" and "vl_ok vl fs"
    and "vl_db_path vl = dbp" and "vl_options vl = options" and "vl_current_file_id vl = cur"
proof -
  let ?ch = "snd (GetChildren dbp fs)"
  let ?step = "\<lambda>name m. case vlog_name_id name of None \<Rightarrow> m | Some i \<Rightarrow> if m < i then i else m"
  have ids: "i \<le> cur" if "name \<in> set ?ch" "vlog_name_id name = Some i" for name i
  proof -
    have "vlog_name_id name \<noteq> None" using that(2) by simp
    from db_file_names(2) [OF child_is_db_file(1) [OF rel dir that(1)] this] obtain j where j: "name = vlog_name j" ..
    with child_is_db_file(2) [OF rel dir that(1)] have "j \<le> cur" by (intro le) (simp add: vlog_path_name)
    moreover from this have "unat j < 100000" using cur(2) by (simp add: word_le_nat_alt)
    ultimately show ?thesis using that(2) vlog_name_id_vlog [of j] j by simp
  qed
  have "vlog_name cur \<in> set ?ch"
    using rel slash_not_in_names(2) c(1) mem_GetChildren [of fs dbp "vlog_name cur"] by (simp add: vlog_path_name)
  then have "cur \<le> fold ?step ?ch 0"
    by (rule fold_max_ids(3)) (use vlog_name_id_vlog cur(2) in simp)
  moreover have "fold ?step ?ch 0 \<le> cur"
    using fold_max_ids(2) [of ?ch vlog_name_id 0] ids by auto
  ultimately have mx: "fold ?step ?ch 0 = cur" by simp
  obtain ch where ch: "GetChildren dbp fs = (Status_OK, ch)" using rel by (simp add: GetChildren_def)
  have rf: "RecoverFileIds (VLog_new dbp options) fs = (Status_OK, (VLog_new dbp options)\<lparr>vl_current_file_id := cur\<rparr>)"
    using mx cur(1) by (simp add: RecoverFileIds_def VLog_new_def ch Let_def)
  define w where "w = SequentialFileWriter_new\<lparr>wr_file := Some \<lparr>file_path = vlog_file_path dbp cur, file_buf = []\<rparr>,
    wr_offset := u64_of (length c)\<rparr>"
  let ?vl = "(VLog_new dbp options)\<lparr>vl_current_file_id := cur, vl_current_offset := u64_of (length c), vl_writer := Some w\<rparr>"
  have "VLog_Open (VLog_new dbp options) fs = (Status_OK, ?vl, fs)"
    using rel c rf
    by (simp add: VLog_Open_def VLog_new_def FileExists_def FileSize_def Writer_Open_def
        VLogFilePath_def w_def Let_def file_bytes_Some set_content_same)
  moreover have "vl_ok ?vl fs"
    using c lim le by (simp add: vl_ok_def VLogFilePath_def VLog_new_def w_def open_on_def readers_ok_def)
  ultimately show ?thesis by (rule that) (simp_all add: VLog_new_def)
qed

section \<open>What a log says\<close>

text \<open>The last entry of every key.\<close>

definition wal_view :: "WALRecord list \<Rightarrow> bytes \<rightharpoonup> InternalEntry" where
  "wal_view rs = map_of (rev (map (\<lambda>r. (wal_key r, entry_of r)) rs))"

lemma wal_view_simps [simp]:
  "wal_view [] = Map.empty" "wal_view (rs @ rs') = wal_view rs ++ wal_view rs'"
  "wal_view [r] = [wal_key r \<mapsto> entry_of r]"
  by (simp_all add: wal_view_def)

lemma wal_view_Cons: "wal_view (r # rs) = [wal_key r \<mapsto> entry_of r] ++ wal_view rs"
  using wal_view_simps(2) [of "[r]" rs] by simp

lemma wal_view_Some: "wal_view rs k = Some e \<Longrightarrow> \<exists>r \<in> set rs. wal_key r = k \<and> entry_of r = e"
  by (auto simp: wal_view_def dest!: map_of_SomeD)

lemma wal_view_None: "wal_view rs k = None \<longleftrightarrow> k \<notin> wal_key ` set rs"
  by (auto simp: wal_view_def map_of_eq_None_iff image_image)

text \<open>With increasing sequence numbers the last entry of a key is its newest.\<close>

lemma wal_view_newest:
  assumes "sorted_wrt (<) (map wal_sequence rs)" and "r \<in> set rs" and "wal_view rs (wal_key r) = Some e"
  shows "entry_of r = e \<or> wal_sequence r < entry_seq e"
  using assms
proof (induction rs rule: rev_induct)
  case (snoc r' rs)
  show ?case
  proof (cases "wal_key r' = wal_key r")
    case True
    then have e: "e = entry_of r'" using snoc.prems(3) by simp
    show ?thesis using snoc.prems(1,2) by (auto simp: e sorted_wrt_append entry_of_def)
  next
    case False
    then have "r \<in> set rs" "wal_view rs (wal_key r) = Some e" "sorted_wrt (<) (map wal_sequence rs)"
      using snoc.prems by (auto simp: map_add_def sorted_wrt_append)
    with snoc.IH show ?thesis by blast
  qed
qed simp

text \<open>Reading a log twice in a row does not matter.\<close>

lemma wal_view_remdups:
  "wal_view (concat (map f (remdups_adj is))) = wal_view (concat (map f is))"
proof (induction "is" rule: remdups_adj.induct)
  case (3 x y xs)
  have twice: "m ++ m = m" for m :: "bytes \<rightharpoonup> InternalEntry"
    by (rule ext) (simp add: map_add_def split: option.split)
  show ?case
  proof (cases "x = y")
    case True
    with 3(1) show ?thesis by (simp add: twice)
  next
    case False
    with 3(2) show ?thesis by simp
  qed
qed simp_all

lemma strict_remdups_adj:
  fixes xs :: "('a :: linorder) list"
  shows "sorted xs \<Longrightarrow> sorted_wrt (<) (remdups_adj xs)"
  by (induction xs rule: remdups_adj.induct) (auto simp: order_less_le)

lemma sorted_upto:
  fixes xs :: "u64 list"
  assumes "sorted xs" and "set xs = u64_of ` {1..n}" and "n < 2 ^ 64"
  shows "remdups_adj xs = map u64_of [1..<Suc n]"
proof -
  have inj: "u64_of i < u64_of j \<longleftrightarrow> i < j" if "i \<le> n" "j \<le> n" for i j
    using assms(3) that by (simp add: word_less_nat_alt)
  have "sorted_wrt (<) (map u64_of [1..<Suc n])"
    using inj by (auto simp: sorted_wrt_map sorted_wrt_iff_nth_less simp del: upt_Suc of_nat_Suc)
  moreover have "sorted_wrt (<) (remdups_adj xs)"
    by (rule strict_remdups_adj [OF assms(1)])
  moreover have "set (remdups_adj xs) = set (map u64_of [1..<Suc n])"
    using assms(2) by (simp add: atLeastLessThanSuc_atLeastAtMost del: upt_Suc)
  ultimately show ?thesis using strict_sorted_equal by blast
qed

section \<open>Replaying one log\<close>

lemma replay_record_logged:
  assumes "logged r"
  shows "replay_record r (mt, mx) = (mem_insert mt (wal_key r) (entry_of r), max mx (wal_sequence r))"
proof -
  have "(if mx < wal_sequence r then wal_sequence r else mx) = max mx (wal_sequence r)" by auto
  then show ?thesis using assms
    by (auto simp: logged_def wal_valid_def replay_record_def entry_of_def MemTable_Put_def MemTable_Delete_def
        kValue_def kDeletion_def)
qed

text \<open>A bound on the size of the table that a memtable makes.\<close>

definition mem_weight :: "MemTable \<Rightarrow> nat" where
  "mem_weight mt = (\<Sum>k \<in> dom (mt_map mt). length k + 30)"

lemma mem_weight_new [simp]: "mem_weight (MemTable_new n) = 0"
  by (simp add: mem_weight_def)

lemma mem_weight_insert:
  assumes "mt_invar mt"
  shows "mem_weight (mem_insert mt k e) \<le> mem_weight mt + (length k + 30)"
proof (cases "k \<in> dom (mt_map mt)")
  case True
  then show ?thesis using assms by (simp add: mem_weight_def mt_map_mem_insert insert_absorb)
next
  case False
  then show ?thesis using assms finite_mt_map [OF assms] by (simp add: mem_weight_def mt_map_mem_insert)
qed

lemma mem_weight_entries:
  assumes "mt_invar mt"
  shows "length (sst_data (GetSortedEntries mt)) \<le> mem_weight mt"
    and "length (GetSortedEntries mt) \<le> mem_weight mt"
proof -
  let ?es = "GetSortedEntries mt"
  have "distinct (map fst ?es)" using GetSortedEntries_sorted [OF assms] strict_sorted_iff by blast
  moreover have "dom (mt_map mt) = set (map fst ?es)" using assms by (simp add: mt_map_entries dom_map_of_conv_image_fst)
  ultimately have w: "mem_weight mt = (\<Sum>x \<leftarrow> ?es. length (fst x) + 30)"
    unfolding mem_weight_def by (simp only: sum.distinct_set_conv_list) (simp add: comp_def)
  have "length (sst_entry k e) \<le> length k + 30" for k e
    using length_EncodeVarint32(2) [of "u32_of (length k)"] by (simp add: length_sst_entry)
  then have "length (sst_data es) \<le> (\<Sum>x \<leftarrow> es. length (fst x) + 30)" for es
  proof (induction es)
    case (Cons x es)
    then show ?case using add_mono [OF Cons.prems [of "fst x" "snd x"] Cons.IH [OF Cons.prems]] by (cases x) simp
  qed simp
  then show "length (sst_data ?es) \<le> mem_weight mt" unfolding w .
  have "length es \<le> (\<Sum>x \<leftarrow> es. length (fst x :: bytes) + 30)" for es :: sst_entries
    by (induction es) auto
  then show "length ?es \<le> mem_weight mt" unfolding w .
qed

definition mem_fits :: "MemTable \<Rightarrow> bool" where
  "mem_fits mt \<longleftrightarrow> mt_invar mt \<and> (\<forall>k \<in> dom (mt_map mt). length k + 29 < 2 ^ 32)"

lemma mem_fits_sst_ok:
  assumes "mem_fits mt" and "MemTable_Count mt \<noteq> 0" and "mem_weight mt * (1 + bloom_bits_per_key opts) < 2 ^ 60"
  shows "sst_ok opts (GetSortedEntries mt)"
proof (rule sst_ok_small)
  let ?es = "GetSortedEntries mt"
  have mt: "mt_invar mt" and len: "\<forall>k \<in> dom (mt_map mt). length k + 29 < 2 ^ 32" using assms(1) by (auto simp: mem_fits_def)
  note w = mem_weight_entries [OF mt]
  show "?es \<noteq> []" using assms(2) Count_entries [OF mt] by auto
  show "keys_sorted ?es" using GetSortedEntries_sorted [OF mt] by (simp add: keys_sorted_def)
  show "keys_fit ?es" using len mt by (auto simp: keys_fit_def mt_map_entries dom_map_of_conv_image_fst)
  have "mem_weight mt \<le> mem_weight mt * (1 + bloom_bits_per_key opts)"
    "mem_weight mt * bloom_bits_per_key opts \<le> mem_weight mt * (1 + bloom_bits_per_key opts)" by simp_all
  then show "length (sst_data ?es) < 2 ^ 60" "length ?es * bloom_bits_per_key opts < 2 ^ 60"
    using w assms(3) mult_right_mono [OF w(2), of "bloom_bits_per_key opts"] by linarith+
qed

lemma fold_replay_record:
  assumes "list_all logged rs" and "mem_fits mt"
  obtains mt' mx' where "fold replay_record rs (mt, mx) = (mt', mx')" and "mem_fits mt'"
    and "mt_map mt' = mt_map mt ++ wal_view rs" and "mem_weight mt' \<le> mem_weight mt + 2 * length (wal_log.log_of rs)"
    and "mx \<le> mx'" and "\<forall>r \<in> set rs. wal_sequence r \<le> mx'" and "mx' = mx \<or> mx' \<in> wal_sequence ` set rs"
proof -
  have "\<exists>mt' mx'. fold replay_record rs (mt, mx) = (mt', mx') \<and> mem_fits mt' \<and>
    mt_map mt' = mt_map mt ++ wal_view rs \<and> mem_weight mt' \<le> mem_weight mt + 2 * length (wal_log.log_of rs) \<and>
    mx \<le> mx' \<and> (\<forall>r \<in> set rs. wal_sequence r \<le> mx') \<and> (mx' = mx \<or> mx' \<in> wal_sequence ` set rs)"
    using assms
  proof (induction rs arbitrary: mt mx)
    case (Cons r rs)
    let ?mt = "mem_insert mt (wal_key r) (entry_of r)" and ?mx = "max mx (wal_sequence r)"
    have mt: "mt_invar mt" and r: "logged r" using Cons.prems by (simp_all add: mem_fits_def)
    have fits: "mem_fits ?mt"
      using Cons.prems mt by (auto simp: mem_fits_def mt_invar_mem_insert mt_map_mem_insert logged_def wal_valid_def)
    have w: "mem_weight ?mt \<le> mem_weight mt + 2 * length (wal_encode r)"
      using mem_weight_insert [OF mt, of "wal_key r" "entry_of r"] by (simp add: length_wal_encode length_wal_inner)
    from Cons.IH [OF _ fits, of ?mx] Cons.prems(1) obtain mt' mx' where
      h: "fold replay_record rs (?mt, ?mx) = (mt', mx')" "mem_fits mt'" "mt_map mt' = mt_map ?mt ++ wal_view rs"
      "mem_weight mt' \<le> mem_weight ?mt + 2 * length (wal_log.log_of rs)" "?mx \<le> mx'"
      "\<forall>r \<in> set rs. wal_sequence r \<le> mx'" "mx' = ?mx \<or> mx' \<in> wal_sequence ` set rs" by auto
    have "mt_map mt' = mt_map mt ++ wal_view (r # rs)"
      unfolding h(3) mt_map_mem_insert [OF mt] wal_view_Cons map_add_assoc by (simp add: map_add_upd)
    moreover have "mem_weight mt' \<le> mem_weight mt + 2 * length (wal_log.log_of (r # rs))"
      using h(4) w by simp
    moreover have "mx' = mx \<or> mx' \<in> wal_sequence ` set (r # rs)" using h(7) by (auto simp: max_def split: if_splits)
    ultimately show ?case using h(1,2,5,6) replay_record_logged [OF r] by auto
  qed simp
  with that show ?thesis by blast
qed

section \<open>Replaying the logs\<close>

text \<open>The manifest lists the tables, or there is none and no table either.\<close>

definition manifest_sync :: "DBImpl \<Rightarrow> fs \<Rightarrow> bool" where
  "manifest_sync db fs \<longleftrightarrow> manifest_says db fs \<or>
     content fs (ManifestPath (db_path db)) = None \<and> (\<forall>level \<in> set (db_levels db). level = []) \<and> db_next_sstable_id db = 1"

definition tables_ok :: "DBImpl \<Rightarrow> fs \<Rightarrow> bool" where
  "tables_ok db fs \<longleftrightarrow> levels_ok db fs \<and> (\<forall>level \<in> set (drop 1 (db_levels db)). disjoint_level level) \<and>
     levels_numbered (db_levels db) \<and> manifest_sync db fs"

definition recovering :: "DBImpl \<Rightarrow> fs \<Rightarrow> bool" where
  "recovering db fs \<longleftrightarrow> reliable fs \<and> mem_fits (db_memtable db) \<and> db_immutables db = [] \<and> tables_ok db fs"

text \<open>What the replay of the records \<open>rs\<close> does to a state.\<close>

definition replayed :: "WALRecord list \<Rightarrow> DBImpl \<Rightarrow> fs \<Rightarrow> DBImpl \<Rightarrow> fs \<Rightarrow> bool" where
  "replayed rs db fs db' fs' \<longleftrightarrow>
     recovering db' fs' \<and> logs_of db' = logs_of db \<and>
     (\<forall>k. lookup_in (sources db' fs') k = (lookup_in (sources db fs) ++ wal_view rs) k) \<and>
     (\<forall>m \<in> set (sources db' fs'). \<forall>k e. m k = Some e \<longrightarrow>
        (\<exists>m' \<in> set (sources db fs). m' k = Some e) \<or> (\<exists>r \<in> set rs. wal_key r = k \<and> entry_of r = e)) \<and>
     (\<forall>q. \<not> table_file (db_path db) q \<longrightarrow> content fs' q = content fs q)"

lemma replayed_trans:
  assumes "replayed rs a fs b fs1" and "replayed rs' b fs1 c fs2"
  shows "replayed (rs @ rs') a fs c fs2"
proof -
  from assms(1) have 1: "logs_of b = logs_of a" "lookup_in (sources b fs1) = lookup_in (sources a fs) ++ wal_view rs"
    "\<And>m k e. m \<in> set (sources b fs1) \<Longrightarrow> m k = Some e \<Longrightarrow>
        (\<exists>m' \<in> set (sources a fs). m' k = Some e) \<or> (\<exists>r \<in> set rs. wal_key r = k \<and> entry_of r = e)"
    "\<forall>q. \<not> table_file (db_path a) q \<longrightarrow> content fs1 q = content fs q" "db_path b = db_path a"
    by (auto simp: replayed_def logs_of_def)
  from assms(2) have 2: "recovering c fs2" "logs_of c = logs_of b"
    "\<forall>k. lookup_in (sources c fs2) k = (lookup_in (sources b fs1) ++ wal_view rs') k"
    "\<And>m k e. m \<in> set (sources c fs2) \<Longrightarrow> m k = Some e \<Longrightarrow>
        (\<exists>m' \<in> set (sources b fs1). m' k = Some e) \<or> (\<exists>r \<in> set rs'. wal_key r = k \<and> entry_of r = e)"
    "\<forall>q. \<not> table_file (db_path b) q \<longrightarrow> content fs2 q = content fs1 q"
    by (auto simp: replayed_def)
  have "(\<exists>m' \<in> set (sources a fs). m' k = Some e) \<or> (\<exists>r \<in> set (rs @ rs'). wal_key r = k \<and> entry_of r = e)"
    if mk: "m \<in> set (sources c fs2)" "m k = Some e" for m k e
    using 2(4) [OF mk]
  proof
    assume "\<exists>m' \<in> set (sources b fs1). m' k = Some e"
    then obtain m' where "m' \<in> set (sources b fs1)" "m' k = Some e" ..
    from 1(3) [OF this] show ?thesis by auto
  qed auto
  with 1 2 show ?thesis by (simp add: replayed_def)
qed

lemma recovering_sources: "recovering db fs \<Longrightarrow> sources db fs = mt_map (db_memtable db) # sst_sources db fs"
  by (simp add: recovering_def sources_Cons)

lemma tables_ok_memtable [simp]: "tables_ok (db\<lparr>db_memtable := mt\<rparr>) fs = tables_ok db fs"
  by (simp add: tables_ok_def levels_ok_def manifest_sync_def manifest_says_def)

lemma replayed_memtable:
  assumes rec: "recovering db fs" and mt: "mem_fits mt" "mt_map mt = mt_map (db_memtable db) ++ wal_view rs"
  shows "replayed rs db fs (db\<lparr>db_memtable := mt\<rparr>) fs"
proof -
  let ?db = "db\<lparr>db_memtable := mt\<rparr>"
  have rec': "recovering ?db fs" using rec mt(1) by (simp add: recovering_def)
  have src: "sources ?db fs = (mt_map (db_memtable db) ++ wal_view rs) # sst_sources db fs"
    using recovering_sources [OF rec'] mt(2) by (simp add: sst_sources_def)
  note src0 = recovering_sources [OF rec]
  have "lookup_in (sources ?db fs) k = (lookup_in (sources db fs) ++ wal_view rs) k" for k
    unfolding src src0 by (simp add: lookup_in_Cons map_add_def split: option.split)
  moreover have "(\<exists>m' \<in> set (sources db fs). m' k = Some e) \<or> (\<exists>r \<in> set rs. wal_key r = k \<and> entry_of r = e)"
    if m: "m \<in> set (sources ?db fs)" "m k = Some e" for m k e
  proof (cases "m \<in> set (sst_sources db fs)")
    case True
    with m(2) show ?thesis unfolding src0 by auto
  next
    case False
    then have "(mt_map (db_memtable db) ++ wal_view rs) k = Some e" using m by (auto simp: src)
    then show ?thesis unfolding src0 using wal_view_Some [of rs k e] by (auto simp: map_add_Some_iff)
  qed
  ultimately show ?thesis using rec' by (simp add: replayed_def logs_of_def)
qed

lemma replayed_flush:
  assumes rec: "recovering db fs" and id: "db_next_sstable_id db + 1 \<noteq> 0"
    and w: "mem_weight (db_memtable db) * (1 + bloom_bits_per_key (db_options db)) < 2 ^ 60"
  obtains db' fs' where "FlushMemTable (db_memtable db) db fs = (Status_OK, db', fs')" and "db_options db' = db_options db"
    and "replayed [] db fs (db'\<lparr>db_memtable := MemTable_new (memtable_size_limit (db_options db))\<rparr>) fs'"
    and "unat (db_next_sstable_id db') \<le> Suc (unat (db_next_sstable_id db))"
proof -
  let ?new = "MemTable_new (memtable_size_limit (db_options db))" and ?mt = "db_memtable db"
  from rec have rel: "reliable fs" and fits: "mem_fits ?mt" and imm: "db_immutables db = []" and tab: "tables_ok db fs"
    unfolding recovering_def by blast+
  have mt: "mt_invar ?mt" using fits by (simp add: mem_fits_def)
  have new: "mem_fits ?new" by (simp add: mem_fits_def)
  show ?thesis
  proof (cases "MemTable_Count ?mt = 0")
    case True
    then have "mt_map ?mt = Map.empty" using mt by (simp add: Count_zero_iff)
    then have "replayed [] db fs (db\<lparr>db_memtable := ?new\<rparr>) fs" by (intro replayed_memtable [OF rec new]) simp
    with True show ?thesis by (intro that [of db fs]) (simp_all add: FlushMemTable_def)
  next
    case False
    have ok: "sst_ok (db_options db) (GetSortedEntries ?mt)" using fits False w by (rule mem_fits_sst_ok)
    from tab have lv: "levels_ok db fs" and dj: "\<forall>level \<in> set (drop 1 (db_levels db)). disjoint_level level"
      and num: "levels_numbered (db_levels db)"
      unfolding tables_ok_def by blast+
    obtain info db' fs' where fl: "FlushMemTable ?mt db fs = (Status_OK, db', fs')"
      and db': "db' = db\<lparr>db_next_sstable_id := db_next_sstable_id db + 1,
        db_levels := (db_levels db)[0 := db_levels db ! 0 @ [info]]\<rparr>"
      and rel': "reliable fs'" and lv': "levels_ok db' fs'" and ss: "sst_sources db' fs' = mt_map ?mt # sst_sources db fs"
      and frame: "\<forall>q. q \<noteq> SSTableFilePath (db_path db) (db_next_sstable_id db) \<and> q \<noteq> ManifestPath (db_path db) \<and>
        q \<noteq> ManifestPath (db_path db) @ str ''.tmp'' \<longrightarrow> content fs' q = content fs q"
      and ml: "meta_level (info_meta info) = 0"
      and man: "content fs' (ManifestPath (db_path db)) = Some (manifest_text (db_next_sstable_id db') (db_levels db'))"
      using rel lv mt False ok id by (rule FlushMemTable_tables)
    let ?db = "db'\<lparr>db_memtable := ?new\<rparr>"
    have "levels_numbered (db_levels db')"
      using levels_numbered_add [OF num _ ml] lv by (simp add: db' levels_ok_def)
    then have "tables_ok db' fs'"
      using lv' dj man by (simp add: tables_ok_def manifest_sync_def manifest_says_def db' drop_update_0 [simplified])
    then have rec': "recovering ?db fs'" using rel' new imm by (simp add: recovering_def db')
    have src: "sources ?db fs' = Map.empty # sources db fs"
      using recovering_sources [OF rec'] recovering_sources [OF rec] ss by (simp add: sst_sources_def)
    have "logs_of ?db = logs_of db" by (simp add: db' logs_of_def)
    moreover have "\<forall>q. \<not> table_file (db_path db) q \<longrightarrow> content fs' q = content fs q"
      using frame by (auto simp: table_file_def)
    ultimately have "replayed [] db fs ?db fs'"
      using rec' by (auto simp: replayed_def src lookup_in_Cons)
    moreover have "unat (db_next_sstable_id db') \<le> Suc (unat (db_next_sstable_id db))"
      using unat_Suc_nonzero [OF id] by (simp add: db')
    ultimately show ?thesis using fl by (intro that [of db' fs']) (simp_all add: db')
  qed
qed

text \<open>A log with its records, the last write of which may have been cut off.\<close>

definition wal_holds :: "WALRecord list \<Rightarrow> bytes \<Rightarrow> bool" where
  "wal_holds rs c \<longleftrightarrow>
     c = wal_log.log_of rs \<or> (\<exists>t r. wal_valid r \<and> strict_prefix t (wal_encode r) \<and> c = wal_log.log_of rs @ t)"

lemma wal_holds_log [simp]: "wal_holds rs (wal_log.log_of rs)"
  by (simp add: wal_holds_def)

lemma wal_holds_Nil [simp]: "wal_holds [] []"
  by (simp add: wal_holds_def)

lemma wal_holds_length: "wal_holds rs c \<Longrightarrow> length (wal_log.log_of rs) \<le> length c"
  by (auto simp: wal_holds_def)

lemma WAL_Recover_log:
  assumes "reliable fs" and "content fs p = Some c" and "wal_holds rs c" and "list_all logged rs"
    and "length c < 2 ^ 64"
  shows "WAL_Recover p fs = (Status_OK, rs)"
proof -
  have valid: "list_all wal_valid rs" using assms(4) by (auto simp: logged_def list_all_iff)
  have "scan_log wal_decode c = rs"
    using assms(3) unfolding wal_holds_def
  proof (elim disjE exE conjE)
    assume "c = wal_log.log_of rs"
    with wal_log.scan_append [OF valid, of "[]"] show ?thesis
      by (simp add: scan_log.simps [of wal_decode "[]"] wal_log.dec_empty)
  next
    fix t r assume "wal_valid r" "strict_prefix t (wal_encode r)" "c = wal_log.log_of rs @ t"
    with valid show ?thesis by (simp add: wal_log.scan_torn)
  qed
  with WAL_Recover_scan [OF assms(1,2,5)] show ?thesis by simp
qed

lemma replay_wals_replayed:
  assumes "recovering db fs" and "\<And>i. i \<in> set is \<Longrightarrow> list_all logged (f i) \<and>
      (\<exists>c. content fs (WALFilePath (db_path db) i) = Some c \<and> wal_holds (f i) c \<and> length c < 2 ^ 64)"
    and "(mem_weight (db_memtable db) + (\<Sum>i \<leftarrow> is. 2 * length (wal_log.log_of (f i)))) * (1 + bloom_bits_per_key (db_options db)) < 2 ^ 60"
    and "unat (db_next_sstable_id db) + length is < 2 ^ 32"
  shows "\<exists>mx' db' fs'. replay_wals is mx db fs = (Status_OK, mx', db', fs') \<and>
    replayed (concat (map f is)) db fs db' fs' \<and> mx \<le> mx' \<and>
    (\<forall>r \<in> set (concat (map f is)). wal_sequence r \<le> mx') \<and>
    (mx' = mx \<or> mx' \<in> wal_sequence ` set (concat (map f is)))"
  using assms
proof (induction "is" arbitrary: db fs mx)
  case Nil
  then show ?case using replayed_memtable [of db fs "db_memtable db" "[]"] by (simp add: recovering_def)
next
  case (Cons i "is")
  from Cons.prems(1) have rel: "reliable fs" and fits: "mem_fits (db_memtable db)" unfolding recovering_def by blast+
  obtain c where log: "list_all logged (f i)" "content fs (WALFilePath (db_path db) i) = Some c" "wal_holds (f i) c"
    "length c < 2 ^ 64"
    using Cons.prems(2) [of i] by auto
  have rd: "WAL_Recover (WALFilePath (db_path db) i) fs = (Status_OK, f i)"
    using rel log(2,3,1,4) by (rule WAL_Recover_log)
  obtain mt mx1 where r: "fold replay_record (f i) (db_memtable db, mx) = (mt, mx1)" "mem_fits mt"
    "mt_map mt = mt_map (db_memtable db) ++ wal_view (f i)"
    "mem_weight mt \<le> mem_weight (db_memtable db) + 2 * length (wal_log.log_of (f i))"
    "mx \<le> mx1" "\<forall>r \<in> set (f i). wal_sequence r \<le> mx1" "mx1 = mx \<or> mx1 \<in> wal_sequence ` set (f i)"
    using log(1) fits by (rule fold_replay_record)
  let ?db1 = "db\<lparr>db_memtable := mt\<rparr>" and ?c = "1 + bloom_bits_per_key (db_options db)"
  let ?rest = "\<Sum>i \<leftarrow> is. 2 * length (wal_log.log_of (f i))"
  have s1: "replayed (f i) db fs ?db1 fs" by (rule replayed_memtable [OF Cons.prems(1) r(2,3)])
  have rec1: "recovering ?db1 fs" using s1 unfolding replayed_def by blast
  have w: "(mem_weight mt + ?rest) * ?c < 2 ^ 60"
  proof -
    have "mem_weight mt + ?rest \<le> mem_weight (db_memtable db) + (\<Sum>i \<leftarrow> i # is. 2 * length (wal_log.log_of (f i)))"
      using r(4) by simp
    from le_less_trans [OF mult_right_mono [OF this] Cons.prems(3)] show ?thesis by simp
  qed
  have step: "\<exists>mx' db' fs'. replay_wals is mx1 db2 fs2 = (Status_OK, mx', db', fs') \<and>
      replayed (concat (map f (i # is))) db fs db' fs' \<and> mx \<le> mx' \<and>
      (\<forall>r \<in> set (concat (map f (i # is))). wal_sequence r \<le> mx') \<and>
      (mx' = mx \<or> mx' \<in> wal_sequence ` set (concat (map f (i # is))))"
    if s2: "replayed (f i) db fs db2 fs2" and w2: "mem_weight (db_memtable db2) \<le> mem_weight mt"
      and id2: "unat (db_next_sstable_id db2) \<le> Suc (unat (db_next_sstable_id db))" for db2 fs2
  proof -
    have eq: "db_options db2 = db_options db" "db_path db2 = db_path db" "recovering db2 fs2"
      "\<And>i. content fs2 (WALFilePath (db_path db) i) = content fs (WALFilePath (db_path db) i)"
      using s2 by (auto simp: replayed_def logs_of_def)
    have "(mem_weight (db_memtable db2) + ?rest) * ?c < 2 ^ 60"
      using le_less_trans [OF mult_right_mono w, of "mem_weight (db_memtable db2) + ?rest"] w2 by simp
    moreover have "unat (db_next_sstable_id db2) + length is < 2 ^ 32" using id2 Cons.prems(4) by simp
    ultimately have "\<exists>mx' db' fs'. replay_wals is mx1 db2 fs2 = (Status_OK, mx', db', fs') \<and>
      replayed (concat (map f is)) db2 fs2 db' fs' \<and> mx1 \<le> mx' \<and>
      (\<forall>r \<in> set (concat (map f is)). wal_sequence r \<le> mx') \<and>
      (mx' = mx1 \<or> mx' \<in> wal_sequence ` set (concat (map f is)))"
      using Cons.prems(2) eq by (intro Cons.IH) simp_all
    then obtain mx' db' fs' where h: "replay_wals is mx1 db2 fs2 = (Status_OK, mx', db', fs')"
      "replayed (concat (map f is)) db2 fs2 db' fs'" "mx1 \<le> mx'"
      "\<forall>r \<in> set (concat (map f is)). wal_sequence r \<le> mx'"
      "mx' = mx1 \<or> mx' \<in> wal_sequence ` set (concat (map f is))" by blast
    have "replayed (concat (map f (i # is))) db fs db' fs'" using replayed_trans [OF s2 h(2)] by simp
    moreover have "mx \<le> mx'" using r(5) h(3) by (rule order_trans)
    moreover have "\<forall>r \<in> set (concat (map f (i # is))). wal_sequence r \<le> mx'"
      using r(6) h(3,4) by (auto intro: order_trans)
    moreover have "mx' = mx \<or> mx' \<in> wal_sequence ` set (concat (map f (i # is)))"
      using r(7) h(5) by auto
    ultimately show ?thesis using h(1) by blast
  qed
  show ?case
  proof (cases "ShouldFlush mt")
    case False
    with rd r(1) step [OF s1] show ?thesis by simp
  next
    case True
    have id: "db_next_sstable_id ?db1 + 1 \<noteq> 0" using Cons.prems(4) by (intro plus_one_nonzero) simp
    have "mem_weight mt * ?c \<le> (mem_weight mt + ?rest) * ?c" by (rule mult_right_mono) simp_all
    then have w1: "mem_weight (db_memtable ?db1) * (1 + bloom_bits_per_key (db_options ?db1)) < 2 ^ 60"
      using w by simp
    obtain db2 fs2 where fl: "FlushMemTable (db_memtable ?db1) ?db1 fs = (Status_OK, db2, fs2)"
      "db_options db2 = db_options ?db1"
      "replayed [] ?db1 fs (db2\<lparr>db_memtable := MemTable_new (memtable_size_limit (db_options ?db1))\<rparr>) fs2"
      "unat (db_next_sstable_id db2) \<le> Suc (unat (db_next_sstable_id ?db1))"
      using rec1 id w1 by (rule replayed_flush)
    have s2: "replayed (f i) db fs (db2\<lparr>db_memtable := MemTable_new (memtable_size_limit (db_options db))\<rparr>) fs2"
      using replayed_trans [OF s1 fl(3)] by simp
    show ?thesis using rd r(1) True fl step [OF s2] by simp
  qed
qed

section \<open>The tables of the manifest\<close>

lemma manifest_text_reload: "manifest_text n (map (map (reload opts dbp fs)) L) = manifest_text n L"
proof -
  have "manifest_line (info_meta (reload opts dbp fs i)) = manifest_line (info_meta i)" for i
    by (simp add: reload_def manifest_line_def)
  then have "map (\<lambda>i. manifest_line (info_meta i)) (concat (map (map (reload opts dbp fs)) L)) =
      map (\<lambda>i. manifest_line (info_meta i)) (concat L)"
    unfolding map_concat [symmetric] by simp
  then show ?thesis by (simp only: manifest_text_def)
qed

lemma LoadManifest_tables:
  assumes rel: "reliable fs" and tab: "tables_ok db fs" and plain: "levels_plain (db_levels db)"
    and len: "disk_bytes fs < 2 ^ 64"
  obtains s db' where "LoadManifest (DBImpl_new (db_options db) (db_path db)) fs = (s, db')" and "ok s \<or> IsNotFound s"
    and "db' = (DBImpl_new (db_options db) (db_path db))\<lparr>db_next_sstable_id := db_next_sstable_id db, db_levels := db_levels db'\<rparr>"
    and "tables_ok db' fs" and "sst_sources db' fs = sst_sources db fs"
proof -
  let ?db0 = "DBImpl_new (db_options db) (db_path db)"
  from tab have lv: "levels_ok db fs" and dj: "\<forall>level \<in> set (drop 1 (db_levels db)). disjoint_level level"
    and num: "levels_numbered (db_levels db)" and man: "manifest_sync db fs"
    unfolding tables_ok_def by blast+
  show ?thesis
  proof (cases "manifest_says db fs")
    case True
    let ?L = "map (map (reload (db_options db) (db_path db) fs)) (db_levels db)"
    let ?db' = "?db0\<lparr>db_next_sstable_id := db_next_sstable_id db, db_levels := ?L\<rparr>"
    have c: "content fs (ManifestPath (db_path db)) = Some (manifest_text (db_next_sstable_id db) (db_levels db))"
      using True by (simp add: manifest_says_def)
    have "LoadManifest ?db0 fs = (Status_OK, ?db')"
      using LoadManifest_text [OF rel, of ?db0 "db_next_sstable_id db" "db_levels db"] c plain lv content_disk_bytes [OF c] len
      by (simp add: DBImpl_new_def levels_ok_def)
    moreover have r: "levels_ok ?db' fs" "sst_sources ?db' fs = sst_sources db fs"
      using reload_levels [OF rel lv, of ?db'] by (simp_all add: DBImpl_new_def)
    moreover have "disjoint_level (map (reload (db_options db) (db_path db) fs) level) = disjoint_level level" for level
      by (simp add: disjoint_level_def sorted_wrt_map reload_def)
    then have "\<forall>level \<in> set (drop 1 ?L). disjoint_level level" using dj by (auto simp: drop_map)
    moreover have "levels_numbered ?L" using num by (auto simp: levels_numbered_def reload_def)
    moreover have "manifest_says ?db' fs" using c by (simp add: manifest_says_def manifest_text_reload DBImpl_new_def)
    ultimately show ?thesis
      by (intro that [of Status_OK ?db']) (simp_all add: tables_ok_def manifest_sync_def)
  next
    case False
    with man have m: "content fs (ManifestPath (db_path db)) = None" "\<forall>level \<in> set (db_levels db). level = []"
      "db_next_sstable_id db = 1"
      by (auto simp: manifest_sync_def)
    have L: "db_levels db = replicate (max_sstable_levels (db_options db)) []"
      using m(2) lv by (auto simp: levels_ok_def intro!: replicate_eqI)
    have eq: "?db0 = ?db0\<lparr>db_next_sstable_id := db_next_sstable_id db, db_levels := db_levels ?db0\<rparr>"
      "db_levels ?db0 = db_levels db" "db_path ?db0 = db_path db" "db_options ?db0 = db_options db"
      "db_next_sstable_id ?db0 = db_next_sstable_id db"
      by (simp_all add: DBImpl_new_def L m(3))
    have "LoadManifest ?db0 fs = (NotFound (str ''Manifest not found''), ?db0)"
      using m(1) by (simp add: LoadManifest_def FileExists_def DBImpl_new_def)
    moreover have "tables_ok ?db0 fs"
      using tab unfolding tables_ok_def levels_ok_def manifest_sync_def manifest_says_def eq(2-5) .
    moreover have "sst_sources ?db0 fs = sst_sources db fs" by (simp add: sst_sources_def eq(2))
    ultimately show ?thesis using eq(1) by (intro that [of "NotFound (str ''Manifest not found'')" ?db0]) simp_all
  qed
qed

section \<open>All logs\<close>

text \<open>
  The write-ahead logs are numbered from 1; \<open>rss\<close> are their records. The logs of earlier
  runs may end in a torn one.
\<close>

definition wal_files :: "path \<Rightarrow> WALRecord list list \<Rightarrow> fs \<Rightarrow> bool" where
  "wal_files dbp rss fs \<longleftrightarrow>
     (\<forall>i. if 1 \<le> unat i \<and> unat i \<le> length rss
          then \<exists>c. content fs (WALFilePath dbp i) = Some c \<and> wal_holds (rss ! (unat i - 1)) c
          else content fs (WALFilePath dbp i) = None)"

text \<open>What the replay may need: small files, numbers of five digits, ids for new tables.\<close>

definition replay_room :: "DBImpl \<Rightarrow> fs \<Rightarrow> bool" where
  "replay_room db fs \<longleftrightarrow>
     2 * disk_bytes fs * (1 + bloom_bits_per_key (db_options db)) < 2 ^ 60 \<and>
     unat (db_next_sstable_id db) + length (fs_files fs) < 2 ^ 32"

lemma nth_upto_list: "map (\<lambda>j. xs ! (j - 1)) [1..<Suc (length xs)] = xs"
  by (rule nth_equalityI) (simp_all del: upt_Suc)

lemma sum_list_sort: "sum_list (map f (sort xs)) = sum_list (map f xs)" for f :: "'a :: linorder \<Rightarrow> nat"
proof -
  have "mset (map f (sort xs)) = mset (map f xs)" by simp
  then show ?thesis unfolding sum_mset_sum_list [symmetric] by simp
qed

lemma WAL_Create_new:
  assumes "reliable fs"
  obtains wal fs' where "WAL_Create i (WAL_new dbp) fs = (Status_OK, wal, fs')" and "reliable fs'"
    and "wal_open wal (WALFilePath dbp i)" and "wal_db_path wal = dbp"
    and "content fs' = (content fs)(WALFilePath dbp i \<mapsto> [])"
proof -
  let ?r = "WAL_Create i (WAL_new dbp) fs"
  show ?thesis
    by (rule that [of "fst (snd ?r)" "snd (snd ?r)"])
      (use assms in \<open>simp_all add: WAL_Create_def WAL_new_def wal_open_def open_on_def Writer_Open_def Let_def\<close>)
qed

lemma RecoverFromWAL_replayed:
  assumes rec: "recovering db fs" and new: "db_memtable db = MemTable_new m" "db_wal db = WAL_new (db_path db)"
    and dir: "dir_ok (db_path db) fs" and wals: "wal_files (db_path db) rss fs"
    and n: "0 < length rss" "length rss < 100000" and logged: "list_all logged (concat rss)" and room: "replay_room db fs"
  obtains rs mx db1 fs1 wal fs2 where
    "RecoverFromWAL db fs = (Status_OK, db1\<lparr>db_sequence_number := mx + 1,
       db_wal_id := u64_of (Suc (length rss)), db_wal := wal\<rparr>, fs2)"
    and "replayed rs db fs db1 fs1" and "wal_view rs = wal_view (concat rss)" and "set rs = set (concat rss)"
    and "db_sequence_number db \<le> mx" and "\<forall>r \<in> set rs. wal_sequence r \<le> mx"
    and "mx = db_sequence_number db \<or> mx \<in> wal_sequence ` set rs"
    and "reliable fs2" and "wal_open wal (WALFilePath (db_path db) (u64_of (Suc (length rss))))"
    and "wal_db_path wal = db_path db"
    and "content fs2 = (content fs1)(WALFilePath (db_path db) (u64_of (Suc (length rss))) \<mapsto> [])"
proof -
  let ?dbp = "db_path db" and ?n = "length rss" and ?c = "1 + bloom_bits_per_key (db_options db)"
  define f where "f = (\<lambda>i :: u64. rss ! (unat i - 1))"
  have rel: "reliable fs" using rec by (simp add: recovering_def)
  obtain ch where ch: "GetChildren ?dbp fs = (Status_OK, ch)" using rel by (simp add: GetChildren_def)
  have ex: "content fs (WALFilePath ?dbp i) \<noteq> None \<longleftrightarrow> 1 \<le> unat i \<and> unat i \<le> ?n" for i
    using wals by (fastforce simp: wal_files_def split: if_splits)
  obtain ids where ids: "collect_ids is_wal_name 4 (snd (GetChildren ?dbp fs)) = Some ids" "set ids = {1..?n}"
    "length ids \<le> length (fs_files fs)"
    "(\<Sum>i \<leftarrow> ids. length (file_bytes fs (WALFilePath ?dbp (u64_of i)))) \<le> disk_bytes fs"
    by (rule wal_ids_collected [OF rel dir n(2) ex])
  define wids where "wids = sort (map u64_of ids)"
  have set_w: "set wids = u64_of ` {1..?n}" by (simp add: wids_def ids(2))
  have rem: "remdups_adj wids = map u64_of [1..<Suc ?n]"
    by (rule sorted_upto [OF _ set_w]) (use n(2) in \<open>simp_all add: wids_def\<close>)
  have u: "unat (u64_of j) = j" if "j \<in> {1..?n}" for j using that n(2) by (intro unat_of_nat_64) auto
  have fs_w: "(\<exists>c. content fs (WALFilePath ?dbp i) = Some c \<and> wal_holds (f i) c) \<and> f i \<in> set rss" if "i \<in> set wids" for i
  proof -
    from that obtain j where "j \<in> {1..?n}" "i = u64_of j" unfolding set_w by blast
    with wals [unfolded wal_files_def, THEN spec, of i] u [of j] show ?thesis unfolding f_def by auto
  qed
  have log: "list_all logged (f i) \<and>
      (\<exists>c. content fs (WALFilePath ?dbp i) = Some c \<and> wal_holds (f i) c \<and> length c < 2 ^ 64)" if "i \<in> set wids" for i
  proof -
    from fs_w [OF that] obtain c where c: "content fs (WALFilePath ?dbp i) = Some c" "wal_holds (f i) c" "f i \<in> set rss" by blast
    have "disk_bytes fs \<le> 2 * disk_bytes fs * ?c" by simp
    moreover have "2 * disk_bytes fs * ?c < 2 ^ 60" using room unfolding replay_room_def by blast
    ultimately have "disk_bytes fs < 2 ^ 60" by (rule le_less_trans)
    with content_disk_bytes [OF c(1)] c logged show ?thesis by (auto simp: list_all_iff)
  qed
  have sum: "(\<Sum>i \<leftarrow> wids. 2 * length (wal_log.log_of (f i))) \<le> 2 * disk_bytes fs"
  proof -
    have "(\<Sum>i \<leftarrow> wids. length (wal_log.log_of (f i))) \<le> (\<Sum>i \<leftarrow> wids. length (file_bytes fs (WALFilePath ?dbp i)))"
    proof (rule sum_list_mono)
      fix i assume "i \<in> set wids"
      from fs_w [OF this] show "length (wal_log.log_of (f i)) \<le> length (file_bytes fs (WALFilePath ?dbp i))"
        by (auto simp: file_bytes_Some wal_holds_length)
    qed
    also have "\<dots> = (\<Sum>i \<leftarrow> map u64_of ids. length (file_bytes fs (WALFilePath ?dbp i)))"
      unfolding wids_def by (rule sum_list_sort)
    also have "\<dots> \<le> disk_bytes fs" using ids(4) by (simp add: comp_def)
    finally show ?thesis by (simp add: sum_list_const_mult)
  qed
  have w: "(mem_weight (db_memtable db) + (\<Sum>i \<leftarrow> wids. 2 * length (wal_log.log_of (f i)))) * ?c < 2 ^ 60"
  proof -
    have "mem_weight (db_memtable db) + (\<Sum>i \<leftarrow> wids. 2 * length (wal_log.log_of (f i))) \<le> 2 * disk_bytes fs"
      using sum by (simp add: new(1))
    then have "(mem_weight (db_memtable db) + (\<Sum>i \<leftarrow> wids. 2 * length (wal_log.log_of (f i)))) * ?c \<le> 2 * disk_bytes fs * ?c"
      by (rule mult_right_mono) simp
    also have "\<dots> < 2 ^ 60" using room unfolding replay_room_def by blast
    finally show ?thesis .
  qed
  have id: "unat (db_next_sstable_id db) + length wids < 2 ^ 32"
    using room ids(3) by (simp add: replay_room_def wids_def)
  obtain mx db1 fs1 where r: "replay_wals wids (db_sequence_number db) db fs = (Status_OK, mx, db1, fs1)"
    "replayed (concat (map f wids)) db fs db1 fs1" "db_sequence_number db \<le> mx"
    "\<forall>r \<in> set (concat (map f wids)). wal_sequence r \<le> mx"
    "mx = db_sequence_number db \<or> mx \<in> wal_sequence ` set (concat (map f wids))"
    using replay_wals_replayed [OF rec log w id, of "db_sequence_number db"] by blast
  have "map f (map u64_of [1..<Suc ?n]) = map (\<lambda>j. rss ! (j - 1)) [1..<Suc ?n]"
    using u by (auto simp: f_def simp del: upt_Suc of_nat_Suc)
  then have fr: "map f (remdups_adj wids) = rss" unfolding rem by (simp only: nth_upto_list)
  then have view: "wal_view (concat (map f wids)) = wal_view (concat rss)" using wal_view_remdups [of f wids] by simp
  have "set (map f (remdups_adj wids)) = set (map f wids)" by simp
  then have sets: "set (concat (map f wids)) = set (concat rss)" unfolding fr by simp
  have ne: "wids \<noteq> []" and last: "last wids = u64_of ?n"
  proof -
    show ne: "wids \<noteq> []" using set_w n(1) by (auto simp: Suc_le_eq)
    have "last (remdups_adj wids) = u64_of ?n" unfolding rem using n(1) by (simp add: last_map Suc_le_eq)
    then show "last wids = u64_of ?n" by simp
  qed
  have "logs_of db1 = logs_of db" and "recovering db1 fs1" using r(2) unfolding replayed_def by blast+
  then have eq: "db_path db1 = ?dbp" "db_wal db1 = WAL_new ?dbp" and rel1: "reliable fs1"
    using new(2) by (simp_all add: logs_of_def recovering_def)
  obtain wal fs2 where cr: "WAL_Create (u64_of (Suc ?n)) (WAL_new ?dbp) fs1 = (Status_OK, wal, fs2)" "reliable fs2"
    "wal_open wal (WALFilePath ?dbp (u64_of (Suc ?n)))" "wal_db_path wal = ?dbp"
    "content fs2 = (content fs1)(WALFilePath ?dbp (u64_of (Suc ?n)) \<mapsto> [])"
    using rel1 by (rule WAL_Create_new)
  have "RecoverFromWAL db fs = (Status_OK, db1\<lparr>db_sequence_number := mx + 1,
       db_wal_id := u64_of (Suc ?n), db_wal := wal\<rparr>, fs2)"
    using ids(1) r(1) ne last cr(1) eq(2)
    by (simp add: RecoverFromWAL_def ch wids_def [symmetric] Let_def add.commute)
  from that [OF this r(2) view sets r(3-5) cr(2-5)] show ?thesis .
qed

section \<open>What a crash leaves\<close>

text \<open>
  Everything the database has accepted is on disk: the logs hold an entry for whatever a lookup
  finds, in the order of the sequence numbers, and the manifest lists the tables. The keys can be
  written to the manifest.
\<close>

definition records_ok :: "u64 \<Rightarrow> WALRecord list \<Rightarrow> bool" where
  "records_ok n rs \<longleftrightarrow> list_all logged rs \<and> (\<forall>r \<in> set rs. plain_key (wal_key r) \<and> wal_sequence r < n) \<and>
     sorted_wrt (<) (map wal_sequence rs)"

definition recoverable :: "WALRecord list list \<Rightarrow> DBImpl \<Rightarrow> fs \<Rightarrow> bool" where
  "recoverable rss db fs \<longleftrightarrow>
     dir_ok (db_path db) fs \<and> wal_files (db_path db) rss fs \<and>
     unat (db_wal_id db) = length rss \<and> 0 < length rss \<and> 0 < vl_current_file_id (db_vlog db) \<and>
     records_ok (db_sequence_number db) (concat rss) \<and>
     keeps_or_drops [wal_view (concat rss)] (sources db fs) \<and>
     levels_numbered (db_levels db) \<and> manifest_sync db fs"

text \<open>While the database is open the current log is whole.\<close>

definition durable :: "WALRecord list list \<Rightarrow> DBImpl \<Rightarrow> fs \<Rightarrow> bool" where
  "durable rss db fs \<longleftrightarrow> recoverable rss db fs \<and>
     content fs (WALFilePath (db_path db) (db_wal_id db)) = Some (wal_log.log_of (last rss))"

lemma lookup_in_single [simp]: "lookup_in [m] k = m k"
  by (simp add: lookup_in_Cons lookup_in_def split: option.split)

text \<open>Every entry of a source was logged under its key, or there is a newer one that was.\<close>

lemma recoverable_entry:
  assumes inv: "db_inv db fs kv" and dur: "recoverable rss db fs" and m: "m \<in> set (sources db fs)" "m k = Some e"
  obtains e' where "wal_view (concat rss) k = Some e'" and "e = e' \<or> entry_seq e < entry_seq e'"
proof -
  have "lookup_in (sources db fs) k \<noteq> None" using m by (auto simp: lookup_in_None)
  then obtain e' where e': "lookup_in (sources db fs) k = Some e'" by blast
  have "e = e' \<or> entry_seq e < entry_seq e'" using inv m e' unfolding db_inv_def newest_def by blast
  moreover have "wal_view (concat rss) k = Some e'"
    using dur e' unfolding recoverable_def keeps_or_drops_def lookup_in_single by (metis option.distinct(1))
  ultimately show ?thesis using that by blast
qed

lemma recoverable_levels_plain:
  assumes inv: "db_inv db fs kv" and dur: "recoverable rss db fs" and max: "max_sstable_levels (db_options db) < 2 ^ 31"
  shows "levels_plain (db_levels db)"
proof -
  from inv have rel: "reliable fs" and lv: "levels_ok db fs" unfolding db_inv_def by blast+
  have plain: "plain_key (meta_smallest_key (info_meta info)) \<and> plain_key (meta_largest_key (info_meta info))"
    if "info \<in> set (concat (db_levels db))" for info
  proof -
    have "info_ok fs (db_path db) info" using lv that unfolding levels_ok_def by blast
    then obtain es where es: "info_table fs (db_path db) info es" by (auto simp: info_ok_def)
    then have t: "is_table fs (info_reader info) es" by (simp add: info_table_def)
    have src: "tmap fs info \<in> set (sources db fs)"
      using that lv by (auto simp: sources_def sst_sources_flat levels_ok_def)
    have "plain_key k" if "k \<in> fst ` set es" for k
    proof -
      from that tmap_table [OF rel t] obtain e where e: "tmap fs info k = Some e"
        by (metis map_of_eq_None_iff not_None_eq)
      obtain e' where "wal_view (concat rss) k = Some e'" by (rule recoverable_entry [OF inv dur src e])
      from wal_view_Some [OF this] dur show ?thesis unfolding recoverable_def records_ok_def by blast
    qed
    moreover have "es \<noteq> []" using t by (auto simp: is_table_def sst_ok_def)
    ultimately show ?thesis using es by (simp add: info_table_def)
  qed
  show ?thesis
    using dur lv max plain by (fastforce simp: levels_plain_def recoverable_def levels_numbered_def levels_ok_def)
qed

section \<open>Opening again\<close>

text \<open>The state that a replay of all records makes of the tables stands for the same map.\<close>

lemma recovered_sources:
  assumes inv: "db_inv db fs kv" and dur: "recoverable rss db fs"
    and view: "wal_view rs = wal_view (concat rss)" "set rs = set (concat rss)"
    and look: "\<And>k. lookup_in ms k = (lookup_in (Map.empty # sst_sources db fs) ++ wal_view rs) k"
    and sub: "\<forall>m \<in> set ms. \<forall>k e. m k = Some e \<longrightarrow>
      (\<exists>m' \<in> set (sst_sources db fs). m' k = Some e) \<or> (\<exists>r \<in> set rs. wal_key r = k \<and> entry_of r = e)"
    and mx: "\<forall>r \<in> set rs. wal_sequence r \<le> mx" "mx + 1 \<noteq> 0"
  shows "lookup_in ms k = wal_view (concat rss) k" and "newest ms" and "seqs_below (mx + 1) ms"
    and "entry_stands fs (db_path db) k (lookup_in ms k) (kv k)"
proof -
  let ?R = "wal_view (concat rss)"
  have sst: "m \<in> set (sources db fs)" if "m \<in> set (sst_sources db fs)" for m using that by (simp add: sources_def)
  have lk: "lookup_in ms k = ?R k" for k
  proof (cases "?R k")
    case None
    have "m k = None" if m: "m \<in> set (sst_sources db fs)" for m
    proof (rule ccontr)
      assume "m k \<noteq> None"
      then obtain e where "m k = Some e" by blast
      from recoverable_entry [OF inv dur sst [OF m] this] None show False by simp
    qed
    then have "lookup_in (Map.empty # sst_sources db fs) k = None" by (simp add: lookup_in_None)
    with None show ?thesis by (simp add: look view map_add_def)
  next
    case (Some e)
    then show ?thesis by (simp add: look view)
  qed
  show "lookup_in ms k = ?R k" by (rule lk)
  have rec: "?R k = Some e \<Longrightarrow> entry_seq e \<le> mx" for k e
    using wal_view_Some [of "concat rss" k e] mx(1) view(2) by (auto simp: entry_of_def)
  have srt: "sorted_wrt (<) (map wal_sequence (concat rss))" using dur unfolding recoverable_def records_ok_def by blast
  have entry: "\<exists>e'. ?R k = Some e' \<and> (e = e' \<or> entry_seq e < entry_seq e')" if m: "m \<in> set ms" "m k = Some e" for m k e
    using sub [rule_format, OF m]
  proof
    assume "\<exists>m' \<in> set (sst_sources db fs). m' k = Some e"
    then obtain m' where "m' \<in> set (sources db fs)" "m' k = Some e" using sst by blast
    from recoverable_entry [OF inv dur this] show ?thesis by blast
  next
    assume "\<exists>r \<in> set rs. wal_key r = k \<and> entry_of r = e"
    then obtain r where r: "r \<in> set (concat rss)" "wal_key r = k" "entry_of r = e" using view(2) by blast
    then have "?R k \<noteq> None" by (auto simp: wal_view_None)
    then obtain e' where "?R k = Some e'" by blast
    with wal_view_newest [OF srt r(1)] r(2,3) show ?thesis by (auto simp: entry_of_def)
  qed
  show "newest ms"
    unfolding newest_def lk using entry by fastforce
  have "e \<le> mx \<Longrightarrow> e < mx + 1" for e :: u64 using less_Suc_nonzero [OF mx(2)] by (auto simp: order_le_less)
  moreover have "entry_seq e \<le> mx" if "m \<in> set ms" "m k = Some e" for m k e
    using entry [OF that] rec by fastforce
  ultimately show "seqs_below (mx + 1) ms" unfolding seqs_below_def by blast
  have "entry_stands fs (db_path db) k (lookup_in (sources db fs) k) (kv k)"
    using inv unfolding db_inv_def represents_def by blast
  moreover have "lookup_in (sources db fs) k = ?R k \<or> lookup_in (sources db fs) k = None \<and> (\<exists>e. ?R k = Some e \<and> entry_type e = kDeletion)"
    using dur unfolding recoverable_def keeps_or_drops_def lookup_in_single by blast
  ultimately show "entry_stands fs (db_path db) k (lookup_in ms k) (kv k)"
    unfolding lk by (auto simp: entry_stands_def)
qed

definition reopen_room :: "DBImpl \<Rightarrow> fs \<Rightarrow> bool" where
  "reopen_room db fs \<longleftrightarrow> replay_room db fs \<and> unat (db_wal_id db) < 99999 \<and>
     unat (vl_current_file_id (db_vlog db)) < 100000 \<and> max_sstable_levels (db_options db) < 2 ^ 31"

lemma plus_one_less: "x < y \<Longrightarrow> x + 1 \<noteq> 0" for x y :: u64
  using plus_one_nonzero [of x] unat_u64_bound [of y] by (simp add: word_less_nat_alt)

lemma wal_files_snoc:
  assumes "wal_files dbp rss fs" and u: "unat j = Suc (length rss)"
    and "\<And>i. content fs' (WALFilePath dbp i) = content fs (WALFilePath dbp i)"
    and "content fs2 = (content fs')(WALFilePath dbp j \<mapsto> [])"
  shows "wal_files dbp (rss @ [[]]) fs2"
  unfolding wal_files_def
proof
  fix i
  show "if 1 \<le> unat i \<and> unat i \<le> length (rss @ [[]])
      then \<exists>c. content fs2 (WALFilePath dbp i) = Some c \<and> wal_holds ((rss @ [[]]) ! (unat i - 1)) c
      else content fs2 (WALFilePath dbp i) = None"
  proof (cases "i = j")
    case True
    then show ?thesis using u by (simp add: assms(4))
  next
    case False
    then have "unat i \<noteq> Suc (length rss)" using u by (metis word_unat_eq_iff)
    moreover have "content fs2 (WALFilePath dbp i) = content fs (WALFilePath dbp i)" using False by (simp add: assms(3,4))
    ultimately show ?thesis
      using assms(1) unfolding wal_files_def by (auto simp: nth_append le_Suc_eq dest: spec [of _ i])
  qed
qed

lemma LoadManifest_vlog:
  "LoadManifest (db\<lparr>db_vlog := vl\<rparr>) fs = (fst (LoadManifest db fs), (snd (LoadManifest db fs))\<lparr>db_vlog := vl\<rparr>)"
  by (simp add: LoadManifest_def Let_def split: prod.split option.split)

lemma DB_Open_recovers:
  assumes inv: "db_inv db fs kv" and dur: "recoverable rss db fs" and room: "reopen_room db fs"
  obtains db' fs' where "DB_Open (db_options db) (db_path db) fs = (Status_OK, Some db', fs')" and "db_inv db' fs' kv"
    and "durable (rss @ [[]]) db' fs'" and "db_options db' = db_options db" and "db_path db' = db_path db"
    and "db_immutables db' = []" and "db_wal_id db' = db_wal_id db + 1"
    and "vl_current_file_id (db_vlog db') = vl_current_file_id (db_vlog db)"
    and "unat (db_sequence_number db') \<le> max 2 (unat (db_sequence_number db))"
proof -
  let ?dbp = "db_path db" and ?opts = "db_options db" and ?n = "length rss"
  let ?wp = "WALFilePath ?dbp (u64_of (Suc ?n))" and ?R = "wal_view (concat rss)"
  from inv have rel: "reliable fs" and lv: "levels_ok db fs" and logs: "logs_ok db fs"
    and dj: "\<forall>level \<in> set (drop 1 (db_levels db)). disjoint_level level"
    unfolding db_inv_def by blast+
  from dur have dir: "dir_ok ?dbp fs" and wals: "wal_files ?dbp rss fs" and wid: "unat (db_wal_id db) = ?n" and n0: "0 < ?n"
    and cur: "0 < vl_current_file_id (db_vlog db)" and recs: "records_ok (db_sequence_number db) (concat rss)"
    and num: "levels_numbered (db_levels db)" and man: "manifest_sync db fs"
    unfolding recoverable_def by blast+
  from room have rr: "replay_room db fs" and n: "?n < 99999" and cur2: "unat (vl_current_file_id (db_vlog db)) < 100000"
    and mx31: "max_sstable_levels ?opts < 2 ^ 31"
    unfolding reopen_room_def wid by blast+
  have tab: "tables_ok db fs" using lv dj num man by (simp add: tables_ok_def)
  have plain: "levels_plain (db_levels db)" using inv dur mx31 by (rule recoverable_levels_plain)
  have disk: "disk_bytes fs < 2 ^ 64"
  proof -
    have "disk_bytes fs \<le> 2 * disk_bytes fs * (1 + bloom_bits_per_key ?opts)" by simp
    also have "\<dots> < 2 ^ 60" using rr unfolding replay_room_def by blast
    finally show ?thesis by simp
  qed
  from logs have vl0: "vl_ok (db_vlog db) fs" and vo: "vl_db_path (db_vlog db) = ?dbp" "vl_options (db_vlog db) = ?opts"
    and clean: "vlogs_clean fs ?dbp"
    unfolding logs_ok_def by blast+
  from vl0 obtain c where c: "content fs (vlog_file_path ?dbp (vl_current_file_id (db_vlog db))) = Some c" "length c < 2 ^ 63"
    and lim: "vlog_file_size_limit ?opts < 2 ^ 63"
    and le: "\<And>i. content fs (vlog_file_path ?dbp i) \<noteq> None \<Longrightarrow> i \<le> vl_current_file_id (db_vlog db)"
    unfolding vl_ok_def VLogFilePath_def vo by metis
  obtain vl where vl: "VLog_Open (VLog_new ?dbp ?opts) fs = (Status_OK, vl, fs)" "vl_ok vl fs" "vl_db_path vl = ?dbp"
    "vl_options vl = ?opts" "vl_current_file_id vl = vl_current_file_id (db_vlog db)"
    by (rule VLog_Open_existing [OF rel dir cur cur2 c lim le])
  let ?new = "DBImpl_new ?opts ?dbp"
  obtain s db1 where lm: "LoadManifest ?new fs = (s, db1)" "ok s \<or> IsNotFound s"
    "db1 = ?new\<lparr>db_next_sstable_id := db_next_sstable_id db, db_levels := db_levels db1\<rparr>"
    "tables_ok db1 fs" "sst_sources db1 fs = sst_sources db fs"
    by (rule LoadManifest_tables [OF rel tab plain disk])
  let ?mt = "MemTable_new (memtable_size_limit ?opts)"
  let ?db2 = "db1\<lparr>db_vlog := vl, db_memtable := ?mt, db_wal := WAL_new ?dbp\<rparr>"
  have f1: "db_path db1 = ?dbp" "db_options db1 = ?opts" "db_immutables db1 = []" "db_sequence_number db1 = 1"
    "db_next_sstable_id db1 = db_next_sstable_id db"
    by (subst lm(3), simp add: DBImpl_new_def)+
  have "tables_ok ?db2 fs"
    using lm(4) by (simp add: tables_ok_def levels_ok_def manifest_sync_def manifest_says_def)
  then have rec: "recovering ?db2 fs" using rel f1(3) by (simp add: recovering_def mem_fits_def)
  have dir2: "dir_ok (db_path ?db2) fs" and wals2: "wal_files (db_path ?db2) rss fs" and room2: "replay_room ?db2 fs"
    and wal2: "db_wal ?db2 = WAL_new (db_path ?db2)" and mt2: "db_memtable ?db2 = ?mt"
    using dir wals rr f1 by (simp_all add: replay_room_def)
  have logged: "list_all logged (concat rss)" using recs by (simp add: records_ok_def)
  have n': "?n < 100000" using n by simp
  obtain rs mx db3 fs3 wal fs4 where r: "RecoverFromWAL ?db2 fs = (Status_OK, db3\<lparr>db_sequence_number := mx + 1,
       db_wal_id := u64_of (Suc ?n), db_wal := wal\<rparr>, fs4)"
    "replayed rs ?db2 fs db3 fs3" "wal_view rs = ?R" "set rs = set (concat rss)"
    "db_sequence_number ?db2 \<le> mx" "\<forall>r \<in> set rs. wal_sequence r \<le> mx"
    "mx = db_sequence_number ?db2 \<or> mx \<in> wal_sequence ` set rs"
    "reliable fs4" "wal_open wal (WALFilePath (db_path ?db2) (u64_of (Suc ?n)))" "wal_db_path wal = db_path ?db2"
    "content fs4 = (content fs3)(WALFilePath (db_path ?db2) (u64_of (Suc ?n)) \<mapsto> [])"
    by (rule RecoverFromWAL_replayed [OF rec mt2 wal2 dir2 wals2 n0 n' logged room2])
  have lm2: "LoadManifest (?new\<lparr>db_vlog := vl\<rparr>) fs = (s, db1\<lparr>db_vlog := vl\<rparr>)"
    by (simp add: LoadManifest_vlog lm(1))
  have nw: "db_path ?new = ?dbp" "db_options ?new = ?opts" by (simp_all add: DBImpl_new_def)
  let ?db = "db3\<lparr>db_sequence_number := mx + 1, db_wal_id := u64_of (Suc ?n), db_wal := wal\<rparr>"
  have op: "DB_Open ?opts ?dbp fs = (Status_OK, Some ?db, fs4)"
    using vl(1) lm(2) r(1) f1(1,2) rel nw lm2
    by (simp add: DB_Open_def DBImpl_Open_def CreateDir_def Let_def)
  have e3: "logs_of db3 = logs_of ?db2" and rec3: "recovering db3 fs3"
    and look: "\<And>k. lookup_in (sources db3 fs3) k = (lookup_in (sources ?db2 fs) ++ wal_view rs) k"
    and sub: "\<And>m k e. m \<in> set (sources db3 fs3) \<Longrightarrow> m k = Some e \<Longrightarrow>
      (\<exists>m' \<in> set (sources ?db2 fs). m' k = Some e) \<or> (\<exists>r \<in> set rs. wal_key r = k \<and> entry_of r = e)"
    and frame: "\<And>q. \<not> table_file ?dbp q \<Longrightarrow> content fs3 q = content fs q"
    using r(2) f1(1) unfolding replayed_def by auto
  have f3: "db_path db3 = ?dbp" "db_options db3 = ?opts" "db_vlog db3 = vl" "db_sequence_number ?db2 = 1"
    using e3 f1 by (simp_all add: logs_of_def)
  have f4: "db_path ?db = ?dbp" "db_options ?db = ?opts" "db_vlog ?db = vl" "db_levels ?db = db_levels db3"
    "db_next_sstable_id ?db = db_next_sstable_id db3" "db_wal ?db = wal" "db_wal_id ?db = u64_of (Suc ?n)"
    "db_memtable ?db = db_memtable db3" "db_immutables ?db = db_immutables db3" "db_sequence_number ?db = mx + 1"
    using f3 by simp_all
  from rec3 have rel3: "reliable fs3" and fits3: "mem_fits (db_memtable db3)" and imm3: "db_immutables db3 = []"
    and tab3: "tables_ok db3 fs3" unfolding recovering_def by blast+
  from tab3 have lv3: "levels_ok db3 fs3" and dj3: "\<forall>level \<in> set (drop 1 (db_levels db3)). disjoint_level level"
    and num3: "levels_numbered (db_levels db3)" and man3: "manifest_sync db3 fs3" unfolding tables_ok_def by blast+
  have con: "content fs4 = (content fs3)(?wp \<mapsto> [])" using r(11) f1(1) by simp
  have vcon: "content fs4 (vlog_file_path ?dbp i) = content fs (vlog_file_path ?dbp i)" for i
    using con frame [of "vlog_file_path ?dbp i"] by simp
  have scon: "content fs4 (info_path (db_path db3) info) = content fs3 (info_path (db_path db3) info)" for info
    using con f3(1) by (simp add: info_path_def)
  have src: "sources ?db fs4 = sources db3 fs3"
    using sst_sources_cong [OF rel3 r(8) lv3 f4(4) scon] by (simp add: sources_def mem_sources_def f4)
  have src2: "sources ?db2 fs = Map.empty # sst_sources db fs"
    using recovering_sources [OF rec] lm(5) by (simp add: sst_sources_def)
  have mx: "mx + 1 \<noteq> 0" "unat (mx + 1) \<le> max 2 (unat (db_sequence_number db))"
  proof -
    have "mx = 1 \<or> mx < db_sequence_number db"
      using r(4,7) recs f3(4) by (auto simp: records_ok_def)
    then show nz: "mx + 1 \<noteq> 0" using plus_one_less by fastforce
    show "unat (mx + 1) \<le> max 2 (unat (db_sequence_number db))"
      using \<open>mx = 1 \<or> mx < db_sequence_number db\<close> unat_Suc_nonzero [OF nz] by (auto simp: word_less_nat_alt)
  qed
  have sub': "\<forall>m \<in> set (sources db3 fs3). \<forall>k e. m k = Some e \<longrightarrow>
      (\<exists>m' \<in> set (sst_sources db fs). m' k = Some e) \<or> (\<exists>r \<in> set rs. wal_key r = k \<and> entry_of r = e)"
    using sub unfolding src2 by fastforce
  note st = recovered_sources [OF inv dur r(3,4) look [unfolded src2] sub' r(6) mx(1)]
  have mem: "mem_ok ?db" using fits3 imm3 by (simp add: mem_ok_def mem_fits_def f4)
  have lv': "levels_ok ?db fs4"
    by (rule levels_ok_cong [OF lv3 f4(4) _ _ f4(5) scon]) (use f3 f4 in simp_all)
  have logs': "logs_ok ?db fs4"
  proof -
    have "vl_ok vl fs4" using vl(2) vl_ok_cong [of fs4 vl fs] vcon vl(3) by (simp add: VLogFilePath_def)
    moreover have "vlogs_clean fs4 ?dbp" using clean vlogs_clean_cong [of fs4 ?dbp fs] vcon by simp
    ultimately show ?thesis
      using vl(3,4) r(9,10) f1(1) con unfolding logs_ok_def f4 by simp
  qed
  have "represents ?db fs4 kv"
    unfolding represents_def f4 src using st(4) entry_stands_cong [OF vcon] by simp
  then have inv': "db_inv ?db fs4 kv"
    using r(8) mem lv' dj3 logs' st(2,3) by (simp add: db_inv_def src f4(4,10) del: of_nat_Suc)
  have wn: "wal_files ?dbp (rss @ [[]]) fs4"
    by (rule wal_files_snoc [OF wals _ _ con]) (use unat_of_nat_64 [of "Suc ?n"] n frame in \<open>simp_all del: of_nat_Suc\<close>)
  have dir': "dir_ok ?dbp fs4"
  proof (rule dir_ok_frame [OF dir])
    fix q assume "\<not> db_file ?dbp q"
    then have "\<not> table_file ?dbp q" "q \<noteq> ?wp" by auto
    with frame con show "content fs4 q = content fs q" by simp
  qed
  have man': "manifest_sync ?db fs4"
    using man3 con f3(1) unfolding manifest_sync_def manifest_says_def f4 by simp
  have recs': "records_ok (mx + 1) (concat (rss @ [[]]))"
  proof -
    have "wal_sequence r < mx + 1" if "r \<in> set (concat rss)" for r
      using r(4,6) that less_Suc_nonzero [OF mx(1)] by (auto intro: le_less_trans)
    with recs show ?thesis by (simp add: records_ok_def)
  qed
  have "keeps_or_drops [wal_view (concat (rss @ [[]]))] (sources ?db fs4)"
    unfolding src by (rule keeps_or_drops_same) (simp add: st(1))
  moreover have "unat (u64_of (Suc ?n)) = Suc ?n" using n by (intro unat_of_nat_64) simp
  ultimately have dur': "durable (rss @ [[]]) ?db fs4"
    unfolding durable_def recoverable_def f4 using dir' wn cur vl(5) recs' num3 man' con by simp
  have "db_wal_id ?db = db_wal_id db + 1" unfolding f4 wid [symmetric] by simp
  then show ?thesis
    using f3 f4 imm3 vl(5) mx(2) by (intro that [OF op inv' dur']) (simp_all del: of_nat_Suc)
qed

end
