(* ===== verification/Crash_Steps.thy ===== *)
theory Crash_Steps
  imports Recover
begin

text \<open>
  Every operation leaves on disk what a crash needs, so that the database can be opened again at
  any point between two operations and stands for the same map.
\<close>

section \<open>One step\<close>

lemma manifest_sync_same:
  "same_tables db db' \<Longrightarrow> content fs' (ManifestPath (db_path db)) = content fs (ManifestPath (db_path db)) \<Longrightarrow>
    manifest_sync db' fs' = manifest_sync db fs"
  by (simp add: same_tables_def manifest_sync_def manifest_says_def)

lemma vlog_file_db_file [simp]: "vlog_file dbp q \<Longrightarrow> db_file dbp q"
  by (auto simp: vlog_file_def)

lemma keeps_or_drops_lookup:
  "keeps_or_drops ms ms' \<Longrightarrow> lookup_in ms2 = lookup_in ms' \<Longrightarrow> keeps_or_drops ms ms2"
  by (simp add: keeps_or_drops_def)

lemma durableD:
  assumes "durable rss db fs"
  shows "dir_ok (db_path db) fs" and "wal_files (db_path db) rss fs" and "unat (db_wal_id db) = length rss"
    and "rss \<noteq> []" and "0 < vl_current_file_id (db_vlog db)" and "records_ok (db_sequence_number db) (concat rss)"
    and "keeps_or_drops [wal_view (concat rss)] (sources db fs)" and "levels_numbered (db_levels db)"
    and "manifest_sync db fs"
    and "content fs (WALFilePath (db_path db) (db_wal_id db)) = Some (wal_log.log_of (last rss))"
  using assms by (simp_all add: durable_def recoverable_def)

lemma durableI:
  assumes "db_path db = dbp" "dir_ok dbp fs" "wal_files dbp rss fs" "db_wal_id db = i" "unat i = length rss"
    and "rss \<noteq> []" "0 < vl_current_file_id (db_vlog db)" "db_sequence_number db = n" "records_ok n (concat rss)"
    and "keeps_or_drops [wal_view (concat rss)] (sources db fs)" "levels_numbered (db_levels db)" "manifest_sync db fs"
    and "content fs (WALFilePath dbp i) = Some (wal_log.log_of (last rss))"
  shows "durable rss db fs"
  using assms by (simp add: durable_def recoverable_def)

lemma wal_files_same:
  "wal_files dbp rss fs \<Longrightarrow> (\<And>i. content fs' (WALFilePath dbp i) = content fs (WALFilePath dbp i)) \<Longrightarrow> wal_files dbp rss fs'"
  by (simp only: wal_files_def)

lemma same_tablesD:
  assumes "same_tables db db'"
  shows "db_path db' = db_path db" and "db_levels db' = db_levels db"
    and "vl_current_file_id (db_vlog db) \<le> vl_current_file_id (db_vlog db')"
  using assms by (simp_all add: same_tables_def)

lemma durable_idle:
  assumes dur: "durable rss db fs" and same: "same_tables db db'" "db_wal_id db' = db_wal_id db"
      "db_sequence_number db' = db_sequence_number db" "lookup_in (sources db' fs') = lookup_in (sources db fs)"
    and con: "\<forall>q. \<not> vlog_file (db_path db) q \<longrightarrow> content fs' q = content fs q"
  shows "durable rss db' fs'"
proof -
  note d = durableD [OF dur] and eq = same_tablesD [OF same(1)]
  show ?thesis
  proof (rule durableI [OF eq(1) _ _ same(2) d(3,4) _ same(3) d(6)])
    show "dir_ok (db_path db) fs'" using con by (intro dir_ok_frame [OF d(1)]) (metis vlog_file_db_file db_file_intros(3))
    show "wal_files (db_path db) rss fs'" using con by (intro wal_files_same [OF d(2)]) simp
    show "0 < vl_current_file_id (db_vlog db')" using d(5) eq(3) by (rule less_le_trans)
    show "keeps_or_drops [wal_view (concat rss)] (sources db' fs')" by (rule keeps_or_drops_lookup [OF d(7) same(4)])
    show "levels_numbered (db_levels db')" using d(8) by (simp add: eq(2))
    show "manifest_sync db' fs'" using d(9) con by (subst manifest_sync_same [OF same(1)]) simp_all
    show "content fs' (WALFilePath (db_path db) (db_wal_id db)) = Some (wal_log.log_of (last rss))" using d(10) con by simp
  qed
qed

lemma durable_logging:
  assumes dur: "durable rss db fs" and same: "same_tables db db'" "db_wal_id db' = db_wal_id db"
    and seq: "db_sequence_number db' = db_sequence_number db + 1" "db_sequence_number db + 1 \<noteq> 0"
    and r: "logged r" "wal_sequence r = db_sequence_number db" "plain_key (wal_key r)"
    and look: "lookup_in (sources db' fs') = (lookup_in (sources db fs))(wal_key r \<mapsto> entry_of r)"
    and con: "content fs' (WALFilePath (db_path db) (db_wal_id db)) =
        Some (file_bytes fs (WALFilePath (db_path db) (db_wal_id db)) @ wal_encode r)"
      "\<forall>q. \<not> vlog_file (db_path db) q \<and> q \<noteq> WALFilePath (db_path db) (db_wal_id db) \<longrightarrow> content fs' q = content fs q"
  shows "durable (butlast rss @ [last rss @ [r]]) db' fs'"
proof -
  let ?dbp = "db_path db" and ?i = "db_wal_id db" and ?rss = "butlast rss @ [last rss @ [r]]"
  note d = durableD [OF dur] and eq = same_tablesD [OF same(1)]
  note wid = d(3) and ne = d(4) and wals = d(2) and recs = d(6)
  have rss: "rss = butlast rss @ [last rss]" using ne by simp
  have cc: "concat ?rss = concat rss @ [r]" by (subst (3) rss) simp
  have cur: "content fs' (WALFilePath ?dbp ?i) = Some (wal_log.log_of (last ?rss))"
    using con(1) d(10) by (simp add: file_bytes_Some)
  have "wal_files ?dbp ?rss fs'"
    unfolding wal_files_def
  proof
    fix i
    show "if 1 \<le> unat i \<and> unat i \<le> length ?rss
        then \<exists>c. content fs' (WALFilePath ?dbp i) = Some c \<and> wal_holds (?rss ! (unat i - 1)) c
        else content fs' (WALFilePath ?dbp i) = None"
    proof (cases "i = ?i")
      case True
      then have "1 \<le> unat i" "unat i \<le> length ?rss" "?rss ! (unat i - 1) = last ?rss"
        using ne by (simp_all add: wid nth_append Suc_le_eq)
      then show ?thesis
        using cur wal_holds_log by (simp only: True if_True simp_thms option.inject)
    next
      case False
      then have "unat i \<noteq> length rss" using wid by (metis word_unat_eq_iff)
      then have "?rss ! (unat i - 1) = rss ! (unat i - 1)" if "1 \<le> unat i" "unat i \<le> length rss"
      proof -
        have "unat i - 1 < length (butlast rss)" using that \<open>unat i \<noteq> length rss\<close> by simp
        then show ?thesis by (simp add: nth_append nth_butlast)
      qed
      moreover have "length ?rss = length rss" using ne by simp
      moreover have "content fs' (WALFilePath ?dbp i) = content fs (WALFilePath ?dbp i)" using con(2) False by simp
      ultimately show ?thesis using wals [unfolded wal_files_def, THEN spec, of i] by (simp split: if_splits)
    qed
  qed
  note files = this
  have seqs: "records_ok (db_sequence_number db + 1) (concat ?rss)"
    unfolding cc using recs r less_Suc_nonzero [OF seq(2)]
    by (auto simp: records_ok_def sorted_wrt_append intro: less_trans)
  show ?thesis
  proof (rule durableI [OF eq(1) _ files same(2) _ _ _ seq(1) seqs])
    show "dir_ok ?dbp fs'" using con(2) by (intro dir_ok_frame [OF d(1)]) (metis vlog_file_db_file db_file_intros(1))
    show "unat ?i = length ?rss" using wid ne by simp
    show "0 < vl_current_file_id (db_vlog db')" using d(5) eq(3) by (rule less_le_trans)
    show "keeps_or_drops [wal_view (concat ?rss)] (sources db' fs')"
      using d(7) unfolding cc keeps_or_drops_def look by simp
    show "levels_numbered (db_levels db')" using d(8) by (simp add: eq(2))
    show "manifest_sync db' fs'" using d(9) con(2) by (subst manifest_sync_same [OF same(1)]) simp_all
    show "content fs' (WALFilePath ?dbp ?i) = Some (wal_log.log_of (last ?rss))" by (rule cur)
  qed simp
qed

lemma durable_rotation:
  assumes dur: "durable rss db fs" and same: "same_tables db db'" "db_wal_id db' = db_wal_id db + 1" "db_wal_id db + 1 \<noteq> 0"
      "db_sequence_number db' = db_sequence_number db" "lookup_in (sources db' fs') = lookup_in (sources db fs)"
    and con: "content fs' = (content fs)(WALFilePath (db_path db) (db_wal_id db + 1) \<mapsto> [])"
  shows "durable (rss @ [[]]) db' fs'"
proof -
  note d = durableD [OF dur] and eq = same_tablesD [OF same(1)]
  have u: "unat (db_wal_id db + 1) = Suc (length rss)" using unat_Suc_nonzero [OF same(3)] d(3) by simp
  have files: "wal_files (db_path db) (rss @ [[]]) fs'" by (rule wal_files_snoc [OF d(2) u refl con])
  show ?thesis
  proof (rule durableI [OF eq(1) _ files same(2) _ _ _ same(4)])
    show "dir_ok (db_path db) fs'" using con by (intro dir_ok_frame [OF d(1)]) auto
    show "0 < vl_current_file_id (db_vlog db')" using d(5) eq(3) by (rule less_le_trans)
    show "records_ok (db_sequence_number db) (concat (rss @ [[]]))" using d(6) by simp
    show "keeps_or_drops [wal_view (concat (rss @ [[]]))] (sources db' fs')"
      using keeps_or_drops_lookup [OF d(7) same(5)] by simp
    show "levels_numbered (db_levels db')" using d(8) by (simp add: eq(2))
    show "manifest_sync db' fs'" using d(9) con by (subst manifest_sync_same [OF same(1)]) simp_all
  qed (simp_all add: u con)
qed

lemma durable_moving:
  assumes dur: "durable rss db fs" and mv: "tables_moved db fs db' fs'"
  shows "durable rss db' fs'"
proof -
  from mv have eq: "db_path db' = db_path db" "db_vlog db' = db_vlog db" "db_wal_id db' = db_wal_id db"
    "db_sequence_number db' = db_sequence_number db"
    and kd: "keeps_or_drops (sources db fs) (sources db' fs')"
    and con: "\<forall>q. \<not> table_file (db_path db) q \<longrightarrow> content fs' q = content fs q"
    and num: "levels_numbered (db_levels db) \<Longrightarrow> levels_numbered (db_levels db')"
    and man: "manifest_says db' fs' \<or> db_levels db' = db_levels db \<and> db_next_sstable_id db' = db_next_sstable_id db \<and>
      content fs' (ManifestPath (db_path db)) = content fs (ManifestPath (db_path db))"
    unfolding tables_moved_def logs_of_def by blast+
  note d = durableD [OF dur]
  show ?thesis
  proof (rule durableI [OF eq(1) _ _ eq(3) d(3,4) _ eq(4) d(6)])
    show "dir_ok (db_path db) fs'" using con by (intro dir_ok_frame [OF d(1)]) (metis vlog_file_db_file db_file_intros(3))
    show "wal_files (db_path db) rss fs'" using con by (intro wal_files_same [OF d(2)]) simp
    show "0 < vl_current_file_id (db_vlog db')" using d(5) by (simp add: eq(2))
    show "keeps_or_drops [wal_view (concat rss)] (sources db' fs')" by (rule keeps_or_drops_trans [OF d(7) kd])
    show "levels_numbered (db_levels db')" by (rule num [OF d(8)])
    show "manifest_sync db' fs'" using man d(9) by (auto simp: manifest_sync_def manifest_says_def eq(1))
    show "content fs' (WALFilePath (db_path db) (db_wal_id db)) = Some (wal_log.log_of (last rss))" using d(10) con by simp
  qed
qed

lemma durable_step:
  assumes "log_step K (db, fs) (db', fs')" and dur: "durable rss db fs" and plain: "\<forall>k \<in> K. plain_key k"
  shows "\<exists>rss'. durable rss' db' fs'"
  using assms(1)
proof cases
  case idle
  from durable_idle [OF dur idle] show ?thesis ..
next
  case (logging r)
  have "plain_key (wal_key r)"
  proof (cases "wal_key r \<in> K")
    case False
    with logging(7) obtain e where "lookup_in (sources db fs) (wal_key r) = Some e" by auto
    with dur have "wal_view (concat rss) (wal_key r) = Some e"
      unfolding durable_def recoverable_def keeps_or_drops_def lookup_in_single by (metis option.distinct(1))
    from wal_view_Some [OF this] dur show ?thesis unfolding durable_def recoverable_def records_ok_def by metis
  qed (use plain in blast)
  from durable_logging [OF dur logging(1-6) this logging(8-10)] show ?thesis ..
next
  case rotation
  from durable_rotation [OF dur rotation] show ?thesis ..
qed

lemma durable_run:
  assumes "log_run K (db, fs) (db', fs')" and "durable rss db fs" and "\<forall>k \<in> K. plain_key k"
  shows "\<exists>rss'. durable rss' db' fs'"
  using assms
proof (induction "(db, fs)" "(db', fs')" arbitrary: db' fs' rule: rtranclp.induct)
  case (rtrancl_into_rtrancl y)
  obtain db1 fs1 where y: "y = (db1, fs1)" by force
  from rtrancl_into_rtrancl(2) [OF y] rtrancl_into_rtrancl(4,5) obtain rss1 where "durable rss1 db1 fs1" by blast
  from durable_step [OF _ this] rtrancl_into_rtrancl(3,5) show ?case unfolding y by blast
qed auto

end
