(* ===== verification/Crash_Points.thy ===== *)
theory Crash_Points
  imports Crash_Steps
begin

text \<open>
  Where the process may die, and what it leaves: between two entries of a batch, between two records
  that the garbage collector rewrites, after a value and before its log record, in the middle of a
  log record, and in the middle of a flush or a compaction, whose unlisted tables stay behind.
\<close>

section \<open>Unfinished files\<close>

text \<open>
  A table that no level lists, and the manifest that has not been renamed yet, may hold anything;
  the last record of the write-ahead log may be cut off.
\<close>

definition listed :: "DBImpl \<Rightarrow> path \<Rightarrow> bool" where
  "listed db q \<longleftrightarrow> q = ManifestPath (db_path db) \<or>
     (\<exists>info \<in> set (concat (db_levels db)). q = info_path (db_path db) info)"

definition crash_disk :: "DBImpl \<Rightarrow> fs \<Rightarrow> fs \<Rightarrow> bool" where
  "crash_disk db fs fs' \<longleftrightarrow> reliable fs' \<and>
     (\<forall>q. q \<noteq> WALFilePath (db_path db) (db_wal_id db) \<longrightarrow> \<not> table_file (db_path db) q \<or> listed db q \<longrightarrow>
        content fs' q = content fs q) \<and>
     (\<exists>t. content fs' (WALFilePath (db_path db) (db_wal_id db)) =
          Some (file_bytes fs (WALFilePath (db_path db) (db_wal_id db)) @ t) \<and>
        (t = [] \<or> (\<exists>r. wal_valid r \<and> strict_prefix t (wal_encode r))))"

lemma crash_disk_sources:
  assumes inv: "db_inv db fs kv" and disk: "crash_disk db fs fs'"
  shows "sources db fs' = sources db fs"
    and "info \<in> set (concat (db_levels db)) \<Longrightarrow> content fs' (info_path (db_path db) info) = content fs (info_path (db_path db) info)"
proof -
  show c: "content fs' (info_path (db_path db) info) = content fs (info_path (db_path db) info)"
    if "info \<in> set (concat (db_levels db))" for info
  proof -
    have "listed db (info_path (db_path db) info)" using that by (auto simp: listed_def)
    moreover have "info_path (db_path db) info \<noteq> WALFilePath (db_path db) (db_wal_id db)" by (simp add: info_path_def)
    ultimately show ?thesis using disk unfolding crash_disk_def by blast
  qed
  have "sst_sources db fs' = sst_sources db fs"
    by (rule sst_sources_cong [OF _ _ _ refl c]) (use inv disk in \<open>auto simp: db_inv_def crash_disk_def\<close>)
  then show "sources db fs' = sources db fs" by (simp add: sources_def)
qed

lemma crash_disk_inv:
  assumes inv: "db_inv db fs kv" and disk: "crash_disk db fs fs'"
  shows "db_inv db fs' kv"
proof -
  note src = crash_disk_sources [OF inv disk]
  from disk have rel: "reliable fs'" and wal: "content fs' (WALFilePath (db_path db) (db_wal_id db)) \<noteq> None"
    and con: "\<And>q. q \<noteq> WALFilePath (db_path db) (db_wal_id db) \<Longrightarrow> \<not> table_file (db_path db) q \<Longrightarrow> content fs' q = content fs q"
    unfolding crash_disk_def by auto
  have vcon: "content fs' (vlog_file_path (db_path db) i) = content fs (vlog_file_path (db_path db) i)" for i
    by (rule con) simp_all
  from inv have lv: "levels_ok db fs" and lg: "logs_ok db fs" and mo: "mem_ok db"
    and dj: "\<forall>level \<in> set (drop 1 (db_levels db)). disjoint_level level"
    unfolding db_inv_def by blast+
  have "logs_ok db fs'"
    using lg wal vl_ok_cong [of fs' "db_vlog db" fs] vlogs_clean_cong [of fs' "db_path db" fs] vcon
    by (simp add: logs_ok_def VLogFilePath_def)
  moreover have "levels_ok db fs'" by (rule levels_ok_cong [OF lv refl refl refl refl src(2)])
  moreover have "\<exists>m' \<in> set (sources db fs). m' k = Some e" if "m \<in> set (sources db fs')" "m k = Some e" for m k e
    using that by (auto simp: src(1))
  ultimately show ?thesis
    by (intro db_inv_subsources [OF inv rel disjI1 _ refl refl vcon mo _ _ dj]) (simp_all add: src(1))
qed

lemma crash_disk_recoverable:
  assumes inv: "db_inv db fs kv" and dur: "durable rss db fs" and disk: "crash_disk db fs fs'"
  shows "recoverable rss db fs'"
proof -
  let ?wp = "WALFilePath (db_path db) (db_wal_id db)"
  note d = durableD [OF dur] and src = crash_disk_sources [OF inv disk]
  from disk obtain t where t: "content fs' ?wp = Some (wal_log.log_of (last rss) @ t)"
    "t = [] \<or> (\<exists>r. wal_valid r \<and> strict_prefix t (wal_encode r))"
    using d(10) by (auto simp: crash_disk_def file_bytes_Some)
  from disk have con: "\<And>q. q \<noteq> ?wp \<Longrightarrow> \<not> table_file (db_path db) q \<Longrightarrow> content fs' q = content fs q"
    and man: "content fs' (ManifestPath (db_path db)) = content fs (ManifestPath (db_path db))"
    unfolding crash_disk_def by (auto simp: listed_def)
  have holds: "wal_holds (last rss) (wal_log.log_of (last rss) @ t)" using t(2) by (auto simp: wal_holds_def)
  have "wal_files (db_path db) rss fs'"
    unfolding wal_files_def
  proof
    fix i
    show "if 1 \<le> unat i \<and> unat i \<le> length rss
        then \<exists>c. content fs' (WALFilePath (db_path db) i) = Some c \<and> wal_holds (rss ! (unat i - 1)) c
        else content fs' (WALFilePath (db_path db) i) = None"
    proof (cases "i = db_wal_id db")
      case True
      then have "1 \<le> unat i" "unat i \<le> length rss" "rss ! (unat i - 1) = last rss"
        using d(3,4) by (simp_all add: last_conv_nth Suc_le_eq)
      then show ?thesis using t(1) holds by (simp only: True if_True simp_thms option.inject)
    next
      case False
      then have "content fs' (WALFilePath (db_path db) i) = content fs (WALFilePath (db_path db) i)" by (intro con) simp_all
      then show ?thesis using d(2) [unfolded wal_files_def, THEN spec, of i] by (simp only:)
    qed
  qed
  moreover have "dir_ok (db_path db) fs'"
    using con by (intro dir_ok_frame [OF d(1)]) (metis db_file_intros(1,3))
  moreover have "manifest_sync db fs'" using d(9) man by (simp add: manifest_sync_def manifest_says_def)
  ultimately show ?thesis using d by (simp add: recoverable_def src(1))
qed

section \<open>Unfinished operations\<close>

text \<open>
  The state in which the process dies, with the entries of the running write that have been applied.
\<close>

inductive stopped :: "DBImpl \<Rightarrow> fs \<Rightarrow> WriteBatch \<Rightarrow> DBImpl \<Rightarrow> fs \<Rightarrow> bool" where
  stopped_between: "stopped db fs [] db fs"
| stopped_writing: "list_all entry_fits batch \<Longrightarrow> \<forall>k \<in> batch_key ` set batch. plain_key k \<Longrightarrow> room (length batch) db \<Longrightarrow>
    Write_entries (take n batch) db fs = (s, db1, fs1) \<Longrightarrow> stopped db fs (take n batch) db1 fs1"
| stopped_collecting: "gc_room db fs \<Longrightarrow> i < vl_current_file_id (db_vlog db) \<Longrightarrow>
    content fs (vlog_file_path (db_path db) i) \<noteq> None \<Longrightarrow>
    NewReader i 0 (gc_callback db fs i) (db_vlog db) fs \<lparr>gc_total = 0, gc_live = 0, gc_records = []\<rparr> = (s, st) \<Longrightarrow>
    gc_rewrite i (take n (gc_records st)) db fs = (s1, db1, fs1) \<Longrightarrow> stopped db fs [] db1 fs1"
| stopped_appending: "stopped db fs batch db1 fs1 \<Longrightarrow> vlog_valid (k, v, kValue) \<Longrightarrow>
    vl_current_file_id (db_vlog db1) + 1 \<noteq> 0 \<Longrightarrow> VLog_Append k v kValue (db_vlog db1) fs1 = (s, ptr, vl, fs2) \<Longrightarrow>
    stopped db fs batch (db1\<lparr>db_vlog := vl\<rparr>) fs2"

lemma log_run_same:
  "log_run K (db, fs) (db', fs') \<Longrightarrow> db_path db' = db_path db \<and> db_options db' = db_options db"
  using log_run_tables by (fastforce simp: same_tables_def)

lemma stopped_run:
  assumes "stopped db fs batch db1 fs1" and "db_inv db fs kv"
  shows "db_inv db1 fs1 (apply_batch batch kv) \<and> (\<exists>K. (\<forall>k \<in> K. plain_key k) \<and> log_run K (db, fs) (db1, fs1))"
  using assms
proof (induction rule: stopped.induct)
  case (stopped_between db fs)
  then show ?case by (auto simp: apply_batch_def)
next
  case (stopped_writing batch db n fs s db1 fs1)
  have sub: "set (take n batch) \<subseteq> set batch" by (rule set_take_subset)
  have "room (length (take n batch) + 0) db" using stopped_writing(3) by (auto simp: room_def)
  moreover have "list_all entry_fits (take n batch)" using stopped_writing(1) sub by (auto simp: list_all_iff)
  ultimately have "db_inv db1 fs1 (apply_batch (take n batch) kv)"
    "log_run (batch_key ` set (take n batch)) (db, fs) (db1, fs1)"
    using Write_entries_refines [OF stopped_writing.prems] stopped_writing(4) by fastforce+
  moreover have "\<forall>k \<in> batch_key ` set (take n batch). plain_key k" using stopped_writing(2) sub by blast
  ultimately show ?case by blast
next
  case (stopped_collecting db fs i s st n s1 db1 fs1)
  from stopped_collecting(3) obtain c where c: "content fs (vlog_file_path (db_path db) i) = Some c" by blast
  obtain db2 fs2 where "gc_rewrite i (take n (gc_records st)) db fs = (Status_OK, db2, fs2)" "db_inv db2 fs2 kv"
    "log_run {} (db, fs) (db2, fs2)"
    by (rule gc_rewrite_prefix [OF stopped_collecting.prems stopped_collecting(1,2,4) c])
  with stopped_collecting(5) show ?case by (auto simp: apply_batch_def)
next
  case (stopped_appending db fs batch db1 fs1 k v s ptr vl fs2)
  then obtain K where K: "db_inv db1 fs1 (apply_batch batch kv)" "\<forall>k \<in> K. plain_key k" "log_run K (db, fs) (db1, fs1)" by blast
  from K(1) have "reliable fs1" "vl_ok (db_vlog db1) fs1" by (simp_all add: db_inv_def logs_ok_def)
  then obtain ptr' where "appended k v (db_vlog db1) fs1 ptr' vl fs2"
    using VLog_Append_appended [OF _ _ stopped_appending(2,3)] stopped_appending(4) by fastforce
  from append_refines [OF K(1) this] K(2,3) show ?case by (blast intro: log_run_trans)
qed

section \<open>Recovery\<close>

lemma stopped_recovers:
  assumes st: "stopped db fs batch db1 fs1" and inv: "db_inv db fs kv" and dur: "durable rss db fs"
    and disk: "crash_disk db1 fs1 fs2" and room: "reopen_room db1 fs2"
  obtains db' fs' rss' where "DB_Open (db_options db) (db_path db) fs2 = (Status_OK, Some db', fs')"
    and "db_inv db' fs' (apply_batch batch kv)" and "durable rss' db' fs'"
    and "db_options db' = db_options db" and "db_path db' = db_path db"
proof -
  from stopped_run [OF st inv] obtain K where inv1: "db_inv db1 fs1 (apply_batch batch kv)"
    and K: "\<forall>k \<in> K. plain_key k" "log_run K (db, fs) (db1, fs1)" by blast
  from durable_run [OF K(2) dur K(1)] obtain rss1 where dur1: "durable rss1 db1 fs1" ..
  note same = log_run_same [OF K(2)]
  obtain db' fs' where "DB_Open (db_options db1) (db_path db1) fs2 = (Status_OK, Some db', fs')"
    "db_inv db' fs' (apply_batch batch kv)" "durable (rss1 @ [[]]) db' fs'"
    "db_options db' = db_options db1" "db_path db' = db_path db1"
    by (rule DB_Open_recovers [OF crash_disk_inv [OF inv1 disk] crash_disk_recoverable [OF inv1 dur1 disk] room])
  with same show ?thesis by (intro that [of db' fs' "rss1 @ [[]]"]) simp_all
qed

lemma crash_disk_refl:
  assumes "db_inv db fs kv"
  shows "crash_disk db fs fs"
proof -
  from assms have "reliable fs" "content fs (WALFilePath (db_path db) (db_wal_id db)) \<noteq> None"
    by (simp_all add: db_inv_def logs_ok_def)
  then show ?thesis by (auto simp: crash_disk_def file_bytes_Some)
qed

end
