(* ===== verification/Db_System.thy ===== *)
theory Db_System
  imports Crash_Points
begin

text \<open>
  The database as a system: callers write and read, the background thread flushes, pops and
  compacts, the garbage collector runs, and the process crashes and opens the database again, in
  any order. Each of these is one step, as if the mutexes were held to its end; the flush, the pop
  and each compaction of a round of the background thread are steps of their own. Every history
  refines a history of the map.
\<close>

section \<open>The flush and the pop apart\<close>

text \<open>
  Between the flush and the pop of the oldest memtable its entries are found in the tables as well.
\<close>

definition front_flushed :: "DBImpl \<Rightarrow> fs \<Rightarrow> bool" where
  "front_flushed db fs \<longleftrightarrow>
     (case db_immutables db of
        [] \<Rightarrow> False
      | mt # _ \<Rightarrow> (\<forall>k e. mt_map mt k = Some e \<longrightarrow> lookup_in (sst_sources db fs) k = Some e))"

lemma lookup_in_hit: "m \<in> set ms \<Longrightarrow> lookup_in ms k = None \<Longrightarrow> m k = None"
  by (simp add: lookup_in_None)

lemma flush_keeps:
  assumes inv: "db_inv db fs kv" and imm: "db_immutables db = mt # mts"
    and ok: "MemTable_Count mt \<noteq> 0 \<Longrightarrow> sst_ok (db_options db) (GetSortedEntries mt)"
    and id: "db_next_sstable_id db + 1 \<noteq> 0"
  obtains db' fs' where "FlushMemTable mt db fs = (Status_OK, db', fs')" and "db_inv db' fs' kv"
    and "tables_moved db fs db' fs'" and "front_flushed db' fs'"
proof (cases "MemTable_Count mt = 0")
  case True
  have "mt_invar mt" using inv imm by (simp add: db_inv_def mem_ok_def)
  with True have "mt_map mt = Map.empty" by (simp add: Count_zero_iff)
  then have "front_flushed db fs" by (simp add: front_flushed_def imm)
  with True inv show ?thesis by (intro that [of db fs]) (simp_all add: FlushMemTable_def)
next
  case False
  have lv: "levels_ok db fs" and lg: "logs_ok db fs" and mo: "mem_ok db" and rel: "reliable fs"
    and dj: "\<forall>level \<in> set (drop 1 (db_levels db)). disjoint_level level"
    using inv unfolding db_inv_def by blast+
  have mt: "mt_invar mt" using mo imm by (simp add: mem_ok_def)
  obtain info db' fs' where fl: "FlushMemTable mt db fs = (Status_OK, db', fs')"
    and db': "db' = db\<lparr>db_next_sstable_id := db_next_sstable_id db + 1,
      db_levels := (db_levels db)[0 := db_levels db ! 0 @ [info]]\<rparr>"
    and rel': "reliable fs'" and lv': "levels_ok db' fs'" and ss: "sst_sources db' fs' = mt_map mt # sst_sources db fs"
    and frame: "\<forall>q. q \<noteq> SSTableFilePath (db_path db) (db_next_sstable_id db) \<and> q \<noteq> ManifestPath (db_path db) \<and>
      q \<noteq> ManifestPath (db_path db) @ str ''.tmp'' \<longrightarrow> content fs' q = content fs q"
    and ml: "meta_level (info_meta info) = 0"
    and man: "content fs' (ManifestPath (db_path db)) = Some (manifest_text (db_next_sstable_id db') (db_levels db'))"
    using rel lv mt False ok [OF False] id by (rule FlushMemTable_tables)
  have mem: "mem_sources db' = mem_sources db" by (simp add: mem_sources_def db')
  have in_mem: "mt_map mt \<in> set (mem_sources db)" by (simp add: mem_sources_def imm)
  have look: "lookup_in (sources db' fs') k = lookup_in (sources db fs) k" for k
    using lookup_in_hit [OF in_mem, of k]
    by (simp add: sources_def mem ss lookup_in_append lookup_in_Cons split: option.split)
  have "logs_ok db' fs'"
    using lg vl_ok_cong [of fs' "db_vlog db" fs] vlogs_clean_cong [of fs' "db_path db" fs] frame
    by (simp add: logs_ok_def VLogFilePath_def db')
  then have "db_inv db' fs' kv"
  proof (intro db_inv_subsources [OF inv rel' disjI1 [OF look]])
    show "\<exists>m' \<in> set (sources db fs). m' k = Some e" if "m \<in> set (sources db' fs')" "m k = Some e" for m k e
      using that in_mem by (auto simp: sources_def mem ss)
  qed (use lv' mo dj frame in \<open>simp_all add: db' mem_ok_def drop_update_0 [simplified]\<close>)
  moreover have "tables_moved db fs db' fs'"
    using frame man look lv levels_numbered_add [OF _ _ ml, of "db_levels db"]
    by (auto simp: tables_moved_def logs_of_def db' keeps_or_drops_same table_file_def manifest_says_def levels_ok_def)
  moreover have "db_immutables db' = mt # mts" by (simp add: db' imm)
  then have "front_flushed db' fs'" by (simp add: front_flushed_def ss lookup_in_Cons)
  ultimately show ?thesis by (rule that [OF fl])
qed

lemma pop_keeps:
  assumes inv: "db_inv db fs kv" and fl: "front_flushed db fs"
  shows "db_inv (pop_front db) fs kv" and "tables_moved db fs (pop_front db) fs"
proof -
  obtain mt mts where imm: "db_immutables db = mt # mts" using fl by (auto simp: front_flushed_def split: list.splits)
  have sst: "sst_sources (pop_front db) fs = sst_sources db fs" by (simp add: sst_sources_def pop_front_def)
  have mem: "mem_sources db = mem_sources (pop_front db) @ [mt_map mt]" by (simp add: mem_sources_def pop_front_def imm)
  have front: "mt_map mt k = Some e \<Longrightarrow> lookup_in (sst_sources db fs) k = Some e" for k e
    using fl by (simp add: front_flushed_def imm)
  have look: "lookup_in (sources (pop_front db) fs) k = lookup_in (sources db fs) k" for k
    using front [of k] by (auto simp: sources_def mem sst lookup_in_append lookup_in_Cons split: option.split)
  have rel: "reliable fs" and lv: "levels_ok db fs" and lg: "logs_ok db fs" and mo: "mem_ok db"
    and dj: "\<forall>level \<in> set (drop 1 (db_levels db)). disjoint_level level"
    using inv unfolding db_inv_def by blast+
  show "db_inv (pop_front db) fs kv"
  proof (intro db_inv_subsources [OF inv rel disjI1 [OF look]])
    show "\<exists>m' \<in> set (sources db fs). m' k = Some e" if "m \<in> set (sources (pop_front db) fs)" "m k = Some e" for m k e
      using that by (auto simp: sources_def mem sst)
  qed (use lv lg mo dj in \<open>simp_all add: pop_front_def mem_ok_def levels_ok_def logs_ok_def imm\<close>)
  show "tables_moved db fs (pop_front db) fs"
    by (simp add: tables_moved_def logs_of_def keeps_or_drops_same [OF look]) (simp add: pop_front_def)
qed

text \<open>The other steps leave the flushed memtable where it is.\<close>

lemma front_flushed_run:
  assumes inv: "db_inv db fs kv" and inv': "db_inv db' fs' kv'" and run: "log_run K (db, fs) (db', fs')"
    and fl: "front_flushed db fs"
  shows "front_flushed db' fs'"
proof -
  from log_run_tables [OF run] have same: "db_levels db' = db_levels db"
    "\<forall>i. content fs' (SSTableFilePath (db_path db) i) = content fs (SSTableFilePath (db_path db) i)"
    and "\<exists>mts. db_immutables db' = db_immutables db @ mts" by (auto simp: same_tables_def)
  then obtain mts where imm: "db_immutables db' = db_immutables db @ mts" by blast
  have "sst_sources db' fs' = sst_sources db fs"
    using inv inv' same by (intro sst_sources_cong) (auto simp: db_inv_def info_path_def)
  then show ?thesis using fl by (auto simp: front_flushed_def imm split: list.splits)
qed

section \<open>The system\<close>

text \<open>
  The background thread waits, has flushed the oldest memtable and not yet removed it, or goes
  through the levels, of which the next to look at is remembered.
\<close>

datatype phase = Waiting | Flushed | Compacting nat

type_synonym db_system = "DBImpl \<times> fs \<times> phase"

text \<open>
  What the outside sees of a step. A crash comes with the entries of the write it interrupts that
  have been applied.
\<close>

datatype event =
    Wrote WriteBatch Status
  | Got bytes Status "bytes option"
  | Internal
  | Crashed WriteBatch

text \<open>
  The premises on room say that numbers and sizes do not run out. While a compaction of a caller
  runs the background thread is not compacting, for nothing in the source keeps the two apart.
\<close>

inductive db_step :: "db_system \<Rightarrow> event \<Rightarrow> db_system \<Rightarrow> bool" where
  writing: "DB_Write wo batch db fs = (s, db', fs') \<Longrightarrow> list_all entry_fits batch \<Longrightarrow>
    \<forall>k \<in> batch_key ` set batch. plain_key k \<Longrightarrow> room (length batch) db \<Longrightarrow> db_wal_id db + 1 \<noteq> 0 \<Longrightarrow>
    db_step (db, fs, ph) (Wrote batch s) (db', fs', ph)"
| reading: "DB_Get ro k db fs = (s, v, db') \<Longrightarrow> db_step (db, fs, ph) (Got k s v) (db', fs, ph)"
| flushing: "db_immutables db = mt # mts \<Longrightarrow> round_room db \<Longrightarrow> FlushMemTable mt db fs = (s, db', fs') \<Longrightarrow>
    db_step (db, fs, Waiting) Internal (db', fs', Flushed)"
| popping: "db_step (db, fs, Flushed) Internal (pop_front db, fs, Compacting 0)"
| compacting: "lvl + 1 < max_sstable_levels (db_options db) \<Longrightarrow> needs_compaction lvl db \<Longrightarrow> compact_room 1 db \<Longrightarrow>
    CompactLevel (int lvl) db fs = (s, db', fs') \<Longrightarrow>
    db_step (db, fs, Compacting lvl) Internal (db', fs', Compacting (lvl + 1))"
| skipping: "lvl + 1 < max_sstable_levels (db_options db) \<Longrightarrow> \<not> needs_compaction lvl db \<Longrightarrow>
    db_step (db, fs, Compacting lvl) Internal (db, fs, Compacting (lvl + 1))"
| resting: "max_sstable_levels (db_options db) \<le> lvl + 1 \<Longrightarrow>
    db_step (db, fs, Compacting lvl) Internal (db, fs, Waiting)"
| ranging: "compact_room (max_sstable_levels (db_options db)) db \<Longrightarrow> CompactRange db fs = (s, db', fs') \<Longrightarrow>
    db_step (db, fs, Waiting) Internal (db', fs', Waiting)"
| collecting: "gc_room db fs \<Longrightarrow> RunGC db fs = (s, db', fs') \<Longrightarrow> db_step (db, fs, ph) Internal (db', fs', ph)"
| crashing: "stopped db fs batch db1 fs1 \<Longrightarrow> crash_disk db1 fs1 fs2 \<Longrightarrow> reopen_room db1 fs2 \<Longrightarrow>
    DB_Open (db_options db) (db_path db) fs2 = (s, Some db', fs') \<Longrightarrow> db_step (db, fs, ph) (Crashed batch) (db', fs', Waiting)"

inductive db_history :: "db_system \<Rightarrow> event list \<Rightarrow> db_system \<Rightarrow> bool" where
  history_start: "db_history x [] x"
| history_step: "db_history x evs y \<Longrightarrow> db_step y ev z \<Longrightarrow> db_history x (evs @ [ev]) z"

text \<open>
  The abstract history: a write succeeds and changes the map, a read returns what the map holds,
  a crash leaves of the write it interrupts the first entries, and nothing else changes the map. \<open>None\<close> is a history that the map
  does not allow.
\<close>

definition event_spec :: "event \<Rightarrow> (bytes \<rightharpoonup> bytes) \<Rightarrow> (bytes \<rightharpoonup> bytes) option" where
  "event_spec ev kv =
     (case ev of
        Wrote batch s \<Rightarrow> if s = Status_OK then Some (apply_batch batch kv) else None
      | Got k s v \<Rightarrow> if v = kv k \<and> (case v of Some _ \<Rightarrow> s = Status_OK | None \<Rightarrow> IsNotFound s) then Some kv else None
      | Internal \<Rightarrow> Some kv
      | Crashed batch \<Rightarrow> Some (apply_batch batch kv))"

fun history_spec :: "event list \<Rightarrow> (bytes \<rightharpoonup> bytes) \<Rightarrow> (bytes \<rightharpoonup> bytes) option" where
  "history_spec [] kv = Some kv"
| "history_spec (ev # evs) kv = (case event_spec ev kv of None \<Rightarrow> None | Some kv \<Rightarrow> history_spec evs kv)"

lemma history_spec_snoc:
  "history_spec (evs @ [ev]) kv = (case history_spec evs kv of None \<Rightarrow> None | Some kv \<Rightarrow> event_spec ev kv)"
  by (induction evs arbitrary: kv) (auto split: option.split)

text \<open>The invariant of the system.\<close>

definition system_inv :: "Options \<Rightarrow> path \<Rightarrow> db_system \<Rightarrow> (bytes \<rightharpoonup> bytes) \<Rightarrow> bool" where
  "system_inv options dbp x kv \<longleftrightarrow>
     (case x of (db, fs, ph) \<Rightarrow>
        db_options db = options \<and> db_path db = dbp \<and> db_inv db fs kv \<and> (\<exists>rss. durable rss db fs) \<and>
        (ph = Flushed \<longrightarrow> front_flushed db fs))"

lemma system_invD:
  assumes "system_inv options dbp (db, fs, ph) kv"
  shows "db_options db = options" and "db_path db = dbp" and "db_inv db fs kv" and "\<exists>rss. durable rss db fs"
    and "ph = Flushed \<Longrightarrow> front_flushed db fs"
  using assms by (simp_all add: system_inv_def)

lemma system_invI:
  "db_options db = options \<Longrightarrow> db_path db = dbp \<Longrightarrow> db_inv db fs kv \<Longrightarrow> durable rss db fs \<Longrightarrow>
    (ph = Flushed \<Longrightarrow> front_flushed db fs) \<Longrightarrow> system_inv options dbp (db, fs, ph) kv"
  by (auto simp: system_inv_def)

text \<open>Operations on the logs and on the tables keep it.\<close>

lemma system_inv_run:
  assumes sys: "system_inv options dbp (db, fs, ph) kv" and inv': "db_inv db' fs' kv'"
    and run: "log_run K (db, fs) (db', fs')" and plain: "\<forall>k \<in> K. plain_key k"
  shows "system_inv options dbp (db', fs', ph) kv'"
proof -
  note s = system_invD [OF sys]
  from s(4) obtain rss where dur: "durable rss db fs" ..
  from durable_run [OF run dur plain] obtain rss' where dur': "durable rss' db' fs'" ..
  show ?thesis
    by (rule system_invI [OF _ _ inv' dur'])
      (use log_run_same [OF run] s(1,2) front_flushed_run [OF s(3) inv' run s(5)] in simp_all)
qed

lemma system_inv_moved:
  assumes sys: "system_inv options dbp (db, fs, ph) kv" and inv': "db_inv db' fs' kv'"
    and mv: "tables_moved db fs db' fs'" and ff: "ph' = Flushed \<Longrightarrow> front_flushed db' fs'"
  shows "system_inv options dbp (db', fs', ph') kv'"
proof -
  note s = system_invD [OF sys]
  from s(4) obtain rss where dur: "durable rss db fs" ..
  have "db_options db' = options" "db_path db' = dbp" using mv s(1,2) by (simp_all add: tables_moved_def logs_of_def)
  then show ?thesis using durable_moving [OF dur mv] inv' ff by (intro system_invI)
qed

lemma readers_idle:
  "db' = db\<lparr>db_vlog := (db_vlog db)\<lparr>vl_readers := r\<rparr>\<rparr> \<Longrightarrow> log_run K (db, fs) (db', fs)"
  by (rule log_idle) (simp_all add: same_tables_def sources_def mem_sources_def sst_sources_def)

lemma system_step:
  assumes "db_step (db, fs, ph) ev (db', fs', ph')" and sys: "system_inv options dbp (db, fs, ph) kv"
  obtains kv' where "event_spec ev kv = Some kv'" and "system_inv options dbp (db', fs', ph') kv'"
proof -
  note s = system_invD [OF sys] and moved = system_inv_moved [OF sys]
  note inv = s(3)
  from assms(1) show ?thesis
  proof cases
    case (writing wo batch s)
    have rm: "room (length batch + 0) db" using writing by simp
    obtain db2 fs2 where w: "DB_Write wo batch db fs = (Status_OK, db2, fs2)" "db_inv db2 fs2 (apply_batch batch kv)"
      "room 0 db2" "db_wal_id db + 1 \<noteq> 0 \<longrightarrow> log_run (batch_key ` set batch) (db, fs) (db2, fs2)"
      by (rule DB_Write_refines [OF inv _ rm]) (use writing in blast)+
    with writing have eq: "s = Status_OK" "db2 = db'" "fs2 = fs'" and lr: "log_run (batch_key ` set batch) (db, fs) (db', fs')"
      by auto
    have "event_spec ev kv = Some (apply_batch batch kv)" using writing eq by (simp add: event_spec_def)
    moreover have "system_inv options dbp (db', fs', ph') (apply_batch batch kv)"
      using system_inv_run [OF sys _ lr] w(2) eq writing by blast
    ultimately show ?thesis by (rule that)
  next
    case (reading ro k s v)
    obtain db2 where g: "DB_Get ro k db fs =
      (case kv k of
         Some v \<Rightarrow> (Status_OK, Some v, db2)
       | None \<Rightarrow> (NotFound (if find_latest db fs k = None then str ''Key not found'' else str ''Key deleted''), None, db2))"
      "db_inv db2 fs kv" "db2 = db\<lparr>db_vlog := (db_vlog db)\<lparr>vl_readers := vl_readers (db_vlog db2)\<rparr>\<rparr>"
      by (rule DB_Get_refines [OF inv])
    have "db2 = db'" "fs' = fs" "ph' = ph" and ev: "event_spec ev kv = Some kv"
      using g(1) reading by (auto simp: event_spec_def IsNotFound_def NotFound_def split: option.splits)
    then show ?thesis using system_inv_run [OF sys g(2) readers_idle [OF g(3)], of "{}"] by (intro that [OF ev]) simp
  next
    case (flushing mt mts s)
    note rr = round_room_flush [OF inv flushing(4,5)]
    obtain db2 fs2 where "FlushMemTable mt db fs = (Status_OK, db2, fs2)" "db_inv db2 fs2 kv"
      "tables_moved db fs db2 fs2" "front_flushed db2 fs2"
      by (rule flush_keeps [OF inv flushing(4) rr(1,2)])
    with flushing moved show ?thesis by (intro that [of kv]) (auto simp: event_spec_def)
  next
    case popping
    with s(5) have ff: "front_flushed db fs" by simp
    from popping moved pop_keeps [OF inv ff] show ?thesis by (intro that [of kv]) (auto simp: event_spec_def)
  next
    case (compacting lvl s)
    have rm: "compact_room (Suc 0) db" using compacting by simp
    obtain db2 fs2 where "CompactLevel (int lvl) db fs = (Status_OK, db2, fs2)" "db_inv db2 fs2 kv" "tables_moved db fs db2 fs2"
      using CompactLevel_refines [OF inv rm compacting(4)] by blast
    with compacting moved show ?thesis by (intro that [of kv]) (auto simp: event_spec_def)
  next
    case (skipping lvl)
    with moved [OF inv tables_moved_refl] show ?thesis by (intro that [of kv]) (auto simp: event_spec_def)
  next
    case (resting lvl)
    with moved [OF inv tables_moved_refl] show ?thesis by (intro that [of kv]) (auto simp: event_spec_def)
  next
    case (ranging s)
    obtain db2 fs2 where "CompactRange db fs = (Status_OK, db2, fs2)" "db_inv db2 fs2 kv" "tables_moved db fs db2 fs2"
      by (rule CompactRange_refines [OF inv ranging(4)])
    with ranging moved show ?thesis by (intro that [of kv]) (auto simp: event_spec_def)
  next
    case (collecting s)
    obtain s2 db2 fs2 where g: "RunGC db fs = (s2, db2, fs2)" "db_inv db2 fs2 kv" "log_run {} (db, fs) (db2, fs2)"
      by (rule RunGC_refines [OF inv collecting(3)])
    with collecting show ?thesis using system_inv_run [OF sys g(2,3)] by (intro that [of kv]) (simp_all add: event_spec_def)
  next
    case (crashing batch db1 fs1 fs2 s)
    from s(4) obtain rss where dur: "durable rss db fs" ..
    obtain db2 fs3 rss' where o: "DB_Open (db_options db) (db_path db) fs2 = (Status_OK, Some db2, fs3)"
      "db_inv db2 fs3 (apply_batch batch kv)" "durable rss' db2 fs3" "db_options db2 = db_options db" "db_path db2 = db_path db"
      by (rule stopped_recovers [OF crashing(3) inv dur crashing(4,5)])
    with crashing have eq: "db2 = db'" "fs3 = fs'" by simp_all
    have "system_inv options dbp (db', fs', ph') (apply_batch batch kv)"
      by (rule system_invI [where rss = rss']) (use o s(1,2) crashing eq in simp_all)
    with crashing(1) show ?thesis by (intro that [of "apply_batch batch kv"]) (simp_all add: event_spec_def)
  qed
qed

section \<open>Histories\<close>

lemma open_durable:
  assumes "options_ok options" and "DB_Open options dbp empty_fs = (s, Some db, fs)"
  shows "system_inv options dbp (db, fs, Waiting) Map.empty" and "s = Status_OK"
proof -
  obtain db1 fs1 where o: "DB_Open options dbp empty_fs = (Status_OK, Some db1, fs1)" "db_inv db1 fs1 Map.empty"
    "db_sequence_number db1 = 2" "vl_current_file_id (db_vlog db1) = 1" "db_options db1 = options"
    "db_immutables db1 = []" "db_next_sstable_id db1 = 1" "db_memtable db1 = MemTable_new (memtable_size_limit options)"
    "db_levels db1 = replicate (max_sstable_levels options) []" "db_path db1 = dbp"
    "content fs1 = [vlog_file_path dbp 1 \<mapsto> [], WALFilePath dbp 1 \<mapsto> []]" "db_wal_id db1 = 1"
    by (rule open_empty [OF assms(1), of dbp])
  then have eq: "db1 = db" "fs1 = fs" using assms(2) by simp_all
  have "dir_ok dbp fs1" by (simp add: dir_ok_def o(11))
  moreover have "wal_files dbp [[]] fs1"
  proof -
    have "i = 1 \<longleftrightarrow> 1 \<le> unat i \<and> unat i \<le> 1" for i :: u64
      by (metis le_antisym order_refl unat_1 word_unat_eq_iff)
    then show ?thesis by (auto simp: wal_files_def o(11))
  qed
  moreover have "\<forall>m \<in> set (sources db1 fs1). m = Map.empty"
    using assms(1) by (auto simp: sources_def mem_sources_def sst_sources_def o(6,8,9) options_ok_def)
  then have "keeps_or_drops [wal_view (concat [[]])] (sources db1 fs1)"
    by (intro keeps_or_drops_same) (auto simp: lookup_in_None)
  moreover have "levels_numbered (db_levels db1)" "manifest_sync db1 fs1"
    by (auto simp: levels_numbered_def manifest_sync_def o(7,9,10,11))
  ultimately have dur: "durable [[]] db1 fs1"
    by (simp add: durable_def recoverable_def records_ok_def o(3,4,10-12))
  have "system_inv options dbp (db1, fs1, Waiting) Map.empty"
    by (rule system_invI [OF o(5,10,2) dur]) simp
  with eq show "system_inv options dbp (db, fs, Waiting) Map.empty" by simp
  show "s = Status_OK" using o(1) assms(2) by simp
qed

lemma history_inv:
  assumes "db_history x evs y" and "system_inv options dbp x kv"
  obtains kv' where "history_spec evs kv = Some kv'" and "system_inv options dbp y kv'"
proof -
  from assms have "\<exists>kv'. history_spec evs kv = Some kv' \<and> system_inv options dbp y kv'"
  proof (induction rule: db_history.induct)
    case (history_step x evs y ev z)
    then obtain kv1 where h: "history_spec evs kv = Some kv1" "system_inv options dbp y kv1" by blast
    obtain db fs ph where y: "y = (db, fs, ph)" by (metis prod.exhaust)
    obtain db' fs' ph' where z: "z = (db', fs', ph')" by (metis prod.exhaust)
    obtain kv' where "event_spec ev kv1 = Some kv'" "system_inv options dbp (db', fs', ph') kv'"
      using history_step.hyps(2) h(2) unfolding y z by (rule system_step)
    with h(1) show ?case by (simp add: history_spec_snoc z)
  qed simp
  with that show ?thesis by blast
qed

section \<open>An example\<close>

text \<open>The first write to a fresh database leaves room to open it again.\<close>

definition put_example :: WriteBatch where
  "put_example = [\<lparr>batch_type = kPut, batch_key = [1], batch_value = [2]\<rparr>]"

lemma apply_batch_Nil [simp]: "apply_batch [] kv = kv"
  by (simp add: apply_batch_def)

lemma put_example_ok:
  "list_all entry_fits put_example" "\<forall>k \<in> batch_key ` set put_example. plain_key k" "length put_example = 1"
  "apply_batch put_example kv = kv([1] \<mapsto> [2])"
  by (simp_all add: put_example_def entry_fits_def plain_key_def is_space_def word_le_nat_alt apply_batch_def)

lemma first_write:
  assumes o: "DB_Open (default_Options gc) dbp empty_fs = (Status_OK, Some db, fs)"
  obtains db' fs' where "DB_Write \<lparr>sync = False\<rparr> put_example db fs = (Status_OK, db', fs')"
    and "Write_entries put_example db fs = (Status_OK, db', fs')" and "reopen_room db' fs'"
    and "room 1 db" and "db_wal_id db + 1 \<noteq> 0"
proof -
  obtain db1 fs1 where n: "DB_Open (default_Options gc) dbp empty_fs = (Status_OK, Some db1, fs1)" "db_inv db1 fs1 Map.empty"
    "db_sequence_number db1 = 2" "vl_current_file_id (db_vlog db1) = 1" "db_options db1 = default_Options gc"
    "db_immutables db1 = []" "db_next_sstable_id db1 = 1"
    "db_memtable db1 = MemTable_new (memtable_size_limit (default_Options gc))"
    "db_levels db1 = replicate (max_sstable_levels (default_Options gc)) []" "db_path db1 = dbp"
    "content fs1 = [vlog_file_path dbp 1 \<mapsto> [], WALFilePath dbp 1 \<mapsto> []]" "db_wal_id db1 = 1"
    "fs_files fs1 = [(vlog_file_path dbp 1, []), (WALFilePath dbp 1, [])]" "vl_current_offset (db_vlog db1) = 0"
    by (rule open_empty [OF options_ok_default, of gc dbp])
  from n(1) o have eq: "db1 = db" "fs1 = fs" by simp_all
  note f = n [unfolded eq]
  let ?vp = "vlog_file_path dbp 1" and ?wp = "WALFilePath dbp 1"
  from f(2) have rel: "reliable fs" and vo: "vl_ok (db_vlog db) fs" and wo: "wal_open (db_wal db) ?wp"
    and vd: "vl_db_path (db_vlog db) = dbp" "vl_options (db_vlog db) = default_Options gc"
    unfolding db_inv_def logs_ok_def f(5,10,12) by blast+
  obtain w where w: "vl_writer (db_vlog db) = Some w" "open_on w ?vp"
    using vo by (auto simp: vl_ok_def f(4) vd VLogFilePath_def)
  let ?r = "vlog_record [1] [2] kValue"
  define fs2 where "fs2 = set_content ?vp ?r fs"
  define vl where "vl = fst (snd (snd (VLog_Append [1] [2] kValue (db_vlog db) fs)))"
  have va: "VLog_Append [1] [2] kValue (db_vlog db) fs =
    (Status_OK, Some \<lparr>ptr_file_id = 1, ptr_offset = 0, ptr_value_size = 1\<rparr>, vl, fs2)"
    and vl: "vl_current_file_id vl = 1"
    using w rel f(4,11,14) vd
    by (auto simp: vl_def fs2_def VLog_Append_def needs_rotation_def VLog_write_def Let_def reliable_io open_on_def
        file_bytes_def default_Options_def)
  let ?rec = "\<lparr>wal_type = kValue, wal_sequence = 2, wal_key = [1],
    wal_vlog_ptr = \<lparr>ptr_file_id = 1, ptr_offset = 0, ptr_value_size = 1\<rparr>\<rparr>"
  have rel2: "reliable fs2" using rel by (simp add: fs2_def)
  obtain wal' where wa: "WAL_AddRecord ?rec (db_wal db) fs2 =
      (Status_OK, wal', set_content ?wp (file_bytes fs2 ?wp @ wal_encode ?rec) fs2)"
    by (rule WAL_AddRecord_reliable [OF rel2 wo])
  have ne: "?vp \<noteq> ?wp" by simp
  let ?fs = "set_content ?wp (file_bytes fs2 ?wp @ wal_encode ?rec) fs2"
  have con: "fs_files ?fs = [(?vp, ?r), (?wp, wal_encode ?rec)]"
    using f(13) ne by (simp add: fs2_def file_bytes_def content_def)
  let ?mt = "mem_insert (db_memtable db) [1] \<lparr>vlog_ptr = \<lparr>ptr_file_id = 1, ptr_offset = 0, ptr_value_size = 1\<rparr>,
    entry_seq = 2, entry_type = kValue\<rparr>"
  let ?new = "db\<lparr>db_sequence_number := 2 + 1, db_vlog := vl, db_wal := wal', db_memtable := ?mt\<rparr>"
  have sf: "\<not> ShouldFlush ?mt"
    by (simp add: ShouldFlush_def f(8) mem_insert_def MemTable_new_def Let_def default_Options_def entry_mem_def
        sizeof_InternalEntry_def kNodeOverhead_def)
  have we: "Write_entries put_example db fs = (Status_OK, ?new, ?fs)"
    using va wa f(3) by (simp add: put_example_def Write_entry_def MemTable_Put_def Let_def)
  moreover have "DB_Write \<lparr>sync = False\<rparr> put_example db fs = (Status_OK, ?new, ?fs)"
    using sf by (simp add: DB_Write_def we MaybeScheduleFlush_def)
  moreover have "disk_bytes ?fs < 1000"
    using ne f(13) by (simp add: fs2_def disk_bytes_def file_bytes_def content_def length_wal_encode length_wal_inner)
  then have "reopen_room ?new ?fs"
    using con by (simp add: reopen_room_def replay_room_def f vl default_Options_def)
  ultimately show ?thesis by (intro that) (simp_all add: f room_def)
qed

section \<open>Properties\<close>







end
