(* ===== verification/Server_Loop.thy ===== *)
theory Server_Loop
  imports Server
begin

text \<open>
  The accept loop of \<open>main\<close> in \<open>tools/server.cpp\<close>: every accepted connection is handled
  by a thread of its own, and the threads share the database. A step of a thread is one read or one
  line, with the call of the database in it.
\<close>

section \<open>A thread\<close>

text \<open>
  The state of \<open>handle_client\<close> in the middle: the chunks that the next reads return, what has
  been read and not handled, what has been sent, and whether the loop still runs.
\<close>

record client =
  cl_reads :: "bytes list"
  cl_request :: bytes
  cl_sent :: "bytes list"
  cl_open :: bool

definition client_new :: "bytes list \<Rightarrow> client" where
  "client_new reads = \<lparr>cl_reads = reads, cl_request = [], cl_sent = [], cl_open = True\<rparr>"

definition client_step :: "'s DB \<Rightarrow> client \<Rightarrow> 's \<Rightarrow> (bytes list \<times> client \<times> 's) option" where
  "client_step vt c st =
     (if \<not> cl_open c then None
      else case next_line (cl_request c) of
        Some (line, request) \<Rightarrow>
          (let (response, st) = handle_line vt line st
           in Some ([line], c\<lparr>cl_request := request, cl_sent := cl_sent c @ [response]\<rparr>, st))
      | None \<Rightarrow>
          (case cl_reads c of
             [] \<Rightarrow> Some ([], c\<lparr>cl_open := False\<rparr>, st)
           | buffer # reads \<Rightarrow>
               if buffer = [] then Some ([], c\<lparr>cl_reads := reads, cl_open := False\<rparr>, st)
               else Some ([], c\<lparr>cl_reads := reads, cl_request := cl_request c @ buffer\<rparr>, st)))"

section \<open>The threads together\<close>

text \<open>
  The connections still to be accepted, each with the descriptor that \<open>accept\<close> returns, the
  clients in the order of their acceptance, and the database. The label of a step is the line it
  handles, with its client.
\<close>

type_synonym 's server = "(int \<times> bytes list) list \<times> client list \<times> 's"

inductive server_step :: "'s DB \<Rightarrow> 's server \<Rightarrow> (nat \<times> bytes) list \<Rightarrow> 's server \<Rightarrow> bool" for vt where
  accepting: "server_step vt ((fd, reads) # conns, cs, st) []
    (conns, if 0 \<le> fd then cs @ [client_new reads] else cs, st)"
| serving: "i < length cs \<Longrightarrow> client_step vt (cs ! i) st = Some (lines, c, st') \<Longrightarrow>
    server_step vt (conns, cs, st) (map (Pair i) lines) (conns, cs[i := c], st')"

inductive server_run :: "'s DB \<Rightarrow> 's server \<Rightarrow> (nat \<times> bytes) list \<Rightarrow> 's server \<Rightarrow> bool" for vt where
  server_start: "server_run vt x [] x"
| server_next: "server_run vt x evs y \<Longrightarrow> server_step vt y ls z \<Longrightarrow> server_run vt x (evs @ ls) z"

lemma serving_at:
  "i < length cs \<Longrightarrow> cs ! i = a \<Longrightarrow> client_step vt a st = Some (ls, c, st') \<Longrightarrow> evs = map (Pair i) ls \<Longrightarrow> cs' = cs[i := c] \<Longrightarrow>
    server_step vt (conns, cs, st) evs (conns, cs', st')"
  using serving by fastforce

section \<open>A thread alone\<close>

text \<open>The steps of a thread whose database nobody else uses are \<open>handle_client\<close>.\<close>

inductive client_run :: "'s DB \<Rightarrow> client \<Rightarrow> 's \<Rightarrow> client \<Rightarrow> 's \<Rightarrow> bool" for vt where
  client_end: "client_step vt c st = None \<Longrightarrow> client_run vt c st c st"
| client_next: "client_step vt c st = Some (ls, c1, st1) \<Longrightarrow> client_run vt c1 st1 c2 st2 \<Longrightarrow> client_run vt c st c2 st2"

lemma client_run_request:
  assumes "handle_request vt (cl_request c) st = (sent, request, st1)" and "cl_open c"
    and "client_run vt (c\<lparr>cl_request := request, cl_sent := cl_sent c @ sent\<rparr>) st1 c2 st2"
  shows "client_run vt c st c2 st2"
  using assms
proof (induction vt "cl_request c" st arbitrary: c sent rule: handle_request.induct)
  case (1 vt st)
  show ?case
  proof (cases "next_line (cl_request c)")
    case None
    with 1(2) have "sent = []" "request = cl_request c" "st1 = st" by (simp_all add: handle_request.simps)
    with 1(4) show ?thesis by simp
  next
    case (Some lr)
    obtain line rest where nl: "next_line (cl_request c) = Some (line, rest)" using Some by (cases lr) simp
    obtain r st' where h: "handle_line vt line st = (r, st')" by force
    obtain rs q s2 where hr: "handle_request vt rest st' = (rs, q, s2)" by (metis prod_cases3)
    from 1(2) nl h hr have eq: "sent = r # rs" "request = q" "st1 = s2"
      by (subst (asm) handle_request.simps, simp)+
    let ?c = "c\<lparr>cl_request := rest, cl_sent := cl_sent c @ [r]\<rparr>"
    have step: "client_step vt c st = Some ([line], ?c, st')" using 1(3) nl h by (simp add: client_step_def)
    have e: "(line, cl_request ?c) = (line, rest)" by simp
    have "client_run vt ?c st' c2 st2"
      by (rule 1(1) [OF nl e h [symmetric] refl, of rs]) (use hr 1(3,4) eq in simp_all)
    with step show ?thesis by (rule client_next)
  qed
qed

lemma handle_request_rest: "handle_request vt request st = (sent, rest, st') \<Longrightarrow> next_line rest = None"
proof (induction vt request st arbitrary: sent rule: handle_request.induct)
  case (1 vt request st)
  show ?case
  proof (cases "next_line request")
    case None
    with 1(2) show ?thesis by (simp add: handle_request.simps)
  next
    case (Some lr)
    with 1(2) show ?thesis
      using 1(1) [OF Some]
      by (subst (asm) handle_request.simps) (auto split: prod.splits)
  qed
qed

lemma client_run_loop:
  assumes "client_loop vt reads request st = (sent, st')" and "next_line request = None"
  shows "\<exists>c'. client_run vt \<lparr>cl_reads = reads, cl_request = request, cl_sent = sent0, cl_open = True\<rparr> st c' st' \<and>
    cl_sent c' = sent0 @ sent"
  using assms
proof (induction reads arbitrary: request st sent sent0)
  case Nil
  let ?c = "\<lparr>cl_reads = [], cl_request = request, cl_sent = sent0, cl_open = True\<rparr>"
  have "client_step vt ?c st = Some ([], ?c\<lparr>cl_open := False\<rparr>, st)" using Nil by (simp add: client_step_def)
  then have "client_run vt ?c st (?c\<lparr>cl_open := False\<rparr>) st"
    by (rule client_next) (rule client_end, simp add: client_step_def)
  then show ?case using Nil(1) by (intro exI conjI) auto
next
  case (Cons buffer reads)
  let ?c = "\<lparr>cl_reads = buffer # reads, cl_request = request, cl_sent = sent0, cl_open = True\<rparr>"
  show ?case
  proof (cases "buffer = []")
    case True
    have "client_step vt ?c st = Some ([], ?c\<lparr>cl_reads := reads, cl_open := False\<rparr>, st)"
      using Cons(3) True by (simp add: client_step_def)
    then have "client_run vt ?c st (?c\<lparr>cl_reads := reads, cl_open := False\<rparr>) st"
      by (rule client_next) (rule client_end, simp add: client_step_def)
    then show ?thesis using Cons(2) True by (intro exI conjI) auto
  next
    case False
    let ?c1 = "?c\<lparr>cl_reads := reads, cl_request := request @ buffer\<rparr>"
    have step: "client_step vt ?c st = Some ([], ?c1, st)" using Cons(3) False by (simp add: client_step_def)
    obtain rs rest st1 where h: "handle_request vt (request @ buffer) st = (rs, rest, st1)" by (metis prod_cases3)
    obtain more st2 where m: "client_loop vt reads rest st1 = (more, st2)" by force
    from Cons(2) False h m have eq: "sent = rs @ more" "st2 = st'" by simp_all
    obtain c' where c': "client_run vt \<lparr>cl_reads = reads, cl_request = rest, cl_sent = sent0 @ rs, cl_open = True\<rparr> st1 c' st'"
      "cl_sent c' = (sent0 @ rs) @ more"
      using Cons.IH [OF m [unfolded eq(2)] handle_request_rest [OF h]] by blast
    have "client_run vt ?c1 st c' st'"
      by (rule client_run_request) (use h c'(1) in simp_all)
    from client_next [OF step this] c'(2) eq show ?thesis by auto
  qed
qed

text \<open>
  The steps of a thread that has the database for itself end, and send and do what
  \<open>handle_client\<close> does.
\<close>

lemma client_steps:
  "\<exists>c'. client_run vt (client_new reads) st c' (snd (handle_client vt reads st)) \<and>
     cl_sent c' = fst (handle_client vt reads st)"
  using client_run_loop [of vt reads "[]" st "fst (handle_client vt reads st)" "snd (handle_client vt reads st)" "[]"]
    crlf_log.dec_empty
  by (simp add: handle_client_def client_new_def)

section \<open>The threads as one\<close>

definition answers :: "nat \<Rightarrow> (nat \<times> bytes) list \<Rightarrow> bytes list \<Rightarrow> bytes list" where
  "answers i evs rs = map snd (filter (\<lambda>(ev, r). fst ev = i) (zip evs rs))"

definition lines_of :: "nat \<Rightarrow> (nat \<times> bytes) list \<Rightarrow> bytes list" where
  "lines_of i evs = map snd (filter (\<lambda>ev. fst ev = i) evs)"

lemma answers_snoc:
  "length rs = length evs \<Longrightarrow>
    answers i (evs @ [(j, l)]) (rs @ [r]) = answers i evs rs @ (if j = i then [r] else [])"
  by (simp add: answers_def)

lemma lines_of_append: "lines_of i (evs @ evs') = lines_of i evs @ lines_of i evs'"
  by (simp add: lines_of_def)

lemma lines_of_pairs: "lines_of i (map (Pair j) ls) = (if j = i then ls else [])"
  by (induction ls) (auto simp: lines_of_def)

lemma run_lines_length: "run_lines vt ls st = (rs, st') \<Longrightarrow> length rs = length ls"
  by (induction ls arbitrary: st rs) (auto split: prod.splits)

lemma answers_fresh: "\<forall>ev \<in> set evs. fst ev < n \<Longrightarrow> n \<le> i \<Longrightarrow> answers i evs rs = []"
  by (fastforce simp: answers_def filter_empty_conv dest: set_zip_leftD)

text \<open>The lines in the order in which the threads handle them, handled one after another.\<close>

lemma client_step_cases:
  assumes "client_step vt c st = Some (ls, c', st')"
  obtains (line) line where "ls = [line]" "cl_open c" "next_line (cl_request c) = Some (line, cl_request c')"
      "handle_line vt line st = (last (cl_sent c'), st')" "cl_sent c' = cl_sent c @ [last (cl_sent c')]"
      "cl_reads c' = cl_reads c" "cl_open c'"
    | (input) "ls = []" "st' = st" "cl_sent c' = cl_sent c" "cl_open c" "next_line (cl_request c) = None"
      "cl_reads c = [] \<and> c' = c\<lparr>cl_open := False\<rparr> \<or> cl_reads c = [] # cl_reads c' \<and> \<not> cl_open c' \<or>
       (\<exists>b. b \<noteq> [] \<and> cl_reads c = b # cl_reads c' \<and> cl_request c' = cl_request c @ b \<and> cl_open c')"
  using assms
  by (auto simp: client_step_def split: if_splits option.splits list.splits prod.splits)

lemma server_run_serial:
  assumes "server_run vt (conns0, [], st) evs (conns, cs, st')"
  shows "\<exists>rs. run_lines vt (map snd evs) st = (rs, st') \<and> (\<forall>i < length cs. cl_sent (cs ! i) = answers i evs rs)"
    and "\<forall>ev \<in> set evs. fst ev < length cs"
  using assms
proof (induction "(conns0, [] :: client list, st)" evs "(conns, cs, st')" arbitrary: conns cs st' rule: server_run.induct)
  case server_start
  {
    case 1
    then show ?case by simp
  next
    case 2
    then show ?case by simp
  }
next
  case (server_next evs y ls)
  obtain conns1 cs1 st1 where y: "y = (conns1, cs1, st1)" by (metis prod_cases3)
  from server_next(2) [OF y] server_next(3) [OF y] obtain rs where rs: "run_lines vt (map snd evs) st = (rs, st1)"
    "\<And>i. i < length cs1 \<Longrightarrow> cl_sent (cs1 ! i) = answers i evs rs" and ids: "\<forall>ev \<in> set evs. fst ev < length cs1" by blast
  have len: "length rs = length evs" using run_lines_length [OF rs(1)] by simp
  from server_next(4) [unfolded y]
  have "(\<exists>rs. run_lines vt (map snd (evs @ ls)) st = (rs, st') \<and> (\<forall>i < length cs. cl_sent (cs ! i) = answers i (evs @ ls) rs)) \<and>
    (\<forall>ev \<in> set (evs @ ls). fst ev < length cs)"
  proof cases
    case (accepting fd reads)
    have "cl_sent (cs ! i) = answers i evs rs" if "i < length cs" for i
    proof (cases "i < length cs1")
      case False
      with that accepting have "cs ! i = client_new reads" "length cs1 \<le> i" by (auto simp: nth_append split: if_splits)
      then show ?thesis using answers_fresh [OF ids] by (simp add: client_new_def)
    qed (use rs(2) accepting in \<open>simp add: nth_append\<close>)
    moreover have "\<forall>ev \<in> set evs. fst ev < length cs" using ids accepting by (auto intro: less_SucI)
    ultimately show ?thesis using rs(1) accepting by auto
  next
    case (serving i lines c)
    from serving(5) show ?thesis
    proof (cases rule: client_step_cases)
      case (line l)
      let ?r = "last (cl_sent c)"
      have "run_lines vt (map snd (evs @ ls)) st = (rs @ [?r], st')"
        using rs(1) line(4) serving line(1) by (simp add: run_lines_append)
      moreover have "cl_sent (cs ! j) = answers j (evs @ ls) (rs @ [?r])" if "j < length cs" for j
        using that rs(2) [of j] rs(2) [of i] serving line(1,5) answers_snoc [OF len, of j i l ?r] by (cases "j = i") auto
      ultimately show ?thesis using ids serving line(1) by auto
    next
      case input
      have "cl_sent (cs ! j) = answers j evs rs" if "j < length cs" for j
        using that rs(2) [of j] rs(2) [of i] serving input(3) by (cases "j = i") auto
      then show ?thesis using rs(1) ids serving input(1,2) by auto
    qed
  qed
  {
    case 1
    then show ?case using \<open>_ \<and> _\<close> by blast
  next
    case 2
    then show ?case using \<open>_ \<and> _\<close> by blast
  }
qed

section \<open>The lines of a client\<close>

lemma next_line_prefix:
  assumes "list_all line_valid D" and "request @ X = crlf_log.log_of D" and nl: "next_line request = Some (l, rest)"
  obtains D' where "D = l # D'" and "rest @ X = crlf_log.log_of D'"
proof -
  have "prefix request (crlf_log.log_of D)" by (rule prefixI [of _ _ X]) (simp add: assms(2) [symmetric])
  then obtain k t where k: "k \<le> length D" "request = crlf_log.log_of (take k D) @ t"
    "t = [] \<or> (k < length D \<and> strict_prefix t (crlf (D ! k)))"
    by (rule crlf_log.prefix_of_log)
  have t: "next_line t = None"
    using k(3) assms(1) next_line_torn [of "D ! k" t] crlf_log.dec_empty by (auto simp: list_all_length)
  have "k \<noteq> 0"
  proof
    assume "k = 0"
    with k(2) nl t show False by simp
  qed
  then obtain d D' k' where D: "D = d # D'" "k = Suc k'" using k(1) by (cases D; cases k) auto
  have d: "line_valid d" using assms(1) D by simp
  have "next_line request = Some (d, crlf_log.log_of (take k' D') @ t)"
    using next_line_crlf [OF d] by (simp add: k(2) D)
  with nl have "l = d" "rest = crlf_log.log_of (take k' D') @ t" by simp_all
  moreover have "crlf_log.log_of (take k' D') @ t @ X = crlf_log.log_of D'" using assms(2) by (simp add: k(2) D)
  ultimately show ?thesis using D(1) that by simp
qed

text \<open>
  When a client sends whole lines, those that have been handled are the first of them, and all of
  them once its thread has ended.
\<close>

definition client_track :: "bytes list \<Rightarrow> client \<Rightarrow> bytes list \<Rightarrow> bool" where
  "client_track reads c ls \<longleftrightarrow>
     (\<forall>L. list_all line_valid L \<longrightarrow> [] \<notin> set reads \<longrightarrow> concat reads = crlf_log.log_of L \<longrightarrow>
        (\<exists>D. L = ls @ D \<and> cl_request c @ concat (cl_reads c) = crlf_log.log_of D \<and> [] \<notin> set (cl_reads c) \<and>
           (\<not> cl_open c \<longrightarrow> cl_reads c = [] \<and> next_line (cl_request c) = None)))"

lemma client_track_new: "client_track reads (client_new reads) []"
  by (simp add: client_track_def client_new_def)

lemma client_track_step:
  assumes track: "client_track reads c ls" and step: "client_step vt c st = Some (ls', c', st')"
  shows "client_track reads c' (ls @ ls')"
  unfolding client_track_def
proof (intro allI impI)
  fix L assume L: "list_all line_valid L" "[] \<notin> set reads" "concat reads = crlf_log.log_of L"
  with track obtain D where D: "L = ls @ D" "cl_request c @ concat (cl_reads c) = crlf_log.log_of D" "[] \<notin> set (cl_reads c)"
    unfolding client_track_def by blast
  from step show "\<exists>D. L = (ls @ ls') @ D \<and> cl_request c' @ concat (cl_reads c') = crlf_log.log_of D \<and> [] \<notin> set (cl_reads c') \<and>
      (\<not> cl_open c' \<longrightarrow> cl_reads c' = [] \<and> next_line (cl_request c') = None)"
  proof (cases rule: client_step_cases)
    case (line l)
    have "list_all line_valid D" using L(1) D(1) by simp
    then obtain D' where "D = l # D'" "cl_request c' @ concat (cl_reads c) = crlf_log.log_of D'"
      using D(2) line(3) by (rule next_line_prefix)
    with D line show ?thesis by (intro exI [of _ D']) simp
  next
    case input
    from input(6) D show ?thesis using input(1,5) by (intro exI [of _ D]) auto
  qed
qed

lemma client_track_done:
  assumes "client_track reads c ls" and "\<not> cl_open c" and "list_all line_valid L" and "[] \<notin> set reads"
    and "concat reads = crlf_log.log_of L"
  shows "ls = L"
proof -
  from assms obtain D where D: "L = ls @ D" "cl_request c = crlf_log.log_of D" "next_line (cl_request c) = None"
    unfolding client_track_def by auto
  with assms(3) have "D = []" by (cases D) (auto simp: next_line_crlf)
  with D show ?thesis by simp
qed

text \<open>The connections that are accepted, in order.\<close>

definition accepted :: "(int \<times> bytes list) list \<Rightarrow> bytes list list" where
  "accepted conns = map snd (filter (\<lambda>(fd, reads). 0 \<le> fd) conns)"

lemma lines_of_fresh: "\<forall>ev \<in> set evs. fst ev < n \<Longrightarrow> lines_of n evs = []"
  by (auto simp: lines_of_def filter_empty_conv)

lemma server_run_tracks:
  assumes "server_run vt (conns0, [], st) evs (conns, cs, st')"
  shows "\<exists>rds. accepted conns0 = rds @ accepted conns \<and> length rds = length cs \<and>
    (\<forall>i < length cs. client_track (rds ! i) (cs ! i) (lines_of i evs))"
  using assms
proof (induction "(conns0, [] :: client list, st)" evs "(conns, cs, st')" arbitrary: conns cs st' rule: server_run.induct)
  case server_start
  then show ?case by simp
next
  case (server_next evs y ls)
  obtain conns1 cs1 st1 where y: "y = (conns1, cs1, st1)" by (metis prod_cases3)
  from server_next(2) [OF y] obtain rds where rds: "accepted conns0 = rds @ accepted conns1" "length rds = length cs1"
    "\<And>i. i < length cs1 \<Longrightarrow> client_track (rds ! i) (cs1 ! i) (lines_of i evs)" by blast
  have ids: "\<forall>ev \<in> set evs. fst ev < length cs1"
    by (rule server_run_serial(2) [OF server_next(1) [unfolded y]])
  from server_next(3) [unfolded y] show ?case
  proof cases
    case (accepting fd reads)
    show ?thesis
    proof (cases "0 \<le> fd")
      case True
      have "client_track ((rds @ [reads]) ! i) (cs ! i) (lines_of i evs)" if "i < length cs" for i
      proof (cases "i = length cs1")
        case True
        then show ?thesis
          using accepting \<open>0 \<le> fd\<close> rds(2) client_track_new lines_of_fresh [OF ids] by (simp add: nth_append)
      next
        case False
        then show ?thesis using that accepting \<open>0 \<le> fd\<close> rds(2,3) by (simp add: nth_append)
      qed
      then show ?thesis
        using accepting True rds(1,2) by (intro exI [of _ "rds @ [reads]"]) (simp add: accepted_def)
    next
      case False
      then show ?thesis using accepting rds by (intro exI [of _ rds]) (simp add: accepted_def)
    qed
  next
    case (serving i lines c)
    have "client_track (rds ! j) (cs ! j) (lines_of j (evs @ ls))" if "j < length cs" for j
      using that serving rds(3) [of j] client_track_step [OF rds(3) serving(5)]
      by (cases "j = i") (auto simp: lines_of_append lines_of_pairs)
    then show ?thesis using serving rds(1,2) by (intro exI [of _ rds]) simp
  qed
qed

section \<open>Properties\<close>



end
