(* ===== verification/Torn_Tail.thy ===== *)
theory Torn_Tail
  imports Recover
begin

text \<open>
  A record of the value log that a crash has cut off. \<open>VLog::Open\<close> goes on writing behind it:
  what is written there can be read through its pointers, but the scan of garbage collection does
  not reach it.
\<close>

text \<open>A record cut off within its value covers what is written behind it, up to its length.\<close>

lemma vlog_decode_covered:
  assumes valid: "vlog_valid (k, v, t)" and n: "13 + length k \<le> n" and len: "n + length X < 13 + length k + length v"
  shows "vlog_decode (take n (vlog_record k v t) @ X) = None"
proof -
  let ?r = "vlog_record k v t" and ?bs = "take n (vlog_record k v t) @ X"
  from valid have w: "unat (u32_of (length k)) = length k" "unat (u32_of (length v)) = length v"
    by (simp_all add: vlog_valid_def)
  have le: "n < length ?r" using len by simp
  have dec: "DecodeFixed32 (drop m ?bs) = DecodeFixed32 (drop m ?r)" if "m + 4 \<le> n" for m
  proof -
    have "take 4 (drop m ?bs) = take 4 (drop m ?r)" using that le by (simp add: drop_take)
    then show ?thesis using DecodeFixed_take [of 4] by (metis order_refl)
  qed
  note f = vlog_fields [of k v t "[]", simplified]
  have klen: "unat (DecodeFixed32 (drop 5 ?bs)) = length k"
    using dec [of 5] n unfolding f by (simp add: w)
  have "drop (9 + length k) ?r = drop (length k) (drop 9 ?r)" by (simp add: add.commute)
  then have vlen: "unat (DecodeFixed32 (drop (9 + length k) ?bs)) = length v"
    using dec [of "9 + length k"] n unfolding f by (simp add: w)
  show ?thesis using len le unfolding vlog_decode_def Let_def klen vlen by simp
qed

section \<open>Properties\<close>

text \<open>
  C24: the value log does not repair a torn record. When the last file ends in a record that a crash
  has cut off within its value, opening succeeds and the next value is appended behind it; the value
  can be read through its pointer, but a scan of the file calls its callback for the records before
  the torn one only, and reports success. Garbage collection, which deletes the file after such a
  scan, thereby loses the value.
\<close>
theorem vlog_torn_tail:
  assumes "reliable fs" and "dir_ok dbp fs" and "0 < i" and "unat i < 100000"
    and "content fs (vlog_file_path dbp i) = Some (vlog_log.log_of rs @ take n (vlog_record k0 v0 kValue))"
    and "\<forall>j. content fs (vlog_file_path dbp j) \<noteq> None \<longrightarrow> j \<le> i"
    and "list_all vlog_valid rs" and "vlog_valid (k0, v0, kValue)" and "vlog_valid (k, v, kValue)"
    and "13 + length k0 \<le> n" and "n + (13 + length k + length v) < 13 + length k0 + length v0"
    and "length (vlog_log.log_of rs) + n + (13 + length k + length v) \<le> vlog_file_size_limit options"
    and "vlog_file_size_limit options < 2 ^ 63"
  shows "\<exists>vl ptr vl' fs'. VLog_Open (VLog_new dbp options) fs = (Status_OK, vl, fs) \<and>
    VLog_Append k v kValue vl fs = (Status_OK, Some ptr, vl', fs') \<and>
    fst (VLog_Read ptr vl' fs') = Status_OK \<and> fst (snd (snd (VLog_Read ptr vl' fs'))) = Some v \<and>
    (\<forall>(callback :: bytes \<Rightarrow> bytes \<Rightarrow> ValueType \<Rightarrow> u64 \<Rightarrow> 's \<Rightarrow> Status \<times> 's) st.
       NewReader i 0 callback vl' fs' st = scan_run callback 0 rs st)"
proof -
  let ?t = "take n (vlog_record k0 v0 kValue)" and ?r = "vlog_record k v kValue"
  let ?c = "vlog_log.log_of rs @ ?t" and ?p = "vlog_file_path dbp i"
  have lt: "length ?t = n" using assms(11) by simp
  have c63: "length ?c + length ?r < 2 ^ 63" using assms(12,13) lt by simp
  obtain vl where vl: "VLog_Open (VLog_new dbp options) fs = (Status_OK, vl, fs)" "vl_ok vl fs" "vl_db_path vl = dbp"
    "vl_options vl = options" "vl_current_file_id vl = i"
    by (rule VLog_Open_existing [OF assms(1-5) _ assms(13)]) (use c63 assms(6) in auto)
  then obtain w where w: "vl_writer vl = Some w" "open_on w ?p" and off: "unat (vl_current_offset vl) = length ?c"
    using assms(5) by (auto simp: vl_ok_def VLogFilePath_def)
  have room: "unat (vl_current_offset vl) + length ?r < 2 ^ 63" using c63 off by simp
  obtain ptr vl' fs' where app: "VLog_write k v kValue vl fs = (Status_OK, Some ptr, vl', fs')" "appended k v vl fs ptr vl' fs'"
    "vl_current_file_id vl' = i"
    using VLog_write_appended [OF assms(1) vl(2) assms(9) room] vl(5) by auto
  have con: "content fs' = (content fs)(?p \<mapsto> ?c @ ?r)"
    by (rule VLog_write_reliable [OF assms(1) w assms(5), of k v kValue]) (use app(1) in simp)
  let ?rs = "RecordSize (u32_of (length k)) (u32_of (length v))"
  have rs: "unat ?rs = length ?r" using assms(9) by (rule RecordSize_valid)
  have "unat (vl_current_offset vl + ucast ?rs) = length ?c + length ?r"
    using off rs c63 by (simp add: unat_plus_if')
  then have "\<not> needs_rotation ?rs vl" using assms(12) lt by (simp add: needs_rotation_def vl(4))
  then have va: "VLog_Append k v kValue vl fs = (Status_OK, Some ptr, vl', fs')"
    using app(1) w(1) by (simp add: VLog_Append_def)
  from app(2) have rel': "reliable fs'" and ok': "vl_ok vl' fs'" and at: "vlog_at fs' (vl_db_path vl') ptr k v"
    and dp: "vl_db_path vl' = dbp"
    by (simp_all add: appended_def vl(3))
  obtain vl2 where rd: "VLog_Read ptr vl' fs' = (Status_OK, Some k, Some v, vl2)"
    by (rule VLog_Read_at [OF rel' _ at]) (use ok' in \<open>simp add: vl_ok_def\<close>)
  have "vlog_decode (?t @ ?r) = None" by (rule vlog_decode_covered [OF assms(8,10)]) (use assms(11) in simp)
  then have scan: "scan_log vlog_decode (?c @ ?r) = rs"
    using vlog_log.scan_append [OF assms(7), of "?t @ ?r"] by (simp add: scan_log.simps [of vlog_decode "?t @ ?r"])
  have "NewReader i 0 callback vl' fs' st = scan_run callback 0 rs st" for callback :: "bytes \<Rightarrow> bytes \<Rightarrow> ValueType \<Rightarrow> u64 \<Rightarrow> 's \<Rightarrow> Status \<times> 's" and st
    using NewReader_scan [OF rel', of vl' i "?c @ ?r" callback st] con c63 assms(7) unfolding scan VLogFilePath_def dp by simp
  with vl(1) va rd show ?thesis by auto
qed

theorem vlog_torn_tail_witness:
  defines "fs \<equiv> set_content (vlog_file_path (str ''db'') 1) (take 20 (vlog_record [1] (replicate 50 0) kValue)) empty_fs"
    and "cb \<equiv> \<lambda>k v t off (st :: bytes list). (Status_OK, k # st)"
  shows "\<exists>vl ptr vl' fs'. VLog_Open (VLog_new (str ''db'') (default_Options (\<lambda>_ _. True))) fs = (Status_OK, vl, fs) \<and>
    VLog_Append [2] [3] kValue vl fs = (Status_OK, Some ptr, vl', fs') \<and>
    fst (snd (snd (VLog_Read ptr vl' fs'))) = Some [3] \<and> NewReader 1 0 cb vl' fs' [] = (Status_OK, [])"
proof -
  let ?p = "vlog_file_path (str ''db'') 1"
  have con: "content fs = [?p \<mapsto> take 20 (vlog_record [1] (replicate 50 0) kValue)]"
    by (auto simp: fs_def content_def empty_fs_def)
  have "reliable fs" by (simp add: fs_def reliable_def empty_fs_def set_content_def)
  moreover have "dir_ok (str ''db'') fs" by (simp add: dir_ok_def con)
  moreover have "\<forall>j. content fs (vlog_file_path (str ''db'') j) \<noteq> None \<longrightarrow> j \<le> 1" by (simp add: con)
  ultimately show ?thesis
    using vlog_torn_tail [of fs "str ''db''" 1 "[]" 20 "[1]" "replicate 50 0" "[2]" "[3]" "default_Options (\<lambda>_ _. True)"] con
    by (fastforce simp: vlog_valid_def default_Options_def)
qed

end
