(* ===== verification/Spec2Isabelle.thy ===== *)
theory Spec2Isabelle
  imports Cli Db_System Server_Loop Torn_Tail
begin

text \<open>
  SplitKV: a key-value store with key-value separation.

  \<^bold>\<open>The program.\<close> A database is a directory. Values go to an append-only value log
  (\<open>src/vlog.cpp\<close>), and keys with pointers to their values to a log-structured merge tree: a
  memtable (\<open>src/memtable.cpp\<close>, an AVL tree of \<open>src/avl_tree.h\<close>) protected by a
  write-ahead log (\<open>src/wal.cpp\<close>), a queue of immutable memtables, and levels of sorted tables
  (\<open>src/sstable.cpp\<close>, with a sparse index and a Bloom filter, \<open>src/bloom_filter.cpp\<close>).
  \<open>src/db_impl.cpp\<close> puts them together: writes append to the value log and the write-ahead log
  and insert into the memtable; a full memtable is queued, a background thread flushes it to level
  0 and compacts levels that are too large; garbage collection rewrites the live records of an old
  value-log file and deletes it; opening loads the manifest and replays the write-ahead logs.
  \<open>tools/cli.cpp\<close> and \<open>tools/server.cpp\<close> are clients of the abstract class
  \<open>DB\<close> (\<open>include/splitkv/db.h\<close>).

  \<^bold>\<open>Theories and sources.\<close>
  \<^item> \<open>Prelude\<close>: bytes, 32- and 64-bit words, decimal text, list and word lemmas.
  \<^item> \<open>Status_Slice\<close>: \<open>status.h\<close>, \<open>slice.h\<close>, \<open>options.h\<close>. \<open>Coding\<close>:
    \<open>coding.cpp\<close>. \<open>Crc32\<close>: \<open>crc32.cpp\<close>. \<open>Bloom_Filter\<close>: \<open>bloom_filter.cpp\<close>.
  \<^item> \<open>Avl_Tree\<close>: \<open>avl_tree.h\<close>, trees as values with the cached heights, and the stack
    iterator. \<open>Mem_Table\<close>: \<open>memtable.cpp\<close>. \<open>Write_Batch\<close>: \<open>write_batch.cpp\<close>.
  \<^item> \<open>File_Util\<close>: \<open>file_util.cpp\<close>, its POSIX branch over a file system that maps paths to
    bytes, with buffered streams. A fault function decides for every system call whether it fails,
    after how many bytes, and with which error text; \<open>reliable\<close> is the case without faults.
  \<^item> \<open>Log_Frame\<close>: the interface (a locale) of a log of self-delimiting records, interpreted
    for the write-ahead log in \<open>Wal\<close> (\<open>wal.cpp\<close>), for the value log in \<open>Vlog\<close>
    (\<open>vlog.cpp\<close>) and for the lines of the network protocol in \<open>Server\<close>.
  \<^item> \<open>Sstable\<close>: \<open>sstable.cpp\<close>, writer, reader and iterator. \<open>Manifest\<close>: the manifest
    text and the stream extraction that reads it.
  \<^item> \<open>Db_Impl\<close>, \<open>Db_Compact\<close>, \<open>Db_Gc\<close>, \<open>Db_Open\<close>: \<open>db_impl.cpp\<close>; the
    record \<open>DBImpl\<close> holds the members, and every method is a function on it and the file
    system: writes, reads and flush; compaction and the round of the background thread; garbage
    collection; recovery, opening, closing and statistics.
  \<^item> \<open>Db_Interface\<close>: the class \<open>DB\<close> as a record of functions, its convenience methods, and
    the contract of a key-value store as the locale \<open>kv_store\<close>, interpreted for \<open>DBImpl\<close>.
    \<open>Server\<close>: \<open>handle_client\<close> of \<open>tools/server.cpp\<close>. \<open>Server_Loop\<close>: its accept
    loop, with a thread for every client, as a step relation over the shared database. \<open>Cli\<close>:
    \<open>tools/cli.cpp\<close>. Their refinement is proved in the locale, once.
  \<^item> \<open>Db_Invariant\<close>, \<open>Db_Refine\<close>, \<open>Db_Flush\<close>, \<open>Merge\<close>, \<open>Merge_Loop\<close>,
    \<open>Compact_Refine\<close>, \<open>Background\<close>, \<open>Gc_Refine\<close>, \<open>Db_Start\<close>: the invariant and
    the refinement proofs. \<open>Manifest_Load\<close>: the manifest read back.
  \<^item> \<open>Storage_Steps\<close>: what the operations do to the disk, as a step relation: logging a
    record, beginning a log, moving tables. \<open>Recover\<close>: the replay of the logs and opening an
    existing directory. \<open>Crash_Steps\<close>: every operation leaves what a crash needs.
    \<open>Crash_Points\<close>: where the process may die and what it leaves. \<open>Db_System\<close>: the
    flush thread of \<open>DBImpl::BackgroundFlush\<close> among callers, collections and crashes, as a
    step relation, with its histories. \<open>Torn_Tail\<close>: a torn record in the value log, which the
    source does not repair.

  \<^bold>\<open>What is shown.\<close> The components: encoders and decoders are inverse to each other; the
  table-driven checksum is the bitwise CRC-32C and detects bursts; the Bloom filter has no false
  negatives; the AVL tree stays a balanced search tree and is a map; both logs give back what was
  appended, and a log cut at any byte gives back its whole records; a table lookup and an iterator
  are the lookup and the order of the list the table was built from.

  The database: \<open>db_inv db fs kv\<close> says that a state is sound and stands for the map
  \<open>kv\<close> from keys to values. Opening an empty directory establishes it for the empty map;
  \<open>Get\<close> returns what the map says; \<open>Write\<close> updates the map by the batch; the flush, the
  compaction of a level or of all, a round of the background thread and garbage collection keep
  the map. \<open>durable rss db fs\<close> says that the directory holds what the database has accepted:
  the logs have the records \<open>rss\<close>, whose newest entries are those a lookup finds, and the
  manifest lists the tables. All operations keep it, and opening a directory that a crash has left
  gives the same map: \<open>system_inv\<close> joins both, and \<open>history_inv\<close> carries it through every
  interleaving of callers, background thread, collections and crashes. A crash may come between two
  entries of a batch, after a value and before its log record, within a log record, and within a
  flush, a compaction or a collection. With any faults of the environment an entry that reports an error leaves the tables and
  memtables alone, and the background thread makes progress. The clients answer as their command
  language prescribes over the map, also when many of them are served at once: the threads of the
  server behave as one that handles all lines in some order.

  \<^bold>\<open>Bounds.\<close> Loops are total functions with a measure; there is no fuel. Machine integers
  keep their width, so that results have explicit conditions: keys and values fit 32-bit record
  lengths (\<open>entry_fits\<close>), sequence numbers, file and table ids do not run out (\<open>room\<close>,
  \<open>gc_room\<close>, \<open>compact_room\<close>, \<open>round_room\<close>), tables stay below \<open>2 ^ 60\<close> bytes;
  for opening an existing directory the files are smaller than \<open>2 ^ 59\<close> bytes together, log
  numbers have five digits, and keys are not empty and without white space (\<open>reopen_room\<close>,
  \<open>plain_key\<close>), for the manifest cannot represent others.
  \<open>double\<close> arithmetic appears in the garbage ratio of \<open>RunGC\<close> only; the comparison is the
  parameter \<open>gc_worthwhile\<close> of the options, and the results hold for every choice of it.

  \<^bold>\<open>Not modelled.\<close> The mutexes and the condition variable: a call is one step, and the
  results are about sequences of such steps in any order. Where the source holds too few locks for
  that - a read of the value log beside a collection, two compactions of one level - the step
  relation leaves such an overlap out. A crash of the machine, which loses what the operating system
  has not written yet, a crash within an open, and, in the step relation, a torn record in the value
  log. The Windows branches. The calls that set up the socket of the server; accept and read are
  represented by what they return. \<open>bench/benchmark.cpp\<close> (a stub), \<open>iterator.h\<close> (an
  interface without an implementation), and memory allocation.
\<close>

section \<open>The database refines a map\<close>

text \<open>
  C3: \<open>Get\<close> returns exactly what the abstract map holds for the key: the value with status OK, or
  \<open>NotFound\<close> when the map has none; it changes nothing but the cache of open value-log readers.
\<close>
theorem get_refines:
  assumes "db_inv db fs kv"
  shows "\<exists>db'. DB_Get ro k db fs =
      (case kv k of
         Some v \<Rightarrow> (Status_OK, Some v, db')
       | None \<Rightarrow> (NotFound (if find_latest db fs k = None then str ''Key not found''
                            else str ''Key deleted''), None, db')) \<and>
    db_inv db' fs kv"
  by (rule DB_Get_refines [OF assms, of ro k]) blast

theorem get_refines_witness:
  "\<exists>db fs db' msg. DB_Open (default_Options (\<lambda>_ _. True)) (str ''db'') empty_fs = (Status_OK, Some db, fs) \<and>
     DB_Get \<lparr>verify_checksums = False\<rparr> [1] db fs = (NotFound msg, None, db')"
proof -
  obtain db fs where o: "DB_Open (default_Options (\<lambda>_ _. True)) (str ''db'') empty_fs = (Status_OK, Some db, fs)"
    "db_inv db fs Map.empty"
    by (rule fresh_db)
  with get_refines [OF o(2), of "\<lparr>verify_checksums = False\<rparr>" "[1]"] show ?thesis by auto
qed

text \<open>
  C4: a batch of puts and deletions is written successfully, and the database then stands for
  the map with the batch applied in order; this includes switching to a new memtable and a new
  write-ahead log when the memtable is full. The sequence numbers and value-log files must not
  run out, and each key and value must fit a 32-bit record.
\<close>
theorem write_refines:
  assumes "db_inv db fs kv" and "list_all entry_fits batch" and "room (length batch) db"
  shows "\<exists>db' fs'. DB_Write wo batch db fs = (Status_OK, db', fs') \<and>
    db_inv db' fs' (apply_batch batch kv)"
  by (rule DB_Write_refines [OF assms(1,2), of 0 wo]) (use assms(3) in auto)

theorem write_refines_witness:
  "\<exists>db fs db' fs'. DB_Open (default_Options (\<lambda>_ _. True)) (str ''db'') empty_fs = (Status_OK, Some db, fs) \<and>
     DB_Put \<lparr>sync = True\<rparr> [1] [2] db fs = (Status_OK, db', fs') \<and> db_inv db' fs' [[1] \<mapsto> [2]]"
proof -
  obtain db fs where o: "DB_Open (default_Options (\<lambda>_ _. True)) (str ''db'') empty_fs = (Status_OK, Some db, fs)"
    "db_inv db fs Map.empty" "room 1000000 db"
    by (rule fresh_db)
  then show ?thesis
    using write_refines [OF o(2), of "WriteBatch_Put WriteBatch_new [1] [2]" "\<lparr>sync = True\<rparr>"]
    by (auto simp: DB_Put_def WriteBatch_Put_def WriteBatch_new_def entry_fits_def room_def apply_batch_def)
qed

text \<open>
  C5: flushing the oldest immutable memtable into a level-0 table, recording it in the
  manifest and dropping the memtable keeps the map the database stands for.
\<close>
theorem flush_refines:
  assumes "db_inv db fs kv" and "db_immutables db = mt # mts"
    and "sst_ok (db_options db) (GetSortedEntries mt)" and "db_next_sstable_id db + 1 \<noteq> 0"
  shows "\<exists>db' fs'. FlushMemTable mt db fs = (Status_OK, db', fs') \<and> db_inv (pop_front db') fs' kv"
  by (rule flush_front_refines [OF assms(1,2)]) (use assms(3,4) in blast)+

theorem flush_refines_witness:
  "\<exists>db fs mt db' fs'. db_immutables db = [mt] \<and> FlushMemTable mt db fs = (Status_OK, db', fs') \<and>
     db_inv (pop_front db') fs' [[1] \<mapsto> [2]]"
proof -
  obtain db fs mt where i: "db_inv db fs [[1] \<mapsto> [2]]" "db_immutables db = [mt]"
    "sst_ok (db_options db) (GetSortedEntries mt)" "db_next_sstable_id db = 1"
    by (rule db_with_immutable)
  then obtain db' fs' where "FlushMemTable mt db fs = (Status_OK, db', fs')"
    "db_inv (pop_front db') fs' [[1] \<mapsto> [2]]"
    using flush_refines [OF i(1-3)] by auto
  with i(2) show ?thesis by blast
qed

text \<open>
  C19: opening a database in a directory without files succeeds and gives the empty map.
\<close>
theorem open_fresh:
  assumes "options_ok options"
  shows "\<exists>db fs. DB_Open options dbp empty_fs = (Status_OK, Some db, fs) \<and> db_inv db fs Map.empty"
  by (rule open_empty [OF assms, of dbp]) blast

theorem open_fresh_witness:
  "\<exists>db fs. DB_Open (default_Options (\<lambda>_ _. True)) (str ''db'') empty_fs = (Status_OK, Some db, fs)"
  using open_fresh [of "default_Options (\<lambda>_ _. True)" "str ''db''"] by (auto simp: options_ok_default)

text \<open>
  C18: whatever fails in the environment, an entry of a batch that reports an error has left
  the memtables and the tables as they were, and only its sequence number is used up; an entry
  that reports success is in the memtable under its key.
\<close>
theorem write_error_atomic:
  assumes "Write_entry entry db fs = (s, db', fs')"
  shows "db_immutables db' = db_immutables db \<and> db_levels db' = db_levels db \<and>
    db_sequence_number db' = db_sequence_number db + 1 \<and>
    (if ok s
     then \<exists>ptr. db_memtable db' = mem_insert (db_memtable db) (batch_key entry)
            \<lparr>vlog_ptr = ptr, entry_seq = db_sequence_number db,
             entry_type = (case batch_type entry of kPut \<Rightarrow> kValue | kDelete \<Rightarrow> kDeletion)\<rparr>
     else db_memtable db' = db_memtable db)"
  using Write_entry_effect [OF assms] by simp

theorem write_error_atomic_witness:
  "db_memtable (fst (snd (Write_entry \<lparr>batch_type = kDelete, batch_key = [1], batch_value = []\<rparr>
      (DBImpl_new (default_Options (\<lambda>_ _. True)) []) empty_fs))) = MemTable_new (4 * 1024 * 1024)"
proof -
  let ?e = "\<lparr>batch_type = kDelete, batch_key = [1], batch_value = []\<rparr>"
  let ?r = "Write_entry ?e (DBImpl_new (default_Options (\<lambda>_ _. True)) []) empty_fs"
  have "\<not> ok (fst ?r)"
    by (simp add: Write_entry_def DBImpl_new_def WAL_AddRecord_def WAL_new_def Let_def)
  then show ?thesis
    using write_error_atomic [of ?e _ empty_fs "fst ?r" "fst (snd ?r)" "snd (snd ?r)"]
    by (simp add: DBImpl_new_def default_Options_def)
qed

end
